(* ===== verification/Go_Prelude.thy ===== *)
theory Go_Prelude
  imports Main "HOL-Library.Word" "HOL-Library.Signed_Division"
begin

section \<open>Shared vocabulary: Go maps, Go integers, the standard library's search\<close>

text \<open>
  What the components share: the reading of a Go map and of the order in which a range over it
  visits the keys, the wrap-around of the signed machine integers, the truncating division, and
  the binary search of the package \<^verbatim>\<open>sort\<close>. The lemma collections the component
  proofs use are declared here.
\<close>

named_theorems go_simps \<open>rewrite rules for the Go constructs of this theory\<close>
named_theorems inv_intros \<open>each operation keeps its component's invariant\<close>

subsection \<open>Times and keys\<close>

text \<open>A point in time and a duration are counted in nanoseconds, as \<^verbatim>\<open>time.Duration\<close> is.\<close>

type_synonym time = int
type_synonym duration = int
type_synonym key = string

subsection \<open>Maps and their iteration order\<close>

text \<open>
  A Go map is a partial function. A range over it visits every key once, in an order the
  language leaves open: an operation that ranges over a map takes that order as an argument, and
  the theorems hold for every order that is \<^emph>\<open>one\<close>.
\<close>

definition iter_order :: "('k \<rightharpoonup> 'v) \<Rightarrow> 'k list \<Rightarrow> bool" where
  "iter_order m ks \<longleftrightarrow> distinct ks \<and> set ks = dom m"

lemma iter_order_set: "iter_order m ks \<Longrightarrow> set ks = dom m"
  by (simp add: iter_order_def)

lemma iter_order_distinct: "iter_order m ks \<Longrightarrow> distinct ks"
  by (simp add: iter_order_def)

lemma iter_order_length: "iter_order m ks \<Longrightarrow> length ks = card (dom m)"
  by (metis distinct_card iter_order_def)

lemma iter_order_finite: "iter_order m ks \<Longrightarrow> finite (dom m)"
  by (metis List.finite_set iter_order_def)

lemma iter_order_mem: "iter_order m ks \<Longrightarrow> k \<in> set ks \<longleftrightarrow> m k \<noteq> None"
  by (auto simp: iter_order_def dom_def)

text \<open>A pair in the middle of an association list with no earlier pair for its key.\<close>

lemma map_of_middle: "x \<notin> fst ` set ps \<Longrightarrow> map_of (ps @ (x, y) # qs) = (map_of (ps @ qs))(x \<mapsto> y)"
  by (induction ps) (auto simp: fun_eq_iff)

lemma map_of_middle_delete:
  assumes "x \<notin> fst ` set ps" and "x \<notin> fst ` set qs"
  shows "(map_of (ps @ (x, y) # qs))(x := None) = map_of (ps @ qs)"
proof -
  have "map_of (ps @ qs) x = None" using assms by (auto simp: map_of_eq_None_iff)
  then show ?thesis unfolding map_of_middle [OF assms(1)] by (simp only: fun_upd_upd fun_upd_idem)
qed

subsection \<open>Machine integers\<close>

definition wrap64 :: "int \<Rightarrow> int" where
  "wrap64 x = (x + 2 ^ 63) mod 2 ^ 64 - 2 ^ 63"

definition wrap32 :: "int \<Rightarrow> int" where
  "wrap32 x = (x + 2 ^ 31) mod 2 ^ 32 - 2 ^ 31"

abbreviation MaxInt64 :: int where
  "MaxInt64 \<equiv> 2 ^ 63 - 1"

abbreviation MaxInt32 :: int where
  "MaxInt32 \<equiv> 2 ^ 31 - 1"

definition is_int64 :: "int \<Rightarrow> bool" where
  "is_int64 x \<longleftrightarrow> - (2 ^ 63) \<le> x \<and> x < 2 ^ 63"

definition is_int32 :: "int \<Rightarrow> bool" where
  "is_int32 x \<longleftrightarrow> - (2 ^ 31) \<le> x \<and> x < 2 ^ 31"

lemma wrap64_id [go_simps]: "is_int64 x \<Longrightarrow> wrap64 x = x"
  by (simp add: wrap64_def is_int64_def)

lemma wrap32_id [go_simps]: "is_int32 x \<Longrightarrow> wrap32 x = x"
  by (simp add: wrap32_def is_int32_def)

lemma wrap64_range: "is_int64 (wrap64 x)"
  by (simp add: wrap64_def is_int64_def)

lemma wrap32_range: "is_int32 (wrap32 x)"
  by (simp add: wrap32_def is_int32_def)

text \<open>Integer division truncates towards zero, as \<^verbatim>\<open>sdiv\<close> does.\<close>

lemma sdiv_nonneg [go_simps]: "0 \<le> a \<Longrightarrow> 0 < b \<Longrightarrow> a sdiv b = a div (b::int)"
  by (simp add: signed_divide_int_def sgn_if)

subsection \<open>Binary search\<close>

text \<open>
  \<^verbatim>\<open>sort.Search(n, f)\<close> returns the least index at which \<open>f\<close> holds, where \<open>f\<close> stays true
  once it is true. The loop keeps the half-open window \<open>[i, j)\<close>.
\<close>

function search_loop :: "(nat \<Rightarrow> bool) \<Rightarrow> nat \<Rightarrow> nat \<Rightarrow> nat" where
  "search_loop f i j =
     (if i < j then
        (let h = i + (j - i) div 2
         in if \<not> f h then search_loop f (h + 1) j else search_loop f i h)
      else i)"
  by pat_completeness auto
termination
  by (relation "measure (\<lambda>(f, i, j). j - i)") auto

declare search_loop.simps [simp del]

definition sort_Search :: "nat \<Rightarrow> (nat \<Rightarrow> bool) \<Rightarrow> nat" where
  "sort_Search n f = search_loop f 0 n"

lemma search_loop_unfold:
  "i < j \<Longrightarrow> f (i + (j - i) div 2) \<Longrightarrow> search_loop f i j = search_loop f i (i + (j - i) div 2)"
  "i < j \<Longrightarrow> \<not> f (i + (j - i) div 2) \<Longrightarrow> search_loop f i j = search_loop f (i + (j - i) div 2 + 1) j"
  "\<not> i < j \<Longrightarrow> search_loop f i j = i"
  by (simp_all add: search_loop.simps [of f i j] Let_def)

lemma search_loop_bounds: "i \<le> j \<Longrightarrow> i \<le> search_loop f i j \<and> search_loop f i j \<le> j"
proof (induction f i j rule: search_loop.induct)
  case (1 f i j)
  let ?h = "i + (j - i) div 2"
  consider "\<not> i < j" | "i < j" "f ?h" | "i < j" "\<not> f ?h" by blast
  then show ?case
  proof cases
    case 1
    with "1.prems" show ?thesis by (simp add: search_loop_unfold(3))
  next
    case 2
    have "i \<le> search_loop f i ?h \<and> search_loop f i ?h \<le> ?h"
      using "1.IH"(2) [OF 2(1) refl] 2(2) by simp
    moreover have "?h \<le> j" using 2(1) by linarith
    ultimately show ?thesis unfolding search_loop_unfold(1) [of i j f, OF 2] by linarith
  next
    case 3
    have "?h + 1 \<le> j" using 3(1) by linarith
    then have "?h + 1 \<le> search_loop f (?h + 1) j \<and> search_loop f (?h + 1) j \<le> j"
      by (rule "1.IH"(1) [OF 3(1) refl 3(2)])
    then show ?thesis unfolding search_loop_unfold(2) [of i j f, OF 3] by linarith
  qed
qed

lemma search_loop_miss:
  "search_loop f i j = i \<or> \<not> f (search_loop f i j - 1)"
proof (induction f i j rule: search_loop.induct)
  case (1 f i j)
  let ?h = "i + (j - i) div 2"
  consider "\<not> i < j" | "i < j" "f ?h" | "i < j" "\<not> f ?h" by blast
  then show ?case
  proof cases
    case 1
    then show ?thesis by (simp add: search_loop_unfold(3))
  next
    case 2
    show ?thesis unfolding search_loop_unfold(1) [of i j f, OF 2] using "1.IH"(2) [OF 2(1) refl] 2(2) by simp
  next
    case 3
    show ?thesis unfolding search_loop_unfold(2) [of i j f, OF 3]
      using "1.IH"(1) [OF 3(1) refl 3(2)] 3(2) by (metis add_diff_cancel_right')
  qed
qed

lemma search_loop_hit:
  "search_loop f i j < j \<Longrightarrow> f (search_loop f i j)"
proof (induction f i j rule: search_loop.induct)
  case (1 f i j)
  let ?h = "i + (j - i) div 2"
  consider "\<not> i < j" | "i < j" "f ?h" | "i < j" "\<not> f ?h" by blast
  then show ?case
  proof cases
    case 1
    with "1.prems" show ?thesis by (simp add: search_loop_unfold(3))
  next
    case 2
    have "search_loop f i ?h \<le> ?h" using search_loop_bounds [of i ?h f] by simp
    then consider "search_loop f i ?h < ?h" | "search_loop f i ?h = ?h" by linarith
    then have "f (search_loop f i ?h)"
      by cases (use "1.IH"(2) [OF 2(1) refl] 2(2) in simp_all)
    then show ?thesis by (simp only: search_loop_unfold(1) [of i j f, OF 2])
  next
    case 3
    then have "f (search_loop f (?h + 1) j)"
      using "1.IH"(1) [OF 3(1) refl 3(2)] "1.prems" by (simp only: search_loop_unfold(2) [of i j f, OF 3])
    then show ?thesis by (simp only: search_loop_unfold(2) [of i j f, OF 3])
  qed
qed

lemma sort_Search_le: "sort_Search n f \<le> n"
  using search_loop_bounds [of 0 n f] by (simp add: sort_Search_def)

lemma sort_Search_below:
  assumes "\<And>k l. k \<le> l \<Longrightarrow> l < n \<Longrightarrow> f k \<Longrightarrow> f l" and "k < sort_Search n f"
  shows "\<not> f k"
proof -
  have "\<not> f (sort_Search n f - 1)"
    using search_loop_miss [of f 0 n] assms(2) by (auto simp: sort_Search_def)
  moreover have "k \<le> sort_Search n f - 1" "sort_Search n f - 1 < n"
    using assms(2) sort_Search_le [of n f] by linarith+
  ultimately show ?thesis using assms(1) by blast
qed

lemma sort_Search_above:
  assumes "\<And>k l. k \<le> l \<Longrightarrow> l < n \<Longrightarrow> f k \<Longrightarrow> f l"
  shows "sort_Search n f \<le> k \<Longrightarrow> k < n \<Longrightarrow> f k"
  using search_loop_hit [of f 0 n] assms [of "sort_Search n f" k] by (simp add: sort_Search_def)

subsection \<open>Splitting strings\<close>

text \<open>\<^verbatim>\<open>strings.Split(s, sep)\<close> for a separator of one byte.\<close>

fun strings_Split :: "char \<Rightarrow> string \<Rightarrow> string list" where
  "strings_Split c [] = [[]]"
| "strings_Split c (x # xs) =
     (if x = c then [] # strings_Split c xs
      else (case strings_Split c xs of [] \<Rightarrow> [[x]] | w # ws \<Rightarrow> (x # w) # ws))"

lemma strings_Split_plain: "c \<notin> set s \<Longrightarrow> strings_Split c s = [s]"
  by (induction s) auto

lemma strings_Split_once: "c \<notin> set s \<Longrightarrow> strings_Split c (s @ c # t) = s # strings_Split c t"
  by (induction s) auto

end
