(* ===== verification/WorkQueue.thy ===== *)
theory WorkQueue
  imports Go_Prelude
begin

section \<open>The work queue (\<^verbatim>\<open>pkg/util/workqueue/queue.go\<close>, \<^verbatim>\<open>metrics.go\<close>)\<close>

text \<open>
  The queue every controller drains. Each exported method runs under one mutex, so a method is
  one atomic step; \<open>queue_Get\<close> is \<open>None\<close> while the caller would wait on the condition
  variable. The time each method reads for its metrics is its argument \<open>now\<close>.
\<close>

subsection \<open>Metrics\<close>

text \<open>
  The metrics of a named queue; the provider records what it is told (\<open>depth\<close> a gauge,
  \<open>adds\<close> a counter, the two summaries their observations). The metrics of an unnamed queue are
  the nil pointer, whose methods return at once.
\<close>

record 'a defaultQueueMetrics =
  depth :: int
  adds :: int
  latency :: "int list"
  workDuration :: "int list"
  addTimes :: "'a \<rightharpoonup> time"
  processingStartTimes :: "'a \<rightharpoonup> time"

type_synonym 'a queueMetrics = "'a defaultQueueMetrics option"

definition sinceInMicroseconds :: "time \<Rightarrow> time \<Rightarrow> int" where
  "sinceInMicroseconds now start = (now - start) sdiv 1000"

definition metrics_add :: "time \<Rightarrow> 'a \<Rightarrow> 'a queueMetrics \<Rightarrow> 'a queueMetrics" where
  "metrics_add now item mo =
     (case mo of
        None \<Rightarrow> None
      | Some m \<Rightarrow>
          let m = m\<lparr>adds := adds m + 1, depth := depth m + 1\<rparr>
          in Some (if addTimes m item = None
                   then m\<lparr>addTimes := (addTimes m)(item \<mapsto> now)\<rparr> else m))"

definition metrics_get :: "time \<Rightarrow> 'a \<Rightarrow> 'a queueMetrics \<Rightarrow> 'a queueMetrics" where
  "metrics_get now item mo =
     (case mo of
        None \<Rightarrow> None
      | Some m \<Rightarrow>
          let m = m\<lparr>depth := depth m - 1,
                    processingStartTimes := (processingStartTimes m)(item \<mapsto> now)\<rparr>
          in Some (case addTimes m item of
                     None \<Rightarrow> m
                   | Some startTime \<Rightarrow>
                       m\<lparr>latency := latency m @ [sinceInMicroseconds now startTime],
                         addTimes := (addTimes m)(item := None)\<rparr>))"

definition metrics_done :: "time \<Rightarrow> 'a \<Rightarrow> 'a queueMetrics \<Rightarrow> 'a queueMetrics" where
  "metrics_done now item mo =
     (case mo of
        None \<Rightarrow> None
      | Some m \<Rightarrow>
          Some (case processingStartTimes m item of
                  None \<Rightarrow> m
                | Some startTime \<Rightarrow>
                    m\<lparr>workDuration := workDuration m @ [sinceInMicroseconds now startTime],
                      processingStartTimes := (processingStartTimes m)(item := None)\<rparr>))"

definition newQueueMetrics :: "string \<Rightarrow> 'a queueMetrics" where
  "newQueueMetrics name =
     (if length name = 0 then None
      else Some \<lparr>depth = 0, adds = 0, latency = [], workDuration = [],
                 addTimes = Map.empty, processingStartTimes = Map.empty\<rparr>)"

subsection \<open>The queue and its methods\<close>

record 'a work_queue =
  wq_queue :: "'a list"
  wq_dirty :: "'a set"
  wq_processing :: "'a set"
  wq_shuttingDown :: bool
  wq_metrics :: "'a queueMetrics"

definition queue_NewNamed :: "string \<Rightarrow> 'a work_queue" where
  "queue_NewNamed name =
     \<lparr>wq_queue = [], wq_dirty = {}, wq_processing = {}, wq_shuttingDown = False,
      wq_metrics = newQueueMetrics name\<rparr>"

definition queue_New :: "'a work_queue" where
  "queue_New = queue_NewNamed ''''"

definition queue_Add :: "time \<Rightarrow> 'a \<Rightarrow> 'a work_queue \<Rightarrow> 'a work_queue" where
  "queue_Add now item q =
     (if wq_shuttingDown q then q
      else if item \<in> wq_dirty q then q
      else
        let q = q\<lparr>wq_metrics := metrics_add now item (wq_metrics q),
                  wq_dirty := insert item (wq_dirty q)\<rparr>
        in if item \<in> wq_processing q then q
           else q\<lparr>wq_queue := wq_queue q @ [item]\<rparr>)"

definition queue_Len :: "'a work_queue \<Rightarrow> nat" where
  "queue_Len q = length (wq_queue q)"

definition queue_Get ::
  "time \<Rightarrow> 'a work_queue \<Rightarrow> (('a option \<times> bool) \<times> 'a work_queue) option" where
  "queue_Get now q =
     (if wq_queue q = [] \<and> \<not> wq_shuttingDown q then None
      else
        case wq_queue q of
          [] \<Rightarrow> Some ((None, True), q)
        | item # rest \<Rightarrow>
            Some ((Some item, False),
              q\<lparr>wq_queue := rest,
                wq_metrics := metrics_get now item (wq_metrics q),
                wq_processing := insert item (wq_processing q),
                wq_dirty := wq_dirty q - {item}\<rparr>))"

definition queue_Done :: "time \<Rightarrow> 'a \<Rightarrow> 'a work_queue \<Rightarrow> 'a work_queue" where
  "queue_Done now item q =
     (let q = q\<lparr>wq_metrics := metrics_done now item (wq_metrics q),
                wq_processing := wq_processing q - {item}\<rparr>
      in if item \<in> wq_dirty q then q\<lparr>wq_queue := wq_queue q @ [item]\<rparr> else q)"

definition queue_ShutDown :: "'a work_queue \<Rightarrow> 'a work_queue" where
  "queue_ShutDown q = q\<lparr>wq_shuttingDown := True\<rparr>"

definition queue_ShuttingDown :: "'a work_queue \<Rightarrow> bool" where
  "queue_ShuttingDown q = wq_shuttingDown q"

lemmas queue_defs =
  queue_Add_def queue_Get_def queue_Done_def queue_ShutDown_def queue_ShuttingDown_def Let_def

subsection \<open>The invariant of the comment on \<^verbatim>\<open>queue\<close>\<close>

text \<open>
  Every element of \<open>wq_queue\<close> is dirty and not being processed, and every such item is queued
  exactly once.
\<close>

definition wq_inv :: "'a work_queue \<Rightarrow> bool" where
  "wq_inv q \<longleftrightarrow>
     distinct (wq_queue q) \<and> set (wq_queue q) = wq_dirty q - wq_processing q
     \<and> finite (wq_dirty q) \<and> finite (wq_processing q)"

lemma wq_inv_New: "wq_inv (queue_NewNamed name)"
  by (simp add: wq_inv_def queue_NewNamed_def)

lemma wq_inv_Add [inv_intros]: "wq_inv q \<Longrightarrow> wq_inv (queue_Add now x q)"
  by (auto simp: wq_inv_def queue_defs)

lemma wq_inv_Get [inv_intros]: "wq_inv q \<Longrightarrow> queue_Get now q = Some (r, q') \<Longrightarrow> wq_inv q'"
  by (auto simp: wq_inv_def queue_defs split: if_splits list.splits)

lemma wq_inv_Done [inv_intros]:
  "wq_inv q \<Longrightarrow> x \<in> wq_processing q \<Longrightarrow> wq_inv (queue_Done now x q)"
  by (auto simp: wq_inv_def queue_defs)

lemma wq_inv_ShutDown [inv_intros]: "wq_inv q \<Longrightarrow> wq_inv (queue_ShutDown q)"
  by (simp add: wq_inv_def queue_defs)

subsection \<open>What the metrics count\<close>

text \<open>
  The gauge \<open>depth\<close> counts the dirty items, so it also counts an item that is being processed
  and was added again, which \<open>queue_Len\<close> does not.
\<close>

definition wq_metrics_inv :: "'a work_queue \<Rightarrow> bool" where
  "wq_metrics_inv q \<longleftrightarrow>
     (case wq_metrics q of
        None \<Rightarrow> True
      | Some m \<Rightarrow> depth m = int (card (wq_dirty q)) \<and> dom (addTimes m) = wq_dirty q
          \<and> dom (processingStartTimes m) = wq_processing q)"

lemma wq_metrics_inv_New: "wq_metrics_inv (queue_NewNamed name)"
  by (simp add: wq_metrics_inv_def queue_NewNamed_def newQueueMetrics_def)

lemma wq_metrics_inv_Add [inv_intros]:
  "wq_inv q \<Longrightarrow> wq_metrics_inv q \<Longrightarrow> wq_metrics_inv (queue_Add now x q)"
  by (auto simp: wq_inv_def wq_metrics_inv_def queue_defs metrics_add_def split: option.splits)

lemma metrics_get_Some:
  "\<exists>m'. metrics_get now x (Some m) = Some m' \<and> depth m' = depth m - 1
     \<and> dom (addTimes m') = dom (addTimes m) - {x}
     \<and> dom (processingStartTimes m') = insert x (dom (processingStartTimes m))"
  by (auto simp: metrics_get_def Let_def domIff split: option.splits)

lemma wq_metrics_inv_Get [inv_intros]:
  assumes "wq_inv q" "wq_metrics_inv q" "queue_Get now q = Some (r, q')"
  shows "wq_metrics_inv q'"
proof (cases "wq_queue q")
  case Nil
  with assms show ?thesis by (auto simp: queue_Get_def split: if_splits)
next
  case (Cons x rest)
  with assms(1) have "x \<in> wq_dirty q" "finite (wq_dirty q)" by (auto simp: wq_inv_def)
  then have "int (card (wq_dirty q - {x})) = int (card (wq_dirty q)) - 1"
    using card_gt_0_iff [of "wq_dirty q"] by (auto simp: int_ops(6) card_Diff_singleton Suc_leI)
  moreover have "q' = q\<lparr>wq_queue := rest, wq_metrics := metrics_get now x (wq_metrics q),
      wq_processing := insert x (wq_processing q), wq_dirty := wq_dirty q - {x}\<rparr>"
    using Cons assms(3) by (simp add: queue_Get_def)
  ultimately show ?thesis
    using assms(2) metrics_get_Some [of now x "the (wq_metrics q)"]
    by (cases "wq_metrics q") (auto simp: wq_metrics_inv_def metrics_get_def [of _ _ None])
qed

lemma wq_metrics_inv_Done [inv_intros]: "wq_metrics_inv q \<Longrightarrow> wq_metrics_inv (queue_Done now x q)"
  by (auto simp: wq_metrics_inv_def queue_defs metrics_done_def split: option.splits)

lemma wq_metrics_inv_ShutDown [inv_intros]: "wq_metrics_inv q \<Longrightarrow> wq_metrics_inv (queue_ShutDown q)"
  by (simp add: wq_metrics_inv_def queue_defs split: option.splits)

subsection \<open>Steps, runs and reachable states\<close>

text \<open>
  Producers and workers interleave freely; a worker calls \<^verbatim>\<open>Done\<close> for an item it got and
  has not finished, as the comment on \<^verbatim>\<open>Get\<close> asks. An event names the call and the item.
\<close>

datatype 'a wq_event = EAdd 'a | EGet 'a | EShutdownSeen | EDone 'a | EShutDown

inductive wq_step :: "'a work_queue \<Rightarrow> 'a wq_event \<Rightarrow> 'a work_queue \<Rightarrow> bool" where
  step_add: "wq_step q (EAdd x) (queue_Add now x q)"
| step_get: "queue_Get now q = Some ((Some x, False), q') \<Longrightarrow> wq_step q (EGet x) q'"
| step_seen: "queue_Get now q = Some ((None, True), q') \<Longrightarrow> wq_step q EShutdownSeen q'"
| step_done: "x \<in> wq_processing q \<Longrightarrow> wq_step q (EDone x) (queue_Done now x q)"
| step_shut: "wq_step q EShutDown (queue_ShutDown q)"

inductive_cases wq_step_addE: "wq_step q (EAdd x) q'"
inductive_cases wq_step_getE: "wq_step q (EGet x) q'"
inductive_cases wq_step_seenE: "wq_step q EShutdownSeen q'"
inductive_cases wq_step_doneE: "wq_step q (EDone x) q'"
inductive_cases wq_step_shutE: "wq_step q EShutDown q'"

lemmas wq_step_elims = wq_step_addE wq_step_getE wq_step_seenE wq_step_doneE wq_step_shutE

inductive wq_run :: "'a work_queue \<Rightarrow> 'a wq_event list \<Rightarrow> 'a work_queue \<Rightarrow> bool" where
  run_nil: "wq_run q [] q"
| run_cons: "wq_step q e q' \<Longrightarrow> wq_run q' es q'' \<Longrightarrow> wq_run q (e # es) q''"

inductive_simps wq_run_Nil [simp]: "wq_run q [] q'"
inductive_simps wq_run_Cons: "wq_run q (e # es) q'"

lemma queue_Get_item:
  assumes "queue_Get now q = Some ((Some x, False), q')"
  shows "\<exists>rest. wq_queue q = x # rest \<and> wq_queue q' = rest \<and> wq_dirty q' = wq_dirty q - {x}
    \<and> wq_processing q' = insert x (wq_processing q) \<and> wq_shuttingDown q' = wq_shuttingDown q"
  using assms by (auto simp: queue_Get_def split: if_splits list.splits)

lemma queue_Get_shutdown:
  assumes "queue_Get now q = Some ((None, True), q')"
  shows "q' = q \<and> wq_queue q = [] \<and> wq_shuttingDown q"
  using assms by (auto simp: queue_Get_def split: if_splits list.splits)

lemma wq_step_inv [inv_intros]: "wq_step q e q' \<Longrightarrow> wq_inv q \<Longrightarrow> wq_inv q'"
  by (induction rule: wq_step.induct) (auto intro: inv_intros)

lemma wq_step_metrics_inv [inv_intros]:
  "wq_step q e q' \<Longrightarrow> wq_inv q \<Longrightarrow> wq_metrics_inv q \<Longrightarrow> wq_metrics_inv q'"
  by (induction rule: wq_step.induct) (auto intro: inv_intros)

lemma wq_run_inv [inv_intros]: "wq_run q es q' \<Longrightarrow> wq_inv q \<Longrightarrow> wq_inv q'"
  by (induction rule: wq_run.induct) (auto intro: inv_intros)

lemma wq_run_metrics_inv [inv_intros]:
  "wq_run q es q' \<Longrightarrow> wq_inv q \<Longrightarrow> wq_metrics_inv q \<Longrightarrow> wq_metrics_inv q'"
  by (induction rule: wq_run.induct) (auto intro: inv_intros)

subsection \<open>Order, coalescing and progress\<close>

fun gets :: "'a wq_event list \<Rightarrow> 'a list" where
  "gets [] = []"
| "gets (EGet x # es) = x # gets es"
| "gets (e # es) = gets es"

text \<open>A step takes at most the head off the queue and appends at most one item to it.\<close>

lemma wq_step_queue:
  assumes "wq_step q e q'"
  shows "\<exists>new. wq_queue q' = drop (length (gets [e])) (wq_queue q) @ new
    \<and> (\<forall>x. e = EGet x \<longrightarrow> (\<exists>rest. wq_queue q = x # rest))"
  using assms
proof (cases rule: wq_step.cases)
  case (step_get now x)
  then show ?thesis using queue_Get_item [of now q x q'] by auto
next
  case (step_seen now)
  then show ?thesis using queue_Get_shutdown [of now q q'] by auto
qed (auto simp: queue_defs)

text \<open>The items a run gets are a prefix of what was queued at its start, followed by later ones.\<close>

lemma wq_run_fifo:
  "wq_run q es q' \<Longrightarrow> k < length (gets es) \<Longrightarrow> k < length (wq_queue q) \<Longrightarrow> gets es ! k = wq_queue q ! k"
proof (induction arbitrary: k rule: wq_run.induct)
  case (run_nil q)
  then show ?case by simp
next
  case (run_cons q e q' es q'')
  from wq_step_queue [OF run_cons.hyps(1)] obtain new where
    q': "wq_queue q' = drop (length (gets [e])) (wq_queue q) @ new"
    and hd: "\<And>x. e = EGet x \<Longrightarrow> \<exists>rest. wq_queue q = x # rest" by blast
  show ?case
  proof (cases e)
    case (EGet x)
    with hd obtain rest where "wq_queue q = x # rest" by blast
    with EGet q' run_cons show ?thesis
      by (cases k) (auto simp: nth_append)
  qed (use q' run_cons in \<open>auto simp: nth_append\<close>)
qed

text \<open>An item that needs processing stays dirty until a worker gets it.\<close>

lemma wq_step_dirty:
  "wq_step q e q' \<Longrightarrow> x \<in> wq_dirty q \<Longrightarrow> e \<noteq> EGet x \<Longrightarrow> x \<in> wq_dirty q'"
  by (induction rule: wq_step.induct)
    (auto simp: queue_Add_def queue_Done_def queue_ShutDown_def Let_def
      dest!: queue_Get_item queue_Get_shutdown)

lemma wq_run_dirty:
  "wq_run q es q' \<Longrightarrow> x \<in> wq_dirty q \<Longrightarrow> x \<notin> set (gets es) \<Longrightarrow> x \<in> wq_dirty q'"
proof (induction rule: wq_run.induct)
  case (run_cons q e q' es q'')
  then show ?case using wq_step_dirty [of q e q' x] by (cases e) auto
qed simp

text \<open>Each time an item is got, an earlier \<^verbatim>\<open>Add\<close> of it is used up.\<close>

definition pending :: "'a \<Rightarrow> 'a work_queue \<Rightarrow> nat" where
  "pending x q = (if x \<in> wq_dirty q then 1 else 0)"

lemma wq_step_gets_bound:
  "wq_step q e q' \<Longrightarrow> wq_inv q \<Longrightarrow>
   count_list (gets [e]) x + pending x q' \<le> (if e = EAdd x then 1 else 0) + pending x q"
proof (induction rule: wq_step.induct)
  case (step_get now q y q')
  then have "y \<in> wq_dirty q" by (auto simp: wq_inv_def dest!: queue_Get_item)
  with step_get show ?case by (auto simp: pending_def dest!: queue_Get_item)
qed (auto simp: pending_def queue_Add_def queue_Done_def queue_ShutDown_def Let_def
      dest!: queue_Get_shutdown)

lemma gets_Cons: "gets (e # es) = gets [e] @ gets es"
  by (cases e) auto

lemma wq_run_gets_bound:
  "wq_run q es q' \<Longrightarrow> wq_inv q \<Longrightarrow>
   count_list (gets es) x + pending x q' \<le> count_list es (EAdd x) + pending x q"
proof (induction rule: wq_run.induct)
  case (run_cons q e q' es q'')
  then have "count_list (gets es) x + pending x q'' \<le> count_list es (EAdd x) + pending x q'"
    using wq_step_inv by blast
  with wq_step_gets_bound [OF run_cons.hyps(1) run_cons.prems, of x] show ?case
    by (subst gets_Cons) (auto split: if_splits)
qed simp

text \<open>The queued items can be got one after the other, without any other step.\<close>

lemma wq_drain: "\<exists>q'. wq_run q (map EGet (take k (wq_queue q))) q'"
proof (induction k arbitrary: q)
  case 0
  then show ?case by auto
next
  case (Suc k)
  show ?case
  proof (cases "wq_queue q")
    case Nil
    then show ?thesis by auto
  next
    case (Cons x rest)
    define q1 where "q1 = snd (the (queue_Get 0 q))"
    have "queue_Get 0 q = Some ((Some x, False), q1)" and rest: "wq_queue q1 = rest"
      using Cons by (simp_all add: queue_Get_def q1_def)
    then have "wq_step q (EGet x) q1" by (auto intro: step_get)
    moreover from Suc [of q1] obtain q2 where "wq_run q1 (map EGet (take k rest)) q2"
      using rest by blast
    ultimately show ?thesis using Cons by (auto intro: run_cons)
  qed
qed

lemma queue_Get_blocks:
  "wq_inv q \<Longrightarrow> queue_Get now q = None \<longleftrightarrow> wq_dirty q \<subseteq> wq_processing q \<and> \<not> wq_shuttingDown q"
  by (auto simp: queue_Get_def wq_inv_def split: list.splits)

subsection \<open>The contract: a set of pending items and a set of items in work\<close>

text \<open>
  What the package comment promises, without the order: \<open>(P, R, c)\<close> are the items to be
  processed, the items some worker is processing, and whether the queue is closed.
\<close>

type_synonym 'a wq_spec = "'a set \<times> 'a set \<times> bool"

inductive spec_step :: "'a wq_spec \<Rightarrow> 'a wq_event \<Rightarrow> 'a wq_spec \<Rightarrow> bool" where
  spec_add: "spec_step (P, R, c) (EAdd x) (if c then P else insert x P, R, c)"
| spec_get: "x \<in> P \<Longrightarrow> x \<notin> R \<Longrightarrow> spec_step (P, R, c) (EGet x) (P - {x}, insert x R, c)"
| spec_seen: "P \<subseteq> R \<Longrightarrow> spec_step (P, R, True) EShutdownSeen (P, R, True)"
| spec_done: "x \<in> R \<Longrightarrow> spec_step (P, R, c) (EDone x) (P, R - {x}, c)"
| spec_shut: "spec_step (P, R, c) EShutDown (P, R, True)"

definition wq_abs :: "'a work_queue \<Rightarrow> 'a wq_spec" where
  "wq_abs q = (wq_dirty q, wq_processing q, wq_shuttingDown q)"

lemma wq_abs_Add:
  "wq_abs (queue_Add now x q)
   = (if wq_shuttingDown q then wq_dirty q else insert x (wq_dirty q), wq_processing q, wq_shuttingDown q)"
  by (auto simp: wq_abs_def queue_defs)

lemma wq_abs_Done: "wq_abs (queue_Done now x q) = (wq_dirty q, wq_processing q - {x}, wq_shuttingDown q)"
  by (auto simp: wq_abs_def queue_defs)

lemma wq_abs_ShutDown: "wq_abs (queue_ShutDown q) = (wq_dirty q, wq_processing q, True)"
  by (simp add: wq_abs_def queue_defs)

lemma wq_step_simulates: "wq_step q e q' \<Longrightarrow> wq_inv q \<Longrightarrow> spec_step (wq_abs q) e (wq_abs q')"
proof (induction rule: wq_step.induct)
  case (step_add q x now)
  then show ?case unfolding wq_abs_Add unfolding wq_abs_def by (rule_tac spec_add)
next
  case (step_get now q x q')
  then have "x \<in> wq_dirty q" "x \<notin> wq_processing q"
    by (auto simp: wq_inv_def dest!: queue_Get_item)
  with step_get show ?case by (auto simp: wq_abs_def intro!: spec_get dest!: queue_Get_item)
next
  case (step_seen now q q')
  then show ?case by (auto simp: wq_abs_def wq_inv_def intro!: spec_seen dest!: queue_Get_shutdown)
next
  case (step_done x q now)
  then show ?case unfolding wq_abs_Done unfolding wq_abs_def by (blast intro: spec_done)
next
  case (step_shut q)
  then show ?case unfolding wq_abs_ShutDown unfolding wq_abs_def by (blast intro: spec_shut)
qed

subsection \<open>The interface other queues build on\<close>

text \<open>
  \<^verbatim>\<open>workqueue.Interface\<close> as its clients use it: adding an item makes it one that needs
  processing unless the queue is shutting down, and closes or forgets nothing.
\<close>

locale work_queue_interface =
  fixes add :: "time \<Rightarrow> 'a \<Rightarrow> 'q \<Rightarrow> 'q"
    and shutDown :: "'q \<Rightarrow> 'q"
    and shuttingDown :: "'q \<Rightarrow> bool"
    and needs :: "'q \<Rightarrow> 'a set"
    and invar :: "'q \<Rightarrow> bool"
  assumes invar_add: "invar q \<Longrightarrow> invar (add now x q)"
    and invar_shutDown: "invar q \<Longrightarrow> invar (shutDown q)"
    and needs_add: "needs (add now x q) = (if shuttingDown q then needs q else insert x (needs q))"
    and needs_shutDown: "needs (shutDown q) = needs q"
    and shuttingDown_add: "shuttingDown (add now x q) = shuttingDown q"
    and shuttingDown_shutDown: "shuttingDown (shutDown q)"
begin

lemma invar_adds: "invar q \<Longrightarrow> invar (fold (add now) xs q)"
  by (induction xs arbitrary: q) (auto intro: invar_add)

lemma shuttingDown_adds: "shuttingDown (fold (add now) xs q) = shuttingDown q"
  by (induction xs arbitrary: q) (auto simp: shuttingDown_add)

lemma needs_adds:
  "needs (fold (add now) xs q) = (if shuttingDown q then needs q else needs q \<union> set xs)"
  by (induction xs arbitrary: q) (auto simp: needs_add shuttingDown_add)

lemma adds_after_shutDown: "needs (fold (add now) xs (shutDown q)) = needs q"
  by (simp add: needs_adds shuttingDown_shutDown needs_shutDown)

end

interpretation wq: work_queue_interface queue_Add queue_ShutDown queue_ShuttingDown wq_dirty wq_inv
  by unfold_locales (auto simp: queue_defs wq_inv_def)

subsection \<open>Properties\<close>

text \<open>
  C1. In every state a named or unnamed queue can reach, whatever producers and workers do, each
  queued item is queued once, the queued items are exactly the dirty ones that no worker is
  processing, and the metrics agree: the depth gauge is the number of dirty items, the add times
  are kept for the dirty items and the start times for the items in work.
\<close>

theorem queue_reachable_inv:
  assumes "wq_run (queue_NewNamed name) es q"
  shows "distinct (wq_queue q) \<and> set (wq_queue q) = wq_dirty q - wq_processing q \<and> wq_metrics_inv q"
  using assms wq_run_inv wq_inv_New wq_run_metrics_inv wq_metrics_inv_New
  by (metis wq_inv_def)

theorem queue_reachable_inv_witness:
  "distinct (wq_queue (queue_Add 5 (1::nat) (queue_NewNamed ''q'')))
   \<and> wq_metrics_inv (queue_Add 5 (1::nat) (queue_NewNamed ''q''))"
proof -
  have "wq_run (queue_NewNamed ''q'') [EAdd (1::nat)] (queue_Add 5 1 (queue_NewNamed ''q''))"
    by (rule run_cons [OF step_add run_nil])
  from queue_reachable_inv [OF this] show ?thesis by simp
qed

text \<open>
  C19. Stingy: in every reachable state, an item a worker is handed is being processed by no other
  worker, and over the whole run it was handed out at most as often as it was added.
\<close>

theorem queue_stingy:
  assumes "wq_run (queue_NewNamed name) es q"
    and "queue_Get now q = Some ((Some x, False), q')"
  shows "x \<notin> wq_processing q \<and> count_list (gets (es @ [EGet x])) x \<le> count_list es (EAdd x)"
proof -
  have inv: "wq_inv q" using assms(1) wq_inv_New wq_run_inv by blast
  then have x: "x \<in> wq_dirty q" "x \<notin> wq_processing q"
    using queue_Get_item [OF assms(2)] by (auto simp: wq_inv_def)
  have "count_list (gets es) x + pending x q \<le> count_list es (EAdd x)"
    using wq_run_gets_bound [OF assms(1) wq_inv_New, of x]
    by (simp add: pending_def queue_NewNamed_def)
  moreover have "gets (es @ [EGet x]) = gets es @ [x]"
    by (induction es rule: gets.induct) auto
  ultimately show ?thesis using x by (simp add: pending_def)
qed

theorem queue_stingy_witness:
  "(1::nat) \<notin> wq_processing (queue_Add 5 1 (queue_NewNamed ''''))"
proof -
  let ?q = "queue_Add 5 (1::nat) (queue_NewNamed '''')"
  have run: "wq_run (queue_NewNamed '''') [EAdd (1::nat)] ?q"
    by (rule run_cons [OF step_add run_nil])
  have "\<exists>q'. queue_Get 6 ?q = Some ((Some 1, False), q')"
    by (simp add: queue_Get_def queue_Add_def queue_NewNamed_def Let_def)
  then show ?thesis using queue_stingy [OF run] by blast
qed

text \<open>
  C20. Fair: whatever else happens meanwhile (adds, completions, a shutdown), the items the workers
  get are the queued ones in queue order: the \<open>k\<close>-th \<^verbatim>\<open>Get\<close> of a run returns the
  item that was at position \<open>k\<close> when the run began, for every \<open>k\<close> below the queue's length.
\<close>

theorem queue_fair:
  assumes "wq_run q es q'" and "k < length (gets es)" and "k < queue_Len q"
  shows "gets es ! k = wq_queue q ! k"
  using wq_run_fifo [OF assms(1,2)] assms(3) by (simp add: queue_Len_def)

theorem queue_fair_witness:
  "\<exists>es q'. wq_run (queue_Add 5 (20::nat) (queue_Add 4 10 queue_New)) es q'
     \<and> gets es ! 1 = wq_queue (queue_Add 5 (20::nat) (queue_Add 4 10 queue_New)) ! 1"
proof -
  let ?q = "queue_Add 5 (20::nat) (queue_Add 4 10 queue_New)"
  have q: "wq_queue ?q = [10, 20]" by (simp add: queue_defs queue_New_def queue_NewNamed_def)
  obtain q' where "wq_run ?q (map EGet (take 2 (wq_queue ?q))) q'" using wq_drain by blast
  with q have run: "wq_run ?q [EGet 10, EGet 20] q'" by simp
  have "gets [EGet 10, EGet (20::nat)] ! 1 = wq_queue ?q ! 1"
    by (rule queue_fair [OF run]) (simp_all add: queue_Len_def q)
  with run show ?thesis by blast
qed

text \<open>
  C6. Nothing added is lost: after an \<^verbatim>\<open>Add\<close> to a queue that is not shutting down, along any
  run in which no worker gets the item, the item stays dirty; and once no worker is processing
  it, it is queued, at some position \<open>k\<close>, and \<open>k + 1\<close> calls of \<^verbatim>\<open>Get\<close> return it.
\<close>

theorem queue_no_lost_item:
  assumes "wq_inv q" and "\<not> queue_ShuttingDown q"
    and "wq_run (queue_Add now x q) es q'" and "x \<notin> set (gets es)"
  shows "x \<in> wq_dirty q' \<and>
    (x \<notin> wq_processing q' \<longrightarrow>
       (\<exists>k q''. k < queue_Len q' \<and> wq_queue q' ! k = x
          \<and> wq_run q' (map EGet (take (k + 1) (wq_queue q'))) q''))"
proof -
  have "x \<in> wq_dirty (queue_Add now x q)" using assms(2) by (simp add: wq.needs_add)
  then have x: "x \<in> wq_dirty q'" by (rule wq_run_dirty [OF assms(3) _ assms(4)])
  have "wq_inv q'" by (rule wq_run_inv [OF assms(3) wq_inv_Add [OF assms(1)]])
  then have "x \<in> set (wq_queue q')" if "x \<notin> wq_processing q'"
    using x that by (auto simp: wq_inv_def)
  then have "\<exists>k. k < queue_Len q' \<and> wq_queue q' ! k = x" if "x \<notin> wq_processing q'"
    using that by (simp add: queue_Len_def in_set_conv_nth)
  moreover have "\<exists>q''. wq_run q' (map EGet (take (k + 1) (wq_queue q'))) q''" for k
    by (rule wq_drain)
  ultimately show ?thesis using x by metis
qed

theorem queue_no_lost_item_witness:
  "(7::nat) \<in> wq_dirty (queue_Add 1 7 queue_New)"
proof -
  have "wq_inv (queue_New :: nat work_queue)" "\<not> queue_ShuttingDown (queue_New :: nat work_queue)"
    by (simp_all add: wq_inv_def queue_New_def queue_ShuttingDown_def queue_NewNamed_def)
  from queue_no_lost_item [OF this run_nil, of 7 1] show ?thesis by simp
qed

text \<open>
  C21. The queue implements its contract: every step of the queue is a step of the set machine
  \<open>spec_step\<close> (an item is pending once however often it is added, it is handed out only while
  no worker has it, shutdown is reported only when nothing is left to hand out), and \<^verbatim>\<open>Get\<close>
  waits exactly when the contract has nothing to hand out and the queue is open.
\<close>

theorem queue_refines_spec:
  assumes "wq_inv q"
  shows "(wq_step q e q' \<longrightarrow> spec_step (wq_abs q) e (wq_abs q'))
    \<and> (queue_Get now q = None \<longleftrightarrow> wq_dirty q \<subseteq> wq_processing q \<and> \<not> wq_shuttingDown q)"
proof
  show "wq_step q e q' \<longrightarrow> spec_step (wq_abs q) e (wq_abs q')"
    using wq_step_simulates assms by blast
  show "queue_Get now q = None \<longleftrightarrow> wq_dirty q \<subseteq> wq_processing q \<and> \<not> wq_shuttingDown q"
    using assms by (rule queue_Get_blocks)
qed

theorem queue_refines_spec_witness:
  "spec_step (wq_abs queue_New) (EAdd (3::nat)) (wq_abs (queue_Add 1 3 queue_New))"
proof -
  have inv: "wq_inv (queue_New :: nat work_queue)" by (simp add: queue_New_def wq_inv_New)
  have "wq_step queue_New (EAdd (3::nat)) (queue_Add 1 3 queue_New)" by (rule step_add)
  then show ?thesis using queue_refines_spec [OF inv] by simp
qed

text \<open>A queue that is shutting down takes nothing new.\<close>

lemma wq_step_closed:
  "wq_step q e q' \<Longrightarrow> wq_shuttingDown q \<Longrightarrow> wq_shuttingDown q' \<and> wq_dirty q' \<subseteq> wq_dirty q"
  by (induction rule: wq_step.induct)
    (auto simp: queue_Add_def queue_Done_def queue_ShutDown_def Let_def
      dest!: queue_Get_item queue_Get_shutdown)

lemma wq_run_closed:
  "wq_run q es q' \<Longrightarrow> wq_shuttingDown q \<Longrightarrow> wq_shuttingDown q' \<and> wq_dirty q' \<subseteq> wq_dirty q"
proof (induction rule: wq_run.induct)
  case (run_cons q e q' es q'')
  then show ?case using wq_step_closed [OF run_cons.hyps(1)] by auto
qed simp

text \<open>
  Shutdown: once \<^verbatim>\<open>ShutDown\<close> was called, no run makes an item dirty that was not dirty
  then, and a worker that calls \<^verbatim>\<open>Get\<close> never waits: it is told to exit exactly when the queue
  is drained, and gets the first queued item otherwise.
\<close>

theorem queue_shutdown:
  assumes "wq_run (queue_ShutDown q) es q'"
  shows "wq_dirty q' \<subseteq> wq_dirty q \<and> queue_ShuttingDown q'
    \<and> (wq_queue q' = [] \<longrightarrow> queue_Get now q' = Some ((None, True), q'))
    \<and> (\<forall>x rest. wq_queue q' = x # rest \<longrightarrow>
         (\<exists>q''. queue_Get now q' = Some ((Some x, False), q'') \<and> wq_queue q'' = rest))"
proof (intro conjI)
  have "wq_shuttingDown (queue_ShutDown q)" by (simp add: queue_ShutDown_def)
  from wq_run_closed [OF assms this]
  have closed: "wq_shuttingDown q'" and dirty: "wq_dirty q' \<subseteq> wq_dirty (queue_ShutDown q)" by simp_all
  from dirty show "wq_dirty q' \<subseteq> wq_dirty q" by (simp add: queue_ShutDown_def)
  from closed show "queue_ShuttingDown q'" by (simp add: queue_ShuttingDown_def)
  from closed show "wq_queue q' = [] \<longrightarrow> queue_Get now q' = Some ((None, True), q')"
    by (simp add: queue_Get_def)
  from closed show "\<forall>x rest. wq_queue q' = x # rest \<longrightarrow>
      (\<exists>q''. queue_Get now q' = Some ((Some x, False), q'') \<and> wq_queue q'' = rest)"
    by (simp add: queue_Get_def)
qed

theorem queue_shutdown_witness:
  "queue_Get 9 (queue_ShutDown queue_New) = Some ((None, True), queue_ShutDown (queue_New :: nat work_queue))"
  using queue_shutdown [OF run_nil [of "queue_ShutDown (queue_New :: nat work_queue)"], of 9]
  by (simp add: queue_ShutDown_def queue_New_def queue_NewNamed_def)

end
