(* ===== verification/RateLimiters.thy ===== *)
theory RateLimiters
  imports Go_Prelude
begin

section \<open>Rate limiters (\<^verbatim>\<open>pkg/util/workqueue/default_rate_limiters.go\<close>)\<close>

text \<open>
  The limiters a controller's queue asks how long a failed item should wait, and the token bucket
  (\<^verbatim>\<open>vendor/github.com/juju/ratelimit\<close>) one of them wraps. A limiter's methods hold its lock,
  so each is a function of its state. Durations, token and tick counts and failure counts are 64 bit
  integers: each operation of the code is wrapped where the code computes it. A clock reading is
  an unbounded number of nanoseconds, as \<^verbatim>\<open>time.Time\<close> holds seconds of its own, and
  the difference of two readings saturates.
\<close>

subsection \<open>The token bucket\<close>

record bucket =
  startTime :: time
  capacity :: int
  quantum :: int
  fillInterval :: duration
  avail :: int
  availTick :: int

text \<open>The constructor panics (\<open>None\<close>) on a non-positive argument.\<close>

definition NewBucketWithQuantum :: "time \<Rightarrow> duration \<Rightarrow> int \<Rightarrow> int \<Rightarrow> bucket option" where
  "NewBucketWithQuantum now fi cap q =
     (if fi \<le> 0 then None
      else if cap \<le> 0 then None
      else if q \<le> 0 then None
      else Some \<lparr>startTime = now, capacity = cap, quantum = q, fillInterval = fi,
                 avail = cap, availTick = 0\<rparr>)"

definition time_Sub :: "time \<Rightarrow> time \<Rightarrow> duration" where
  "time_Sub t u =
     (if t - u > MaxInt64 then MaxInt64 else if t - u < - (2 ^ 63) then - (2 ^ 63) else t - u)"

definition bucket_adjust :: "time \<Rightarrow> bucket \<Rightarrow> int \<times> bucket" where
  "bucket_adjust now tb =
     (let currentTick = time_Sub now (startTime tb) sdiv fillInterval tb
      in if avail tb \<ge> capacity tb then (currentTick, tb)
         else
           let a = wrap64 (avail tb + wrap64 (wrap64 (currentTick - availTick tb) * quantum tb));
               a = (if a > capacity tb then capacity tb else a)
           in (currentTick, tb\<lparr>avail := a, availTick := currentTick\<rparr>))"

definition bucket_take :: "time \<Rightarrow> int \<Rightarrow> duration \<Rightarrow> bucket \<Rightarrow> (duration \<times> bool) \<times> bucket" where
  "bucket_take now count maxWait tb =
     (if count \<le> 0 then ((0, True), tb)
      else
        let (currentTick, tb) = bucket_adjust now tb;
            a = wrap64 (avail tb - count)
        in if a \<ge> 0 then ((0, True), tb\<lparr>avail := a\<rparr>)
           else
             let endTick = wrap64 (currentTick
                   + wrap64 (wrap64 (wrap64 (- a) + quantum tb) - 1) sdiv quantum tb);
                 endTime = startTime tb + wrap64 (endTick * fillInterval tb);
                 waitTime = time_Sub endTime now
             in if waitTime > maxWait then ((0, False), tb)
                else ((waitTime, True), tb\<lparr>avail := a\<rparr>))"

definition infinityDuration :: duration where
  "infinityDuration = MaxInt64"

definition bucket_Take :: "time \<Rightarrow> int \<Rightarrow> bucket \<Rightarrow> duration \<times> bucket" where
  "bucket_Take now count tb =
     (let ((d, _), tb) = bucket_take now count infinityDuration tb in (d, tb))"

definition bucket_takeAvailable :: "time \<Rightarrow> int \<Rightarrow> bucket \<Rightarrow> int \<times> bucket" where
  "bucket_takeAvailable now count tb =
     (if count \<le> 0 then (0, tb)
      else
        let (_, tb) = bucket_adjust now tb
        in if avail tb \<le> 0 then (0, tb)
           else
             let count = (if count > avail tb then avail tb else count)
             in (count, tb\<lparr>avail := wrap64 (avail tb - count)\<rparr>))"

definition bucket_available :: "time \<Rightarrow> bucket \<Rightarrow> int \<times> bucket" where
  "bucket_available now tb = (let (_, tb) = bucket_adjust now tb in (avail tb, tb))"

subsection \<open>Exponential and fast-slow limiters\<close>

record 'a expo_limiter =
  ef_failures :: "'a \<rightharpoonup> int"
  ef_baseDelay :: duration
  ef_maxDelay :: duration

text \<open>Reading an absent key of a \<^verbatim>\<open>map[interface{}]int\<close> gives 0.\<close>

definition count_of :: "('a \<rightharpoonup> int) \<Rightarrow> 'a \<Rightarrow> int" where
  "count_of m x = (case m x of None \<Rightarrow> 0 | Some n \<Rightarrow> n)"

definition NewItemExponentialFailureRateLimiter :: "duration \<Rightarrow> duration \<Rightarrow> 'a expo_limiter" where
  "NewItemExponentialFailureRateLimiter base maxd =
     \<lparr>ef_failures = Map.empty, ef_baseDelay = base, ef_maxDelay = maxd\<rparr>"

text \<open>
  The conversion of an int64 to the nearest float64: beyond \<open>2 ^ 53\<close> the bits that do not fit in the
  53 bits of the significand are rounded, a tie to the even neighbour.
\<close>

definition float64_of :: "int \<Rightarrow> int" where
  "float64_of x =
     (let m = \<bar>x\<bar>;
          e = length (takeWhile (\<lambda>k. 2 ^ (53 + k) \<le> m) [0..<11]);
          q = m div 2 ^ e;
          rest = m mod 2 ^ e;
          q = (if 2 * rest > 2 ^ e \<or> 2 * rest = 2 ^ e \<and> odd q then q + 1 else q)
      in sgn x * (q * 2 ^ e))"

text \<open>
  The product with a power of two is exact unless it leaves the range of the floats, and an infinite one is
  beyond the bound the code tests, as the integer product is. Below zero the exponent halves, and what the
  conversion to an integer keeps is the quotient. \<open>None\<close> is the product of zero and an infinity,
  which is not a number.
\<close>

definition expo_backoff :: "duration \<Rightarrow> int \<Rightarrow> int option" where
  "expo_backoff base exp =
     (if base = 0 \<and> exp \<ge> 1024 then None
      else Some (if exp \<ge> 0 then float64_of base * 2 ^ nat exp else float64_of base sdiv 2 ^ nat (- exp)))"

text \<open>
  What the conversion of a float that is not in the range of int64 gives is left to the implementation by the
  language: it is the parameter \<open>conv\<close> (on amd64, \<open>- (2 ^ 63)\<close> for all of them). \<^verbatim>\<open>math.MaxInt64\<close>
  as a float64 is \<open>2 ^ 63\<close>.
\<close>

type_synonym float_conv = "int option \<Rightarrow> duration"

definition toDuration :: "float_conv \<Rightarrow> int option \<Rightarrow> duration" where
  "toDuration conv backoff =
     (case backoff of Some v \<Rightarrow> if is_int64 v then v else conv backoff | None \<Rightarrow> conv backoff)"

definition expo_When :: "float_conv \<Rightarrow> 'a \<Rightarrow> 'a expo_limiter \<Rightarrow> duration \<times> 'a expo_limiter" where
  "expo_When conv item r =
     (let exp = count_of (ef_failures r) item;
          r = r\<lparr>ef_failures := (ef_failures r)(item \<mapsto> wrap64 (count_of (ef_failures r) item + 1))\<rparr>;
          backoff = expo_backoff (ef_baseDelay r) exp
      in if (case backoff of Some v \<Rightarrow> v > 2 ^ 63 | None \<Rightarrow> False) then (ef_maxDelay r, r)
         else
           let calculated = toDuration conv backoff
           in if calculated > ef_maxDelay r then (ef_maxDelay r, r) else (calculated, r))"

definition expo_NumRequeues :: "'a \<Rightarrow> 'a expo_limiter \<Rightarrow> int" where
  "expo_NumRequeues item r = count_of (ef_failures r) item"

definition expo_Forget :: "'a \<Rightarrow> 'a expo_limiter \<Rightarrow> 'a expo_limiter" where
  "expo_Forget item r = r\<lparr>ef_failures := (ef_failures r)(item := None)\<rparr>"

record 'a fastslow_limiter =
  fs_failures :: "'a \<rightharpoonup> int"
  fs_maxFastAttempts :: int
  fs_fastDelay :: duration
  fs_slowDelay :: duration

definition NewItemFastSlowRateLimiter :: "duration \<Rightarrow> duration \<Rightarrow> int \<Rightarrow> 'a fastslow_limiter" where
  "NewItemFastSlowRateLimiter fast slow n =
     \<lparr>fs_failures = Map.empty, fs_maxFastAttempts = n, fs_fastDelay = fast, fs_slowDelay = slow\<rparr>"

definition fastslow_When :: "'a \<Rightarrow> 'a fastslow_limiter \<Rightarrow> duration \<times> 'a fastslow_limiter" where
  "fastslow_When item r =
     (let r = r\<lparr>fs_failures := (fs_failures r)(item \<mapsto> wrap64 (count_of (fs_failures r) item + 1))\<rparr>
      in if count_of (fs_failures r) item \<le> fs_maxFastAttempts r then (fs_fastDelay r, r)
         else (fs_slowDelay r, r))"

definition fastslow_NumRequeues :: "'a \<Rightarrow> 'a fastslow_limiter \<Rightarrow> int" where
  "fastslow_NumRequeues item r = count_of (fs_failures r) item"

definition fastslow_Forget :: "'a \<Rightarrow> 'a fastslow_limiter \<Rightarrow> 'a fastslow_limiter" where
  "fastslow_Forget item r = r\<lparr>fs_failures := (fs_failures r)(item := None)\<rparr>"

subsection \<open>The limiter interface and the maximum of several limiters\<close>

datatype 'a rate_limiter =
    BucketRateLimiter bucket
  | ItemExponential "'a expo_limiter"
  | ItemFastSlow "'a fastslow_limiter"
  | MaxOfRateLimiter "'a rate_limiter list"

fun When :: "float_conv \<Rightarrow> time \<Rightarrow> 'a \<Rightarrow> 'a rate_limiter \<Rightarrow> duration \<times> 'a rate_limiter"
  and When_all ::
    "float_conv \<Rightarrow> time \<Rightarrow> 'a \<Rightarrow> duration \<Rightarrow> 'a rate_limiter list \<Rightarrow> duration \<times> 'a rate_limiter list"
where
  "When conv now item (BucketRateLimiter b) =
     (let (d, b) = bucket_Take now 1 b in (d, BucketRateLimiter b))"
| "When conv now item (ItemExponential r) =
     (let (d, r) = expo_When conv item r in (d, ItemExponential r))"
| "When conv now item (ItemFastSlow r) =
     (let (d, r) = fastslow_When item r in (d, ItemFastSlow r))"
| "When conv now item (MaxOfRateLimiter ls) =
     (let (ret, ls) = When_all conv now item 0 ls in (ret, MaxOfRateLimiter ls))"
| "When_all conv now item ret [] = (ret, [])"
| "When_all conv now item ret (l # ls) =
     (let (curr, l) = When conv now item l;
          (ret, ls) = When_all conv now item (if curr > ret then curr else ret) ls
      in (ret, l # ls))"

fun NumRequeues :: "'a \<Rightarrow> 'a rate_limiter \<Rightarrow> int"
  and NumRequeues_all :: "'a \<Rightarrow> int \<Rightarrow> 'a rate_limiter list \<Rightarrow> int"
where
  "NumRequeues item (BucketRateLimiter b) = 0"
| "NumRequeues item (ItemExponential r) = expo_NumRequeues item r"
| "NumRequeues item (ItemFastSlow r) = fastslow_NumRequeues item r"
| "NumRequeues item (MaxOfRateLimiter ls) = NumRequeues_all item 0 ls"
| "NumRequeues_all item ret [] = ret"
| "NumRequeues_all item ret (l # ls) =
     (let curr = NumRequeues item l
      in NumRequeues_all item (if curr > ret then curr else ret) ls)"

fun Forget :: "'a \<Rightarrow> 'a rate_limiter \<Rightarrow> 'a rate_limiter" where
  "Forget item (BucketRateLimiter b) = BucketRateLimiter b"
| "Forget item (ItemExponential r) = ItemExponential (expo_Forget item r)"
| "Forget item (ItemFastSlow r) = ItemFastSlow (fastslow_Forget item r)"
| "Forget item (MaxOfRateLimiter ls) = MaxOfRateLimiter (map (Forget item) ls)"

text \<open>
  The default: 5 ms doubled per failure up to 1000 s, and a bucket of 100 tokens filled at 10 per
  second, for which the constructor's search settles at once on one token every 100 ms.
\<close>

definition DefaultControllerRateLimiter :: "time \<Rightarrow> 'a rate_limiter" where
  "DefaultControllerRateLimiter now =
     MaxOfRateLimiter
       [ItemExponential (NewItemExponentialFailureRateLimiter (5 * 10 ^ 6) (1000 * 10 ^ 9)),
        BucketRateLimiter (the (NewBucketWithQuantum now (10 ^ 8) 100 1))]"

definition DefaultItemBasedRateLimiter :: "'a rate_limiter" where
  "DefaultItemBasedRateLimiter =
     ItemExponential (NewItemExponentialFailureRateLimiter (10 ^ 6) (1000 * 10 ^ 9))"

subsection \<open>The limiter interface\<close>

text \<open>
  What a queue relies on: asking about or forgetting one item does not change another item's
  count, forgetting resets it, and a limiter that counts adds one per question, as long as the
  count is below the largest int.
\<close>

datatype 'a rl_event = Failed time 'a | Forgotten 'a

fun streak :: "'a \<Rightarrow> int \<Rightarrow> 'a rl_event list \<Rightarrow> int" where
  "streak x n [] = n"
| "streak x n (Failed now y # es) = streak x (if y = x then n + 1 else n) es"
| "streak x n (Forgotten y # es) = streak x (if y = x then 0 else n) es"

fun rl_handle ::
  "(time \<Rightarrow> 'a \<Rightarrow> 'l \<Rightarrow> duration \<times> 'l) \<Rightarrow> ('a \<Rightarrow> 'l \<Rightarrow> 'l) \<Rightarrow> 'l \<Rightarrow> 'a rl_event \<Rightarrow> 'l" where
  "rl_handle ask forget l (Failed now y) = snd (ask now y l)"
| "rl_handle ask forget l (Forgotten y) = forget y l"

locale rate_limiter_interface =
  fixes ask :: "time \<Rightarrow> 'a \<Rightarrow> 'l \<Rightarrow> duration \<times> 'l"
    and numRequeues :: "'a \<Rightarrow> 'l \<Rightarrow> int"
    and forget :: "'a \<Rightarrow> 'l \<Rightarrow> 'l"
    and counting :: "'l \<Rightarrow> bool"
  assumes counting_ask: "counting l \<Longrightarrow> numRequeues x l < MaxInt64 \<Longrightarrow> counting (snd (ask now x l))"
    and counting_forget: "counting l \<Longrightarrow> counting (forget x l)"
    and ask_other: "y \<noteq> x \<Longrightarrow> numRequeues y (snd (ask now x l)) = numRequeues y l"
    and counting_nonneg: "counting l \<Longrightarrow> 0 \<le> numRequeues x l"
    and ask_same: "counting l \<Longrightarrow> numRequeues x l < MaxInt64 \<Longrightarrow> numRequeues x (snd (ask now x l)) = numRequeues x l + 1"
    and forget_other: "y \<noteq> x \<Longrightarrow> numRequeues y (forget x l) = numRequeues y l"
    and forget_same: "numRequeues x (forget x l) = 0"
begin

text \<open>The item an event is about, and that no count grows by more than one.\<close>

lemma handle_step:
  assumes "counting l" "\<forall>y. numRequeues y l < MaxInt64"
  shows "counting (rl_handle ask forget l e)" "numRequeues y (rl_handle ask forget l e) \<le> numRequeues y l + 1"
    "numRequeues y (rl_handle ask forget l e) = streak y (numRequeues y l) [e]"
proof -
  show "counting (rl_handle ask forget l e)"
    using assms by (cases e) (auto intro: counting_ask counting_forget)
  show eq: "numRequeues y (rl_handle ask forget l e) = streak y (numRequeues y l) [e]"
    using assms by (cases e) (auto simp: ask_other ask_same forget_other forget_same)
  show "numRequeues y (rl_handle ask forget l e) \<le> numRequeues y l + 1"
    using counting_nonneg [OF assms(1), of y] unfolding eq by (cases e) auto
qed

lemma numRequeues_run:
  "counting l \<Longrightarrow> \<forall>y. numRequeues y l + int (length es) \<le> MaxInt64 \<Longrightarrow>
     numRequeues x (foldl (rl_handle ask forget) l es) = streak x (numRequeues x l) es"
proof (induction es arbitrary: l)
  case (Cons e es)
  have below: "\<forall>y. numRequeues y l < MaxInt64"
  proof
    fix y show "numRequeues y l < MaxInt64" using Cons.prems(2) [rule_format, of y] by simp
  qed
  note step = handle_step [OF Cons.prems(1) below, where e = e]
  have "\<forall>y. numRequeues y (rl_handle ask forget l e) + int (length es) \<le> MaxInt64"
  proof
    fix y show "numRequeues y (rl_handle ask forget l e) + int (length es) \<le> MaxInt64"
      using step(2) [of y] Cons.prems(2) [rule_format, of y] by simp
  qed
  from Cons.IH [OF step(1) this] show ?case using step(3) [of x] by (cases e) simp_all
qed simp

end

subsection \<open>Every limiter of the package implements it\<close>

lemma count_of_upd [simp]: "count_of (m(x \<mapsto> n)) y = (if y = x then n else count_of m y)"
  by (simp add: count_of_def)

lemma count_of_del [simp]: "count_of (m(x := None)) y = (if y = x then 0 else count_of m y)"
  by (simp add: count_of_def)

lemma expo_When_failures:
  "ef_failures (snd (expo_When conv x r)) = (ef_failures r)(x \<mapsto> wrap64 (count_of (ef_failures r) x + 1))"
  by (simp add: expo_When_def Let_def)

lemma fastslow_When_failures:
  "fs_failures (snd (fastslow_When x r)) = (fs_failures r)(x \<mapsto> wrap64 (count_of (fs_failures r) x + 1))"
  by (simp add: fastslow_When_def Let_def)

lemmas limiter_defs =
  expo_NumRequeues_def fastslow_NumRequeues_def expo_Forget_def fastslow_Forget_def
  expo_When_failures fastslow_When_failures

lemma NumRequeues_all_max:
  "NumRequeues_all x ret ls = fold (\<lambda>l. max (NumRequeues x l)) ls ret"
  by (induction ls arbitrary: ret) (auto simp: max_def Let_def)

lemma When_all_map: "snd (When_all conv now x ret ls) = map (\<lambda>l. snd (When conv now x l)) ls"
  by (induction ls arbitrary: ret) (simp_all add: Let_def case_prod_beta)

lemma When_MaxOf:
  "snd (When conv now x (MaxOfRateLimiter ls)) = MaxOfRateLimiter (map (\<lambda>l. snd (When conv now x l)) ls)"
  using When_all_map [of conv now x 0 ls] by (auto split: prod.splits)

lemma When_simple:
  "snd (When conv now x (BucketRateLimiter b)) = BucketRateLimiter (snd (bucket_Take now 1 b))"
  "snd (When conv now x (ItemExponential r)) = ItemExponential (snd (expo_When conv x r))"
  "snd (When conv now x (ItemFastSlow s)) = ItemFastSlow (snd (fastslow_When x s))"
  by (auto split: prod.splits)

lemma fold_max_cong: "(\<And>l. l \<in> set ls \<Longrightarrow> f l = g l) \<Longrightarrow> fold (\<lambda>l. max (f l)) ls ret = fold (\<lambda>l. max (g l)) ls (ret::int)"
  by (induction ls arbitrary: ret) auto

lemma fold_max_map: "fold (\<lambda>l. max (f l)) (map h ls) ret = fold (\<lambda>l. max (f (h l))) ls (ret::int)"
  by (induction ls arbitrary: ret) auto

lemma NumRequeues_When_other: "y \<noteq> x \<Longrightarrow> NumRequeues y (snd (When conv now x l)) = NumRequeues y l"
proof (induction l)
  case (MaxOfRateLimiter ls)
  then show ?case
    by (simp only: When_MaxOf NumRequeues.simps NumRequeues_all_max fold_max_map)
      (rule fold_max_cong, simp)
qed (auto simp: When_simple limiter_defs simp del: When.simps)

lemma NumRequeues_Forget_other: "y \<noteq> x \<Longrightarrow> NumRequeues y (Forget x l) = NumRequeues y l"
proof (induction l)
  case (MaxOfRateLimiter ls)
  then show ?case
    by (simp only: Forget.simps NumRequeues.simps NumRequeues_all_max fold_max_map)
      (rule fold_max_cong, simp)
qed (auto simp: limiter_defs)

lemma fold_max_zero: "(\<And>l. l \<in> set ls \<Longrightarrow> f l = 0) \<Longrightarrow> fold (\<lambda>l. max (f l)) ls 0 = (0::int)"
  by (induction ls) auto

lemma NumRequeues_Forget_same: "NumRequeues x (Forget x l) = 0"
proof (induction l)
  case (MaxOfRateLimiter ls)
  then show ?case
    by (simp only: Forget.simps NumRequeues.simps NumRequeues_all_max fold_max_map)
      (rule fold_max_zero, simp)
qed (auto simp: limiter_defs)

text \<open>
  A limiter counts when some limiter in it keeps failure counts; the counts are not negative, while
  none of them has reached the largest int.
\<close>

fun keeps_counts :: "'a rate_limiter \<Rightarrow> bool" where
  "keeps_counts (BucketRateLimiter b) = False"
| "keeps_counts (ItemExponential r) = True"
| "keeps_counts (ItemFastSlow r) = True"
| "keeps_counts (MaxOfRateLimiter ls) = list_ex keeps_counts ls"

fun nonneg_counts :: "'a rate_limiter \<Rightarrow> bool" where
  "nonneg_counts (BucketRateLimiter b) = True"
| "nonneg_counts (ItemExponential r) = (\<forall>x. 0 \<le> count_of (ef_failures r) x)"
| "nonneg_counts (ItemFastSlow r) = (\<forall>x. 0 \<le> count_of (fs_failures r) x)"
| "nonneg_counts (MaxOfRateLimiter ls) = list_all nonneg_counts ls"

definition rl_counting :: "'a rate_limiter \<Rightarrow> bool" where
  "rl_counting l \<longleftrightarrow> keeps_counts l \<and> nonneg_counts l"

lemma keeps_counts_When: "keeps_counts (snd (When conv now x l)) = keeps_counts l"
  by (induction l) (auto simp: When_simple When_MaxOf list_ex_iff simp del: When.simps)

lemma keeps_counts_Forget: "keeps_counts (Forget x l) = keeps_counts l"
  by (induction l) (auto simp: list_ex_iff)

lemma nonneg_counts_Forget: "nonneg_counts l \<Longrightarrow> nonneg_counts (Forget x l)"
  by (induction l) (auto simp: limiter_defs list_all_iff)

lemma NumRequeues_nonneg: "nonneg_counts l \<Longrightarrow> 0 \<le> NumRequeues x l"
proof (induction l)
  case (MaxOfRateLimiter ls)
  have "ret \<le> fold (\<lambda>l. max (NumRequeues x l)) ls ret" for ret
    by (induction ls arbitrary: ret) (auto simp: le_max_iff_disj intro: order_trans max.cobounded2)
  then show ?case by (simp add: NumRequeues_all_max)
qed (auto simp: limiter_defs)

lemma wrap64_Suc: "0 \<le> n \<Longrightarrow> n < MaxInt64 \<Longrightarrow> wrap64 (n + 1) = n + 1"
  by (rule wrap64_id) (simp add: is_int64_def)

lemma fold_max_ge: "l \<in> set ls \<Longrightarrow> f l \<le> fold (\<lambda>l. max (f l)) ls (ret::int)"
proof (induction ls arbitrary: ret)
  case (Cons k ls)
  have "r \<le> fold (\<lambda>l. max (f l)) ls r" for r
    by (induction ls arbitrary: r) (auto simp: le_max_iff_disj intro: order_trans max.cobounded2)
  from this [of "max (f k) ret"] Cons show ?case by auto
qed simp

lemma NumRequeues_member: "l \<in> set ls \<Longrightarrow> NumRequeues x (MaxOfRateLimiter ls) < n \<Longrightarrow> NumRequeues x l < n"
  using fold_max_ge [of l ls "NumRequeues x" 0] by (simp add: NumRequeues_all_max)

lemma nonneg_counts_When:
  "nonneg_counts l \<Longrightarrow> NumRequeues x l < MaxInt64 \<Longrightarrow> nonneg_counts (snd (When conv now x l))"
proof (induction l)
  case (MaxOfRateLimiter ls)
  then have "nonneg_counts (snd (When conv now x l))" if "l \<in> set ls" for l
    using that NumRequeues_member [OF that MaxOfRateLimiter.prems(2)] by (simp add: list_all_iff)
  then show ?case by (simp add: When_MaxOf list_all_iff del: When.simps)
qed (auto simp: When_simple limiter_defs wrap64_Suc simp del: When.simps)

lemma NumRequeues_uncounted: "\<not> keeps_counts l \<Longrightarrow> NumRequeues x l = 0"
proof (induction l)
  case (MaxOfRateLimiter ls)
  then show ?case by (auto simp: NumRequeues_all_max list_ex_iff intro!: fold_max_zero)
qed auto

text \<open>
  The maximum of several counts rises by one when the counting ones do: the others are 0, and
  after the question the maximum is at least 1.
\<close>

lemma fold_max_bump:
  assumes "\<And>l. l \<in> set ls \<Longrightarrow> (c l \<longrightarrow> g l = f l + 1 \<and> 0 \<le> f l) \<and> (\<not> c l \<longrightarrow> f l = 0 \<and> g l = 0)"
  shows "0 \<le> (r::int) \<Longrightarrow> fold (\<lambda>l. max (g l)) ls (r + 1) = fold (\<lambda>l. max (f l)) ls r + 1"
  using assms
proof (induction ls arbitrary: r)
  case (Cons l ls)
  have "max (g l) (r + 1) = max (f l) r + 1" using Cons.prems by force
  then show ?case using Cons.prems Cons.IH [of "max (f l) r"] by force
qed simp

lemma fold_max_start:
  assumes "\<exists>l \<in> set ls. (1::int) \<le> g l"
  shows "fold (\<lambda>l. max (g l)) ls 0 = fold (\<lambda>l. max (g l)) ls 1"
  using assms
proof (induction ls)
  case (Cons l ls)
  show ?case
  proof (cases "1 \<le> g l")
    case True
    then show ?thesis by (simp add: max_def)
  next
    case False
    then have "fold (\<lambda>l. max (g l)) ls (max (g l) 0) = fold (\<lambda>l. max (g l)) ls 0"
      and "max (g l) 1 = 1" by (auto simp: max_def)
    with Cons False show ?thesis by auto
  qed
qed simp

lemma NumRequeues_When_same:
  "keeps_counts l \<Longrightarrow> nonneg_counts l \<Longrightarrow> NumRequeues x l < MaxInt64 \<Longrightarrow>
     NumRequeues x (snd (When conv now x l)) = NumRequeues x l + 1"
proof (induction l)
  case (MaxOfRateLimiter ls)
  let ?f = "NumRequeues x" and ?g = "\<lambda>l. NumRequeues x (snd (When conv now x l))"
  have step: "(keeps_counts l \<longrightarrow> ?g l = ?f l + 1 \<and> 0 \<le> ?f l) \<and> (\<not> keeps_counts l \<longrightarrow> ?f l = 0 \<and> ?g l = 0)"
    if "l \<in> set ls" for l
    using MaxOfRateLimiter that NumRequeues_member [OF that MaxOfRateLimiter.prems(3)]
    by (auto simp: list_all_iff list_ex_iff NumRequeues_uncounted keeps_counts_When NumRequeues_nonneg)
  have "\<exists>l \<in> set ls. 1 \<le> ?g l"
    using step MaxOfRateLimiter.prems by (fastforce simp: list_ex_iff)
  then show ?case
    using fold_max_bump [of ls keeps_counts ?g ?f 0] fold_max_start [of ls ?g] step
    by (simp add: When_MaxOf NumRequeues_all_max fold_max_map del: When.simps)
qed (auto simp: When_simple limiter_defs wrap64_Suc simp del: When.simps)

interpretation rl: rate_limiter_interface "When conv" NumRequeues Forget rl_counting for conv
  by unfold_locales
    (auto simp: rl_counting_def keeps_counts_When keeps_counts_Forget nonneg_counts_When
      nonneg_counts_Forget NumRequeues_When_other NumRequeues_When_same NumRequeues_Forget_other
      NumRequeues_Forget_same NumRequeues_nonneg)

subsection \<open>The backoff\<close>

lemma float64_of_small: "\<bar>x\<bar> < 2 ^ 53 \<Longrightarrow> float64_of x = x"
  by (simp add: float64_of_def Let_def upt_rec sgn_mult_abs)

lemma expo_backoff_small:
  "0 < base \<Longrightarrow> base < 2 ^ 53 \<Longrightarrow> 0 \<le> exp \<Longrightarrow> expo_backoff base exp = Some (base * 2 ^ nat exp)"
  by (simp add: expo_backoff_def float64_of_small)

lemma expo_When_delay:
  assumes "0 < ef_baseDelay r" and "ef_baseDelay r < 2 ^ 53" and "ef_maxDelay r \<le> MaxInt64"
    and "0 \<le> count_of (ef_failures r) x" and "ef_baseDelay r * 2 ^ nat (count_of (ef_failures r) x) \<noteq> 2 ^ 63"
  shows "fst (expo_When conv x r)
    = min (ef_baseDelay r * 2 ^ nat (count_of (ef_failures r) x)) (ef_maxDelay r)"
proof -
  define v where "v = ef_baseDelay r * 2 ^ nat (count_of (ef_failures r) x)"
  have "expo_backoff (ef_baseDelay r) (count_of (ef_failures r) x) = Some v"
    using assms(1,2,4) by (simp add: expo_backoff_small v_def)
  moreover have "0 < v" "v \<noteq> 2 ^ 63" using assms(1,5) by (simp_all add: v_def)
  ultimately show ?thesis
    using assms(3) unfolding v_def [symmetric] by (auto simp: expo_When_def Let_def toDuration_def is_int64_def min_def)
qed

lemma When_all_ge: "ret \<le> fst (When_all conv now x ret ls)"
proof (induction ls arbitrary: ret)
  case (Cons l ls)
  have "ret \<le> (if fst (When conv now x l) > ret then fst (When conv now x l) else ret)" by simp
  also have "\<dots> \<le> fst (When_all conv now x ret (l # ls))"
    using Cons by (simp add: Let_def case_prod_beta)
  finally show ?case .
qed simp

lemma When_all_ge_member:
  "l \<in> set ls \<Longrightarrow> fst (When conv now x l) \<le> fst (When_all conv now x ret ls)"
proof (induction ls arbitrary: ret)
  case (Cons k ls)
  let ?ret = "if fst (When conv now x k) > ret then fst (When conv now x k) else ret"
  have eq: "fst (When_all conv now x ret (k # ls)) = fst (When_all conv now x ?ret ls)"
    by (simp add: Let_def case_prod_beta)
  show ?case
  proof (cases "l = k")
    case True
    have "fst (When conv now x k) \<le> ?ret" by simp
    also have "\<dots> \<le> fst (When_all conv now x ?ret ls)" by (rule When_all_ge)
    finally show ?thesis using True eq by simp
  next
    case False
    with Cons show ?thesis using eq by simp
  qed
qed simp

lemma When_MaxOf_ge:
  "l \<in> set ls \<Longrightarrow> fst (When conv now x l) \<le> fst (When conv now x (MaxOfRateLimiter ls))"
  using When_all_ge_member [of l ls conv now x 0] by (simp add: case_prod_beta)

subsection \<open>The bucket\<close>

text \<open>
  The reference: the bucket over the integers, without a bound. The argument about its rate is made
  here; the bucket of the code does the same within the bounds of \<open>in_range\<close> below.
\<close>

definition ideal_adjust :: "time \<Rightarrow> bucket \<Rightarrow> int \<times> bucket" where
  "ideal_adjust now tb =
     (let currentTick = (now - startTime tb) sdiv fillInterval tb
      in if avail tb \<ge> capacity tb then (currentTick, tb)
         else (currentTick, tb\<lparr>avail := min (capacity tb) (avail tb + (currentTick - availTick tb) * quantum tb),
                               availTick := currentTick\<rparr>))"

definition ideal_take :: "time \<Rightarrow> int \<Rightarrow> duration \<Rightarrow> bucket \<Rightarrow> (duration \<times> bool) \<times> bucket" where
  "ideal_take now count maxWait tb =
     (if count \<le> 0 then ((0, True), tb)
      else
        let (currentTick, tb) = ideal_adjust now tb;
            a = avail tb - count
        in if a \<ge> 0 then ((0, True), tb\<lparr>avail := a\<rparr>)
           else
             let waitTime = startTime tb + (currentTick + (- a + quantum tb - 1) sdiv quantum tb) * fillInterval tb - now
             in if waitTime > maxWait then ((0, False), tb)
                else ((waitTime, True), tb\<lparr>avail := a\<rparr>))"

definition bucket_ok :: "bucket \<Rightarrow> bool" where
  "bucket_ok tb \<longleftrightarrow> 0 < fillInterval tb \<and> 0 < capacity tb \<and> 0 < quantum tb
     \<and> avail tb \<le> capacity tb \<and> 0 \<le> availTick tb"

definition tick :: "time \<Rightarrow> bucket \<Rightarrow> int" where
  "tick now tb = (now - startTime tb) sdiv fillInterval tb"

lemma ideal_adjust_tick: "fst (ideal_adjust now tb) = tick now tb"
  by (simp add: ideal_adjust_def tick_def Let_def)

lemma ideal_adjust_static:
  "startTime (snd (ideal_adjust now tb)) = startTime tb"
  "capacity (snd (ideal_adjust now tb)) = capacity tb"
  "quantum (snd (ideal_adjust now tb)) = quantum tb"
  "fillInterval (snd (ideal_adjust now tb)) = fillInterval tb"
  by (simp_all add: ideal_adjust_def Let_def)

lemma ideal_adjust_ok:
  "bucket_ok tb \<Longrightarrow> availTick tb \<le> tick now tb \<Longrightarrow>
   bucket_ok (snd (ideal_adjust now tb)) \<and> availTick (snd (ideal_adjust now tb)) \<le> tick now tb"
  by (auto simp: bucket_ok_def ideal_adjust_def Let_def tick_def)

text \<open>
  The tokens there are and the tokens already given never exceed the capacity and what the
  elapsed ticks produced.
\<close>

definition credit :: "bucket \<Rightarrow> int" where
  "credit tb = avail tb - quantum tb * availTick tb"

lemma ideal_adjust_credit: "credit (snd (ideal_adjust now tb)) \<le> credit tb"
  by (auto simp: credit_def ideal_adjust_def Let_def algebra_simps)

lemma ideal_take_avail:
  "0 < count \<Longrightarrow> ideal_take now count maxWait tb = ((d, ok), tb') \<Longrightarrow>
   tb' = (if ok then (snd (ideal_adjust now tb))\<lparr>avail := avail (snd (ideal_adjust now tb)) - count\<rparr>
          else snd (ideal_adjust now tb))"
  by (auto simp: ideal_take_def Let_def case_prod_beta split: if_splits)

text \<open>A sequence of requests and the number of tokens granted to them.\<close>

fun take_run ::
    "(time \<Rightarrow> int \<Rightarrow> duration \<Rightarrow> bucket \<Rightarrow> (duration \<times> bool) \<times> bucket) \<Rightarrow> duration \<Rightarrow> (time \<times> int) list \<Rightarrow> bucket \<Rightarrow> int \<times> bucket"
where
  "take_run f maxWait [] tb = (0, tb)"
| "take_run f maxWait ((now, count) # ts) tb =
     (let ((d, ok), tb) = f now count maxWait tb;
          (g, tb) = take_run f maxWait ts tb
      in (g + (if ok \<and> 0 < count then count else 0), tb))"

abbreviation bucket_run :: "duration \<Rightarrow> (time \<times> int) list \<Rightarrow> bucket \<Rightarrow> int \<times> bucket" where
  "bucket_run \<equiv> take_run bucket_take"

abbreviation ideal_run :: "duration \<Rightarrow> (time \<times> int) list \<Rightarrow> bucket \<Rightarrow> int \<times> bucket" where
  "ideal_run \<equiv> take_run ideal_take"

definition bucket_invar :: "bucket \<Rightarrow> time \<Rightarrow> int \<Rightarrow> bucket \<Rightarrow> bool" where
  "bucket_invar tb0 t g tb \<longleftrightarrow>
     bucket_ok tb \<and> startTime tb = startTime tb0 \<and> capacity tb = capacity tb0
     \<and> quantum tb = quantum tb0 \<and> fillInterval tb = fillInterval tb0
     \<and> availTick tb \<le> tick t tb0 \<and> g + credit tb \<le> capacity tb0 \<and> 0 \<le> g \<and> - g \<le> avail tb"

lemma tick_mono: "startTime tb \<le> t \<Longrightarrow> t \<le> t' \<Longrightarrow> 0 < fillInterval tb \<Longrightarrow> tick t tb \<le> tick t' tb"
  by (simp add: tick_def go_simps zdiv_mono1)

lemma tick_cong:
  "startTime tb = startTime tb0 \<Longrightarrow> fillInterval tb = fillInterval tb0 \<Longrightarrow> tick t tb = tick t tb0"
  by (simp add: tick_def)

lemma ideal_adjust_avail:
  "bucket_ok tb \<Longrightarrow> availTick tb \<le> tick now tb \<Longrightarrow> avail tb \<le> avail (snd (ideal_adjust now tb))"
  by (auto simp: bucket_ok_def ideal_adjust_def Let_def tick_def)

lemma bucket_adjust_invar:
  assumes "bucket_invar tb0 t g tb" "startTime tb0 \<le> t" "t \<le> now"
  shows "bucket_invar tb0 now g (snd (ideal_adjust now tb))"
proof -
  have tb: "bucket_ok tb" "tick now tb = tick now tb0" "tick t tb0 \<le> tick now tb0"
    using assms tick_mono [of tb0 t now] by (auto simp: bucket_invar_def bucket_ok_def intro: tick_cong)
  then show ?thesis
    using assms(1) ideal_adjust_ok [of tb now] ideal_adjust_credit [of now tb] ideal_adjust_avail [of tb now]
    by (auto simp: bucket_invar_def ideal_adjust_static)
qed

lemma bucket_take_invar:
  assumes "bucket_invar tb0 t g tb" "startTime tb0 \<le> t" "t \<le> now"
    and "ideal_take now count maxWait tb = ((d, ok), tb')"
  shows "bucket_invar tb0 now (g + (if ok \<and> 0 < count then count else 0)) tb'"
proof (cases "0 < count")
  case False
  have "tick t tb0 \<le> tick now tb0"
    using assms tick_mono [of tb0 t now] by (auto simp: bucket_invar_def bucket_ok_def)
  with False assms show ?thesis by (auto simp: ideal_take_def bucket_invar_def)
next
  case True
  with ideal_take_avail [OF True assms(4)] bucket_adjust_invar [OF assms(1-3)] show ?thesis
    by (auto simp: bucket_invar_def bucket_ok_def credit_def)
qed

lemma bucket_run_invar:
  "bucket_invar tb0 t g tb \<Longrightarrow> startTime tb0 \<le> t \<Longrightarrow> sorted (t # map fst ts) \<Longrightarrow>
   ideal_run maxWait ts tb = (g', tb') \<Longrightarrow> bucket_invar tb0 (last (t # map fst ts)) (g + g') tb'"
proof (induction ts arbitrary: t g tb g')
  case (Cons r ts)
  obtain now count where r: "r = (now, count)" by fastforce
  obtain d ok tb1 where take: "ideal_take now count maxWait tb = ((d, ok), tb1)" by (metis surj_pair)
  let ?c = "if ok \<and> 0 < count then count else 0"
  obtain g1 where run: "ideal_run maxWait ts tb1 = (g1, tb')" and g': "g' = g1 + ?c"
    using Cons.prems(4) r take by (auto simp: Let_def split: prod.splits)
  have "bucket_invar tb0 now (g + ?c) tb1"
    using bucket_take_invar [OF Cons.prems(1,2) _ take] Cons.prems(3) r by auto
  from Cons.IH [OF this _ _ run] Cons.prems(2,3) r g' show ?case by (auto simp: algebra_simps)
qed simp

lemma NewBucket_invar:
  "NewBucketWithQuantum t0 fi cap q = Some tb0 \<Longrightarrow> bucket_invar tb0 t0 0 tb0"
  by (auto simp: NewBucketWithQuantum_def bucket_invar_def bucket_ok_def credit_def tick_def go_simps
      split: if_splits)

lemma ceil_div: "0 < (q::int) \<Longrightarrow> a \<le> q * ((a + q - 1) div q)"
  by (smt (verit) minus_mod_eq_mult_div pos_mod_bound)

text \<open>
  A granted request is told to wait until a tick by which the tokens it lacks are produced.
\<close>

lemma bucket_take_ready:
  assumes "bucket_invar tb0 now g (snd (ideal_adjust now tb))" and "startTime tb0 \<le> now"
    and "startTime tb = startTime tb0" and "fillInterval tb = fillInterval tb0"
    and "0 < count" and "ideal_take now count maxWait tb = ((d, True), tb')"
  shows "0 \<le> d \<and> - avail tb' \<le> quantum tb0 * (tick (now + d) tb0 - tick now tb0)"
proof -
  define adj where "adj = snd (ideal_adjust now tb)"
  have adj: "0 < quantum adj" "0 < fillInterval tb0" "quantum adj = quantum tb0"
    "startTime adj = startTime tb0" "fillInterval adj = fillInterval tb0"
    using assms(1) by (auto simp: bucket_invar_def bucket_ok_def adj_def)
  have tb': "tb' = adj\<lparr>avail := avail adj - count\<rparr>"
    using ideal_take_avail [OF assms(5,6)] by (simp add: adj_def)
  let ?a = "avail adj - count"
  let ?endTick = "tick now tb0 + (- ?a + quantum adj - 1) div quantum adj"
  have tk: "fst (ideal_adjust now tb) = tick now tb0"
    by (simp add: ideal_adjust_tick tick_cong [OF assms(3,4)])
  show ?thesis
  proof (cases "0 \<le> ?a")
    case True
    then have "d = 0"
      using assms(5,6) by (auto simp: ideal_take_def Let_def case_prod_beta adj_def split: if_splits)
    with True tb' show ?thesis by simp
  next
    case False
    then have pos: "0 < - ?a" by simp
    have d: "d = startTime tb0 + ?endTick * fillInterval tb0 - now"
      using assms(5,6) False adj tk
      by (auto simp: ideal_take_def Let_def case_prod_beta adj_def go_simps split: if_splits)
    have "1 \<le> (- ?a + quantum adj - 1) div quantum adj"
      using pos adj(1) by (simp add: pos_imp_zdiv_pos_iff int_one_le_iff_zero_less)
    then have "(tick now tb0 + 1) * fillInterval tb0 \<le> ?endTick * fillInterval tb0"
      using adj(2) by (intro mult_right_mono) auto
    moreover have "now - startTime tb0 < (tick now tb0 + 1) * fillInterval tb0"
      using adj(2) assms(2) by (simp add: tick_def go_simps distrib_right)
        (smt (verit) div_mult_mod_eq pos_mod_bound)
    ultimately have "0 \<le> d" using d by linarith
    moreover have "tick (now + d) tb0 = ?endTick"
      using d adj(2) \<open>0 \<le> d\<close> assms(2) by (simp add: tick_def go_simps)
    ultimately show ?thesis using ceil_div [OF adj(1), of "- ?a"] tb' adj(3) by simp
  qed
qed

subsection \<open>The bucket of the code does what the reference does\<close>

text \<open>
  The sizes at which no operation of the code wraps: \<open>T\<close> is the tick of the request and \<open>S\<close> the number of tokens
  asked for so far.
\<close>

definition in_range :: "bucket \<Rightarrow> int \<Rightarrow> int \<Rightarrow> bool" where
  "in_range tb T S \<longleftrightarrow>
     capacity tb + quantum tb * T < 2 ^ 63 \<and> quantum tb + S < 2 ^ 63 \<and> (T + S) * fillInterval tb < 2 ^ 63"

lemma in_range_mono:
  assumes "in_range tb T S" "T' \<le> T" "S' \<le> S" "0 < quantum tb" "0 < fillInterval tb"
  shows "in_range tb T' S'"
proof -
  have "quantum tb * T' \<le> quantum tb * T" using assms(2,4) by (intro mult_left_mono) simp_all
  moreover have "(T' + S') * fillInterval tb \<le> (T + S) * fillInterval tb"
    using assms(2,3,5) by (intro mult_right_mono) simp_all
  ultimately show ?thesis using assms(1,3) by (simp add: in_range_def)
qed

lemma time_Sub_exact: "is_int64 (t - u) \<Longrightarrow> time_Sub t u = t - u"
  by (auto simp: time_Sub_def is_int64_def)

lemma div_bounds:
  assumes "0 < (fi::int)"
  shows "x div fi * fi \<le> x" "x < (x div fi + 1) * fi"
proof -
  have "x = x div fi * fi + x mod fi" by simp
  moreover have "0 \<le> x mod fi" "x mod fi < fi" using assms by simp_all
  moreover have "(x div fi + 1) * fi = x div fi * fi + fi" by (simp add: distrib_right)
  ultimately show "x div fi * fi \<le> x" "x < (x div fi + 1) * fi" by linarith+
qed

lemma tick_below:
  assumes "0 \<le> now - startTime tb" "0 < fillInterval tb"
  shows "0 \<le> tick now tb" "tick now tb * fillInterval tb \<le> now - startTime tb"
    "now - startTime tb < (tick now tb + 1) * fillInterval tb"
  using assms div_bounds [OF assms(2), of "now - startTime tb"] by (simp_all add: tick_def go_simps pos_imp_zdiv_nonneg_iff)

lemma adjust_exact:
  assumes "bucket_ok tb" "availTick tb \<le> tick now tb" "0 \<le> now - startTime tb" "- S \<le> avail tb" "1 \<le> S"
    and "in_range tb (tick now tb) S"
  shows "bucket_adjust now tb = ideal_adjust now tb"
proof -
  have pos: "0 < fillInterval tb" "0 < capacity tb" "0 < quantum tb" "avail tb \<le> capacity tb" "0 \<le> availTick tb"
    using assms(1) by (simp_all add: bucket_ok_def)
  note tk = tick_below [OF assms(3) pos(1)]
  have rng: "capacity tb + quantum tb * tick now tb < 2 ^ 63" "quantum tb + S < 2 ^ 63"
    "(tick now tb + S) * fillInterval tb < 2 ^ 63" using assms(6) by (simp_all add: in_range_def)
  have "(tick now tb + 1) * fillInterval tb \<le> (tick now tb + S) * fillInterval tb"
    using assms(5) pos(1) by (intro mult_right_mono) simp_all
  then have "time_Sub now (startTime tb) = now - startTime tb"
    using tk(3) rng(3) assms(3) by (intro time_Sub_exact) (simp add: is_int64_def)
  then have sub: "time_Sub now (startTime tb) sdiv fillInterval tb = tick now tb" by (simp add: tick_def)
  let ?d = "tick now tb - availTick tb"
  have d: "0 \<le> ?d" "?d \<le> tick now tb" using assms(2) pos(5) by simp_all
  have dq: "0 \<le> ?d * quantum tb" "?d * quantum tb \<le> quantum tb * tick now tb" "?d \<le> ?d * quantum tb"
    using d pos(3) by (simp_all add: mult.commute mult_left_mono mult_le_cancel_right1)
  define P Q where "P = ?d * quantum tb" and "Q = quantum tb * tick now tb"
  have "is_int64 ?d" "is_int64 P" "is_int64 (avail tb + P)"
    using d dq [folded P_def Q_def] rng(1) [folded Q_def] rng(2) pos assms(4) by (simp_all add: is_int64_def)
  then show ?thesis
    by (simp add: bucket_adjust_def ideal_adjust_def sub tick_def [symmetric] Let_def P_def wrap64_id min_def not_le)
qed

lemma ceil_le: "0 < (q::int) \<Longrightarrow> 0 < a \<Longrightarrow> (a + q - 1) div q \<le> a"
proof -
  assume "0 < q" "0 < a"
  then have "a - 1 \<le> q * (a - 1)" using mult_right_mono [of 1 q "a - 1"] by simp
  then have "(a + q - 1) div q \<le> (q * a) div q"
    using \<open>0 < q\<close> by (intro zdiv_mono1) (simp_all add: right_diff_distrib)
  then show ?thesis using \<open>0 < q\<close> by simp
qed

lemma take_exact:
  assumes "bucket_invar tb0 now g (snd (ideal_adjust now tb))" "bucket_adjust now tb = ideal_adjust now tb"
    and "fst (ideal_adjust now tb) = tick now tb0" "0 \<le> now - startTime tb0"
    and "g + count \<le> S" "in_range tb0 (tick now tb0) S"
  shows "bucket_take now count maxWait tb = ideal_take now count maxWait tb"
proof (cases "0 < count")
  case True
  obtain T adj where adj: "ideal_adjust now tb = (T, adj)" by fastforce
  then have T: "T = tick now tb0" using assms(3) by simp
  have ok: "0 < fillInterval tb0" "0 < capacity tb0" "0 < quantum tb0" "avail adj \<le> capacity tb0" "0 \<le> g" "- g \<le> avail adj"
    "startTime adj = startTime tb0" "quantum adj = quantum tb0" "fillInterval adj = fillInterval tb0"
    using assms(1) adj by (auto simp: bucket_invar_def bucket_ok_def)
  have rng: "capacity tb0 + quantum tb0 * T < 2 ^ 63" "quantum tb0 + S < 2 ^ 63" "(T + S) * fillInterval tb0 < 2 ^ 63"
    using assms(6) by (simp_all add: in_range_def T)
  note tk = tick_below [OF assms(4) ok(1), folded T]
  let ?a = "avail adj - count"
  have "0 \<le> quantum tb0 * T" using tk(1) ok(3) by simp
  then have a: "is_int64 ?a" using ok rng True assms(5) by (simp add: is_int64_def)
  have "bucket_take now count maxWait tb = ideal_take now count maxWait tb" if neg: "?a < 0"
  proof -
    let ?n = "(- ?a + quantum tb0 - 1) div quantum tb0"
    have n: "0 \<le> ?n" "?n \<le> - ?a" using neg ok(3) ceil_le [OF ok(3), of "- ?a"] by (simp_all add: pos_imp_zdiv_nonneg_iff)
    have S: "- ?a \<le> S" "0 < - ?a" using ok(6) assms(5) neg by simp_all
    have wa: "is_int64 (- ?a)" "is_int64 (- ?a + quantum tb0)" "is_int64 (- ?a + quantum tb0 - 1)"
      using S rng(2) ok(3) by (simp_all add: is_int64_def)
    have e: "0 \<le> (T + ?n) * fillInterval tb0" "(T + ?n) * fillInterval tb0 \<le> (T + S) * fillInterval tb0" "T + ?n \<le> (T + ?n) * fillInterval tb0"
      using n S tk(1) ok(1) by (simp_all add: mult_right_mono mult_le_cancel_left1)
    then have we: "is_int64 (T + ?n)" "is_int64 ((T + ?n) * fillInterval tb0)"
      using rng(3) n tk(1) by (simp_all add: is_int64_def)
    have "T + 1 \<le> T + S" using S by simp
    then have "(T + 1) * fillInterval tb0 \<le> (T + S) * fillInterval tb0" using ok(1) by (intro mult_right_mono) simp_all
    then have "is_int64 (startTime tb0 + (T + ?n) * fillInterval tb0 - now)"
      using e(1,2) tk(3) rng(3) assms(4) by (simp add: is_int64_def)
    then have sub: "time_Sub (startTime tb0 + (T + ?n) * fillInterval tb0) now = startTime tb0 + (T + ?n) * fillInterval tb0 - now"
      by (rule time_Sub_exact)
    have sd: "(- ?a + quantum tb0 - 1) sdiv quantum tb0 = ?n" using neg ok(3) by (intro sdiv_nonneg) simp_all
    show ?thesis
      using True neg
      by (simp only: bucket_take_def ideal_take_def assms(2) adj Let_def prod.case ok(7-9) wrap64_id [OF a] wrap64_id [OF wa(1)]
          wrap64_id [OF wa(2)] wrap64_id [OF wa(3)] wrap64_id [OF we(1)] wrap64_id [OF we(2)] sd sub)
  qed
  moreover have "bucket_take now count maxWait tb = ideal_take now count maxWait tb" if "0 \<le> ?a"
    using True that by (simp add: bucket_take_def ideal_take_def assms(2) adj Let_def wrap64_id [OF a])
  ultimately show ?thesis by fastforce
qed (simp add: bucket_take_def ideal_take_def)

lemma take_exact_invar:
  assumes "bucket_invar tb0 t g tb" "startTime tb0 \<le> t" "t \<le> now" "g + max 0 count \<le> S" "1 \<le> S"
    and "in_range tb0 (tick now tb0) S"
  shows "bucket_take now count maxWait tb = ideal_take now count maxWait tb"
proof -
  have same: "bucket_ok tb" "startTime tb = startTime tb0" "capacity tb = capacity tb0" "quantum tb = quantum tb0"
    "fillInterval tb = fillInterval tb0" "availTick tb \<le> tick t tb0" "- g \<le> avail tb"
    using assms(1) by (simp_all add: bucket_invar_def)
  have tick: "tick now tb = tick now tb0" by (rule tick_cong [OF same(2,5)])
  have "tick t tb0 \<le> tick now tb0"
    using tick_mono [of tb0 t now] assms(2,3) same by (auto simp: bucket_ok_def)
  then have "bucket_adjust now tb = ideal_adjust now tb"
    using assms same by (intro adjust_exact [where S = S]) (auto simp: tick in_range_def)
  then show ?thesis
    using assms by (intro take_exact [OF bucket_adjust_invar [OF assms(1-3)]]) (auto simp: ideal_adjust_tick tick)
qed

definition asked :: "(time \<times> int) list \<Rightarrow> int" where
  "asked ts = (\<Sum>(now, count) \<leftarrow> ts. max 0 count)"

lemma asked_simps [simp]: "asked [] = 0" "asked ((now, count) # ts) = max 0 count + asked ts"
  "asked (xs @ ys) = asked xs + asked ys"
  by (simp_all add: asked_def)

lemma asked_nonneg [simp]: "0 \<le> asked ts"
  by (induction ts) auto

lemma granted_asked: "fst (take_run f maxWait ts tb) \<le> asked ts"
  by (induction ts arbitrary: tb) (auto simp: Let_def case_prod_beta, smt (verit, best))

lemma run_exact:
  assumes "bucket_invar tb0 t g tb" "startTime tb0 \<le> t" "sorted (t # map fst ts @ [now])" "g + asked ts \<le> S" "1 \<le> S"
    and "in_range tb0 (tick now tb0) S"
  shows "bucket_run maxWait ts tb = ideal_run maxWait ts tb"
  using assms
proof (induction ts arbitrary: t g tb)
  case (Cons r ts)
  obtain u count where r: "r = (u, count)" by fastforce
  obtain d ok tb1 where take: "ideal_take u count maxWait tb = ((d, ok), tb1)" by (metis surj_pair)
  have u: "t \<le> u" "u \<le> now" using Cons.prems(3) r by auto
  have pos: "0 < quantum tb0" "0 < fillInterval tb0" using Cons.prems(1) by (auto simp: bucket_invar_def bucket_ok_def)
  have "tick u tb0 \<le> tick now tb0" using tick_mono [of tb0 u now] Cons.prems(2) u pos by simp
  then have "in_range tb0 (tick u tb0) S" using in_range_mono [OF Cons.prems(6) _ order_refl] pos by simp
  moreover have "g + max 0 count \<le> S" using Cons.prems(4) asked_nonneg [of ts] unfolding r asked_simps by linarith
  ultimately have eq: "bucket_take u count maxWait tb = ((d, ok), tb1)"
    using take_exact_invar [OF Cons.prems(1,2) u(1) _ Cons.prems(5)] take by simp
  have inv: "bucket_invar tb0 u (g + (if ok \<and> 0 < count then count else 0)) tb1"
    by (rule bucket_take_invar [OF Cons.prems(1,2) u(1) take])
  have "bucket_run maxWait ts tb1 = ideal_run maxWait ts tb1"
    by (rule Cons.IH [OF inv]) (use Cons.prems u r in auto)
  then show ?case by (simp add: r take eq)
qed simp

subsection \<open>Properties\<close>

text \<open>
  The failure count a controller compares with its retry limit: over any history of failures
  and of forgotten items, whatever their order and however many other items are involved, the
  default limiter's \<^verbatim>\<open>NumRequeues\<close> of an item is the number of its failures since it was
  last forgotten. (The history has fewer events than the largest int.)
\<close>

theorem default_limiter_counts:
  assumes "int (length es) \<le> MaxInt64"
  shows "NumRequeues x (foldl (rl_handle (When conv) Forget) (DefaultControllerRateLimiter t0) es) = streak x 0 es"
proof -
  have "rl_counting (DefaultControllerRateLimiter t0 :: 'a rate_limiter)"
    by (simp add: rl_counting_def DefaultControllerRateLimiter_def
        NewItemExponentialFailureRateLimiter_def count_of_def)
  moreover have "NumRequeues y (DefaultControllerRateLimiter t0 :: 'a rate_limiter) = 0" for y
    by (simp add: DefaultControllerRateLimiter_def NewItemExponentialFailureRateLimiter_def
        expo_NumRequeues_def count_of_def)
  ultimately show ?thesis using rl.numRequeues_run [of _ es x conv] assms by simp
qed



text \<open>
  The exception to the capped backoff: a base delay that is a power of two makes the backoff
  exactly \<open>2 ^ 63\<close> after enough failures; that value passes the test against
  \<^verbatim>\<open>math.MaxInt64\<close>, so the delay is whatever the machine converts it to. Where that is the
  least int64, the limiter answers with a negative delay instead of the maximum.
\<close>

theorem exponential_backoff_overflow:
  assumes "ef_baseDelay r = 2 ^ k" and "expo_NumRequeues x r = 63 - int k" and "k < 53"
    and "0 \<le> ef_maxDelay r"
  shows "fst (expo_When (\<lambda>_. - (2 ^ 63)) x r) = - (2 ^ 63)"
proof -
  have n: "count_of (ef_failures r) x = 63 - int k" using assms(2) by (simp add: expo_NumRequeues_def)
  have "(2::int) ^ k < 2 ^ 53" using assms(3) by (rule power_strict_increasing) simp
  moreover have "nat (63 - int k) = 63 - k" by simp
  ultimately have "expo_backoff (ef_baseDelay r) (count_of (ef_failures r) x) = Some (2 ^ 63)"
    using assms(3) by (simp add: expo_backoff_small assms(1) n power_add [symmetric])
  then show ?thesis using assms(4) by (simp add: expo_When_def Let_def toDuration_def is_int64_def)
qed

theorem exponential_backoff_overflow_witness:
  "fst (expo_When (\<lambda>_. - (2 ^ 63)) (1::nat)
     \<lparr>ef_failures = [1 \<mapsto> 43], ef_baseDelay = 2 ^ 20, ef_maxDelay = 10 ^ 12\<rparr>) = - (2 ^ 63)"
  by (rule exponential_backoff_overflow [where k = 20]) (simp_all add: expo_NumRequeues_def count_of_def)

text \<open>
  C26. The bucket never gives more tokens than its rate allows: for requests at times that do not go
  back, the tokens granted up to and including a request that is told to wait \<open>d\<close> are at most
  the capacity plus the quantum times the ticks elapsed at the moment the wait ends. This is about the 64 bit
  arithmetic of the code, for sizes at which it does not wrap: \<open>T\<close> is the tick of the request and \<open>S\<close>
  the number of tokens asked for so far, the last request included.
\<close>

theorem bucket_rate_bound:
  assumes "NewBucketWithQuantum t0 fi cap q = Some tb0"
    and "sorted (t0 # map fst ts @ [now])"
    and "bucket_run maxWait ts tb0 = (g, tb)"
    and "0 < count" and "bucket_take now count maxWait tb = ((d, True), tb')"
    and "T = (now - t0) div fi" and "S = asked ts + count"
    and "cap + q * T < 2 ^ 63" and "q + S < 2 ^ 63" and "(T + S) * fi < 2 ^ 63"
  shows "0 \<le> d \<and> g + count \<le> cap + q * ((now + d - t0) div fi)"
proof -
  let ?t = "last (t0 # map fst ts)"
  have tb0: "startTime tb0 = t0" "capacity tb0 = cap" "quantum tb0 = q" "fillInterval tb0 = fi" "0 < fi"
    using assms(1) by (auto simp: NewBucketWithQuantum_def split: if_splits)
  have "?t \<in> set (t0 # map fst ts)" by (rule last_in_set) simp
  moreover have "\<forall>x \<in> set (t0 # map fst ts). t0 \<le> x \<and> x \<le> now"
    using assms(2) by (auto simp: sorted_append)
  ultimately have t: "startTime tb0 \<le> ?t" "?t \<le> now" using tb0 by blast+
  then have now: "t0 \<le> now" using tb0(1) by simp
  have tk: "tick x tb0 = (x - t0) div fi" if "t0 \<le> x" for x using that tb0 by (simp add: tick_def go_simps)
  have rng: "in_range tb0 (tick now tb0) S" using assms(6,8-10) tb0 tk [OF now] by (simp add: in_range_def)
  note new = NewBucket_invar [OF assms(1)]
  have S: "1 \<le> S" "0 + asked ts \<le> S" using assms(4,7) asked_nonneg [of ts] by linarith+
  have "bucket_run maxWait ts tb0 = ideal_run maxWait ts tb0"
    by (rule run_exact [OF new _ assms(2) S(2,1) rng]) (simp add: tb0)
  then have run: "ideal_run maxWait ts tb0 = (g, tb)" using assms(3) by simp
  have inv: "bucket_invar tb0 ?t g tb"
    using bucket_run_invar [OF new _ _ run] tb0 assms(2) by (auto simp: sorted_append)
  have "g \<le> asked ts" using granted_asked [of ideal_take maxWait ts tb0] run by simp
  then have "bucket_take now count maxWait tb = ideal_take now count maxWait tb"
    by (intro take_exact_invar [OF inv t _ _ rng]) (use assms(4,7) S in simp_all)
  then have take: "ideal_take now count maxWait tb = ((d, True), tb')" using assms(5) by simp
  have adj: "bucket_invar tb0 now g (snd (ideal_adjust now tb))"
    by (rule bucket_adjust_invar [OF inv t])
  have after: "bucket_invar tb0 now (g + count) tb'"
    using bucket_take_invar [OF inv t take] assms(4) by simp
  have st: "startTime tb0 \<le> now" "startTime tb = startTime tb0" "fillInterval tb = fillInterval tb0"
    using inv t by (auto simp: bucket_invar_def)
  from bucket_take_ready [OF adj st assms(4) take]
  have d: "0 \<le> d" "- avail tb' \<le> q * (tick (now + d) tb0 - tick now tb0)" using tb0 by auto
  have "g + count \<le> cap + q * availTick tb' - avail tb'" and "availTick tb' \<le> tick now tb0" and "0 < q"
    using after tb0 by (auto simp: bucket_invar_def credit_def bucket_ok_def)
  then have "g + count \<le> cap + q * tick now tb0 - avail tb'"
    by (smt (verit) mult_left_mono)
  with d show ?thesis using tk [of "now + d"] now by (simp add: right_diff_distrib)
qed

theorem bucket_rate_bound_witness:
  "\<exists>tb0 tb d tb'. NewBucketWithQuantum 0 10 2 1 = Some tb0 \<and> bucket_run 100 [(5, 2)] tb0 = (2, tb)
     \<and> bucket_take 5 1 100 tb = ((d, True), tb') \<and> 2 + 1 \<le> 2 + 1 * ((5 + d - 0) div 10)"
proof -
  define tb0 where "tb0 = the (NewBucketWithQuantum 0 10 2 1)"
  define tb where "tb = snd (bucket_run 100 [(5, 2)] tb0)"
  have new: "NewBucketWithQuantum 0 10 2 1 = Some tb0" by (simp add: NewBucketWithQuantum_def tb0_def)
  have run: "bucket_run 100 [(5, 2)] tb0 = (2, tb)"
    by (simp add: tb_def tb0_def NewBucketWithQuantum_def bucket_take_def bucket_adjust_def Let_def wrap64_def)
  have "\<exists>d tb'. bucket_take 5 1 100 tb = ((d, True), tb')"
    by (simp add: tb_def tb0_def NewBucketWithQuantum_def bucket_take_def bucket_adjust_def Let_def
        signed_divide_int_def wrap64_def time_Sub_def)
  then obtain d tb' where take: "bucket_take 5 1 100 tb = ((d, True), tb')" by blast
  have "2 + 1 \<le> 2 + 1 * ((5 + d - 0) div 10)"
    using bucket_rate_bound [OF new _ run _ take refl refl] by simp
  with new run take show ?thesis by blast
qed

text \<open>
  The ticks that pass while the bucket is full are not written off: after an idle period of
  \<open>cap\<close> ticks a bucket of capacity \<open>cap\<close> gives \<open>cap\<close> tokens without a wait, and at the same
  instant another \<open>cap\<close>, because \<^verbatim>\<open>adjust\<close> leaves \<^verbatim>\<open>availTick\<close> behind when
  the bucket is full.
\<close>

theorem bucket_double_burst:
  assumes "NewBucketWithQuantum t0 fi cap 1 = Some tb0" and "t0 + cap * fi \<le> now" and "now - t0 < 2 ^ 63"
  shows "\<exists>tb1 tb2. bucket_take now cap 0 tb0 = ((0, True), tb1) \<and> bucket_take now cap 0 tb1 = ((0, True), tb2)"
proof -
  have tb0: "tb0 = \<lparr>startTime = t0, capacity = cap, quantum = 1, fillInterval = fi, avail = cap, availTick = 0\<rparr>"
    and pos: "0 < cap" "0 < fi"
    using assms(1) by (auto simp: NewBucketWithQuantum_def split: if_splits)
  define tb1 where "tb1 = tb0\<lparr>avail := 0\<rparr>"
  have "0 \<le> cap * fi" using pos by simp
  then have "t0 \<le> now" using assms(2) by linarith
  then have sub: "time_Sub now t0 = now - t0" using assms(3) by (intro time_Sub_exact) (simp add: is_int64_def)
  let ?T = "(now - t0) div fi"
  have "(cap * fi) div fi \<le> ?T" using assms(2) pos by (intro zdiv_mono1) auto
  then have T: "cap \<le> ?T" "(now - t0) sdiv fi = ?T" using \<open>t0 \<le> now\<close> pos by (simp_all add: go_simps)
  have "?T * 1 \<le> ?T * fi" using T pos by (intro mult_left_mono) simp_all
  also have "\<dots> \<le> now - t0" by (rule div_bounds(1) [OF pos(2)])
  finally have "is_int64 ?T" using assms(3) T(1) pos by (simp add: is_int64_def)
  note w = wrap64_id [OF this]
  have adj: "snd (bucket_adjust now tb1) = tb1\<lparr>avail := cap, availTick := ?T\<rparr>"
    using pos T by (simp add: tb1_def tb0 bucket_adjust_def sub Let_def w)
  have z: "wrap64 0 = 0" by (simp add: wrap64_def)
  have 1: "bucket_take now cap 0 tb0 = ((0, True), tb1)"
    using pos by (simp add: tb1_def tb0 bucket_take_def bucket_adjust_def Let_def z)
  have 2: "bucket_take now cap 0 tb1 = ((0, True), tb1\<lparr>avail := 0, availTick := ?T\<rparr>)"
    using pos adj by (simp add: bucket_take_def Let_def case_prod_beta z)
  from 1 2 show ?thesis by blast
qed

theorem bucket_double_burst_witness:
  "\<exists>tb0 tb1 tb2. NewBucketWithQuantum 0 (10 ^ 8) 100 1 = Some tb0
     \<and> bucket_take (10 ^ 10) 100 0 tb0 = ((0, True), tb1)
     \<and> bucket_take (10 ^ 10) 100 0 tb1 = ((0, True), tb2)"
proof -
  obtain tb0 where new: "NewBucketWithQuantum 0 (10 ^ 8) 100 1 = Some tb0"
    by (simp add: NewBucketWithQuantum_def)
  then show ?thesis using bucket_double_burst [OF new, of "10 ^ 10"] by auto
qed

end
