(* ===== verification/DelayingQueue.thy ===== *)
theory DelayingQueue
  imports WorkQueue RateLimiters
begin

section \<open>The delaying and the rate limited queue (\<^verbatim>\<open>delaying_queue.go\<close>, \<^verbatim>\<open>rate_limitting_queue.go\<close>)\<close>

text \<open>
  A work queue with a second goroutine, \<^verbatim>\<open>waitingLoop\<close>, that holds items back until their
  time. The state has what both sides share: the wrapped queue, the channel from
  \<^verbatim>\<open>AddAfter\<close> to the loop, the loop's list and map of waiting entries, and where the loop
  stands. Each clock reading is an argument.
\<close>

subsection \<open>Waiting entries\<close>

record 'a waitFor =
  wf_data :: 'a
  wf_readyAt :: time

function findEntry_scan :: "'a waitFor list \<Rightarrow> 'a \<Rightarrow> nat \<Rightarrow> nat" where
  "findEntry_scan entries data index =
     (if index < length entries then
        if wf_data (entries ! index) = data then index
        else findEntry_scan entries data (index + 1)
      else index)"
  by pat_completeness auto
termination
  by (relation "measure (\<lambda>(entries, data, index). length entries - index)") auto

declare findEntry_scan.simps [simp del]

definition findEntryIndex :: "'a waitFor list \<Rightarrow> time \<Rightarrow> 'a \<Rightarrow> nat" where
  "findEntryIndex entries existingTime data =
     (let index = sort_Search (length entries)
        (\<lambda>i. wf_readyAt (entries ! i) > existingTime \<or> existingTime = wf_readyAt (entries ! i))
      in findEntry_scan entries data index)"

text \<open>Appending the tail to the head drops an entry; shifting the tail by one makes room for one.\<close>

definition remove_entry :: "'a waitFor list \<Rightarrow> time \<Rightarrow> 'a \<Rightarrow> 'a waitFor list" where
  "remove_entry entries existingTime data =
     (let existingIndex = findEntryIndex entries existingTime data
      in if existingIndex < length entries
         then take existingIndex entries @ drop (existingIndex + 1) entries else entries)"

definition insert_sorted :: "'a waitFor list \<Rightarrow> 'a waitFor \<Rightarrow> 'a waitFor list" where
  "insert_sorted entries entry =
     (let insertionIndex = sort_Search (length entries)
            (\<lambda>i. wf_readyAt entry < wf_readyAt (entries ! i))
      in take insertionIndex entries @ entry # drop insertionIndex entries)"

definition insert_entry ::
  "'a waitFor list \<Rightarrow> ('a \<rightharpoonup> time) \<Rightarrow> 'a waitFor \<Rightarrow> 'a waitFor list \<times> ('a \<rightharpoonup> time)" where
  "insert_entry entries knownEntries entry =
     (case knownEntries (wf_data entry) of
        None \<Rightarrow> (insert_sorted entries entry, knownEntries(wf_data entry \<mapsto> wf_readyAt entry))
      | Some existingTime \<Rightarrow>
          if existingTime < wf_readyAt entry then (entries, knownEntries)
          else (insert_sorted (remove_entry entries existingTime (wf_data entry)) entry,
                knownEntries(wf_data entry \<mapsto> wf_readyAt entry)))"

subsection \<open>The delaying queue\<close>

datatype loop_pc = AtTop | AtSelect | AtDrain | Returned

record 'a delaying =
  dq_queue :: "'a work_queue"
  dq_stopped :: bool
  waitingForAdd :: "'a waitFor list"
  waitingTimeByEntry :: "'a \<rightharpoonup> time"
  waitingForAddCh :: "'a waitFor list"
  dq_retries :: "int option"
  dq_pc :: loop_pc

definition newDelayingQueue :: "string \<Rightarrow> 'a delaying" where
  "newDelayingQueue name =
     \<lparr>dq_queue = queue_NewNamed name, dq_stopped = False, waitingForAdd = [],
      waitingTimeByEntry = Map.empty, waitingForAddCh = [],
      dq_retries = (if length name = 0 then None else Some 0), dq_pc = AtTop\<rparr>"

text \<open>Closing the closed stop channel panics (\<open>None\<close>).\<close>

definition delaying_ShutDown :: "'a delaying \<Rightarrow> 'a delaying option" where
  "delaying_ShutDown q =
     (let q' = q\<lparr>dq_queue := queue_ShutDown (dq_queue q)\<rparr>
      in if dq_stopped q then None else Some (q'\<lparr>dq_stopped := True\<rparr>))"

text \<open>
  \<open>None\<close> while the send on the channel, which buffers 1000 entries, would block.
\<close>

definition delaying_AddAfter :: "time \<Rightarrow> 'a \<Rightarrow> duration \<Rightarrow> 'a delaying \<Rightarrow> 'a delaying option" where
  "delaying_AddAfter now item duration q =
     (if queue_ShuttingDown (dq_queue q) then Some q
      else
        let q = q\<lparr>dq_retries := map_option (\<lambda>n. n + 1) (dq_retries q)\<rparr>
        in if duration \<le> 0 then Some (q\<lparr>dq_queue := queue_Add now item (dq_queue q)\<rparr>)
           else if dq_stopped q then Some q
           else if length (waitingForAddCh q) < 1000
           then Some (q\<lparr>waitingForAddCh :=
                        waitingForAddCh q @ [\<lparr>wf_data = item, wf_readyAt = now + duration\<rparr>]\<rparr>)
           else None)"

text \<open>The loop over the waiting entries up to the first that is not ready.\<close>

fun add_ready ::
  "time \<Rightarrow> 'a waitFor list \<Rightarrow> 'a work_queue \<Rightarrow> ('a \<rightharpoonup> time) \<Rightarrow> nat \<Rightarrow> 'a work_queue \<times> ('a \<rightharpoonup> time) \<times> nat"
where
  "add_ready now [] q known readyEntries = (q, known, readyEntries)"
| "add_ready now (entry # entries) q known readyEntries =
     (if wf_readyAt entry > now then (q, known, readyEntries)
      else add_ready now entries (queue_Add now (wf_data entry) q)
             (known(wf_data entry := None)) (readyEntries + 1))"

definition loop_top :: "time \<Rightarrow> 'a delaying \<Rightarrow> 'a delaying" where
  "loop_top now q =
     (if queue_ShuttingDown (dq_queue q)
      then q\<lparr>waitingForAdd := [], waitingTimeByEntry := Map.empty, dq_pc := Returned\<rparr>
      else
        let (wq, known, readyEntries) =
              add_ready now (waitingForAdd q) (dq_queue q) (waitingTimeByEntry q) 0
        in q\<lparr>dq_queue := wq, waitingTimeByEntry := known,
             waitingForAdd := drop readyEntries (waitingForAdd q), dq_pc := AtSelect\<rparr>)"

definition loop_receive :: "time \<Rightarrow> 'a waitFor \<Rightarrow> 'a delaying \<Rightarrow> 'a delaying" where
  "loop_receive now waitEntry q =
     (if wf_readyAt waitEntry > now then
        let (entries, known) = insert_entry (waitingForAdd q) (waitingTimeByEntry q) waitEntry
        in q\<lparr>waitingForAdd := entries, waitingTimeByEntry := known\<rparr>
      else q\<lparr>dq_queue := queue_Add now (wf_data waitEntry) (dq_queue q)\<rparr>)"

subsection \<open>The steps of the loop and of its environment\<close>

datatype 'a dq_event = Queue "'a wq_event" | AddAfter 'a duration | ShutDown | Loop

inductive dq_step :: "'a delaying \<Rightarrow> 'a dq_event \<Rightarrow> 'a delaying \<Rightarrow> bool" where
  env_queue: "wq_step (dq_queue q) e wq' \<Longrightarrow> e \<noteq> EShutDown \<Longrightarrow> dq_step q (Queue e) (q\<lparr>dq_queue := wq'\<rparr>)"
| env_after: "delaying_AddAfter now x d q = Some q' \<Longrightarrow> dq_step q (AddAfter x d) q'"
| env_shut: "delaying_ShutDown q = Some q' \<Longrightarrow> dq_step q ShutDown q'"
| loop_head: "dq_pc q = AtTop \<Longrightarrow> dq_step q Loop (loop_top now q)"
| loop_stop: "dq_pc q = AtSelect \<Longrightarrow> dq_stopped q \<Longrightarrow> dq_step q Loop (q\<lparr>dq_pc := Returned\<rparr>)"
| loop_tick: "dq_pc q = AtSelect \<Longrightarrow> dq_step q Loop (q\<lparr>dq_pc := AtTop\<rparr>)"
| loop_recv: "dq_pc q = AtSelect \<or> dq_pc q = AtDrain \<Longrightarrow> waitingForAddCh q = e # rest \<Longrightarrow>
     dq_step q Loop (loop_receive now e (q\<lparr>waitingForAddCh := rest, dq_pc := AtDrain\<rparr>))"
| loop_drained: "dq_pc q = AtDrain \<Longrightarrow> waitingForAddCh q = [] \<Longrightarrow> dq_step q Loop (q\<lparr>dq_pc := AtTop\<rparr>)"

inductive dq_run :: "'a delaying \<Rightarrow> 'a dq_event list \<Rightarrow> 'a delaying \<Rightarrow> bool" where
  dq_run_nil: "dq_run q [] q"
| dq_run_cons: "dq_step q e q' \<Longrightarrow> dq_run q' es q'' \<Longrightarrow> dq_run q (e # es) q''"

subsection \<open>The rate limited queue\<close>

record 'a rateLimitingType =
  rq_delaying :: "'a delaying"
  rq_limiter :: "'a rate_limiter"

definition AddRateLimited :: "float_conv \<Rightarrow> time \<Rightarrow> 'a \<Rightarrow> 'a rateLimitingType \<Rightarrow> 'a rateLimitingType option" where
  "AddRateLimited conv now item q =
     (let (d, l) = When conv now item (rq_limiter q)
      in map_option (\<lambda>dq. q\<lparr>rq_delaying := dq, rq_limiter := l\<rparr>)
           (delaying_AddAfter now item d (rq_delaying q)))"

definition rateLimiting_NumRequeues :: "'a \<Rightarrow> 'a rateLimitingType \<Rightarrow> int" where
  "rateLimiting_NumRequeues item q = NumRequeues item (rq_limiter q)"

definition rateLimiting_Forget :: "'a \<Rightarrow> 'a rateLimitingType \<Rightarrow> 'a rateLimitingType" where
  "rateLimiting_Forget item q = q\<lparr>rq_limiter := Forget item (rq_limiter q)\<rparr>"

subsection \<open>The waiting list is sorted, without duplicates, and the map mirrors it\<close>

definition entry_pairs :: "'a waitFor list \<Rightarrow> ('a \<times> time) list" where
  "entry_pairs es = map (\<lambda>e. (wf_data e, wf_readyAt e)) es"

definition entries_ok :: "'a waitFor list \<Rightarrow> ('a \<rightharpoonup> time) \<Rightarrow> bool" where
  "entries_ok es known \<longleftrightarrow>
     sorted (map wf_readyAt es) \<and> distinct (map wf_data es) \<and> known = map_of (entry_pairs es)"

lemma map_fst_entry_pairs [simp]: "map fst (entry_pairs es) = map wf_data es"
  by (simp add: entry_pairs_def)

lemma entry_pairs_append [simp]: "entry_pairs (xs @ ys) = entry_pairs xs @ entry_pairs ys"
  by (simp add: entry_pairs_def)

lemma entry_pairs_Cons [simp]: "entry_pairs (e # es) = (wf_data e, wf_readyAt e) # entry_pairs es"
  by (simp add: entry_pairs_def)

lemma findEntry_scan_hit:
  assumes "i < length es" and "wf_data (es ! i) = d" and "\<And>j. k \<le> j \<Longrightarrow> j < i \<Longrightarrow> wf_data (es ! j) \<noteq> d"
    and "k \<le> i"
  shows "findEntry_scan es d k = i"
  using assms
proof (induction es d k rule: findEntry_scan.induct)
  case (1 es d k)
  show ?case
  proof (cases "k = i")
    case True
    then show ?thesis using "1.prems" by (subst findEntry_scan.simps) simp
  next
    case False
    then have "k < i" using "1.prems"(4) by simp
    then have "findEntry_scan es d (k + 1) = i"
      using "1.prems" by (intro "1.IH") auto
    then show ?thesis using "1.prems" \<open>k < i\<close> by (simp add: findEntry_scan.simps [of es d k])
  qed
qed

lemma sorted_mono: "sorted (map f es) \<Longrightarrow> i \<le> j \<Longrightarrow> j < length es \<Longrightarrow> f (es ! i) \<le> f (es ! j)"
  using sorted_nth_mono [of "map f es" i j] by simp

lemma findEntryIndex_hit:
  assumes ok: "entries_ok es known" and "i < length es"
    and i: "wf_data (es ! i) = d" "wf_readyAt (es ! i) = t"
  shows "findEntryIndex es t d = i"
proof -
  let ?f = "\<lambda>k. wf_readyAt (es ! k) > t \<or> t = wf_readyAt (es ! k)"
  have mono: "?f l" if "k \<le> l" "l < length es" "?f k" for k l
    using sorted_mono [of wf_readyAt es k l] ok that by (auto simp: entries_ok_def)
  have "sort_Search (length es) ?f \<le> i"
  proof (rule ccontr)
    assume "\<not> ?thesis"
    then have "i < sort_Search (length es) ?f" by simp
    from sort_Search_below [of "length es" ?f, OF mono this] i show False by simp
  qed
  moreover have "wf_data (es ! j) \<noteq> d" if "j < i" for j
    using ok that assms(2) i by (auto simp: entries_ok_def distinct_conv_nth)
  ultimately show ?thesis
    using assms(2) i by (auto simp: findEntryIndex_def Let_def intro: findEntry_scan_hit)
qed

text \<open>Removing the entry of an item, then inserting after the entries that are not later.\<close>

lemma remove_entry_ok:
  assumes ok: "entries_ok es known" and "known d = Some t"
  shows "entries_ok (remove_entry es t d) (known(d := None))"
proof -
  define i where "i = findEntryIndex es t d"
  from ok \<open>known d = Some t\<close> have "(d, t) \<in> set (entry_pairs es)"
    by (auto simp: entries_ok_def dest: map_of_SomeD)
  then obtain k where k: "k < length es" "wf_data (es ! k) = d" "wf_readyAt (es ! k) = t"
    by (auto simp: entry_pairs_def in_set_conv_nth)
  then have i: "i = k" using findEntryIndex_hit [OF ok k(1)] by (simp add: i_def)
  have split: "es = take i es @ es ! i # drop (i + 1) es"
    using k i by (metis Suc_eq_plus1 id_take_nth_drop)
  have dist: "distinct (map wf_data (take i es @ es ! i # drop (i + 1) es))"
    and srt: "sorted (map wf_readyAt (take i es @ es ! i # drop (i + 1) es))"
    and known: "known = map_of (entry_pairs (take i es @ es ! i # drop (i + 1) es))"
    using ok split by (simp_all add: entries_ok_def)
  have "map_of (entry_pairs (take i es @ drop (i + 1) es)) = known(d := None)"
    using dist known k(2) i map_of_middle_delete [of d "entry_pairs (take i es)" "entry_pairs (drop (i + 1) es)"]
    by (simp add: entry_pairs_def image_image)
  then show "entries_ok (remove_entry es t d) (known(d := None))"
    using dist srt k(1) i by (simp add: entries_ok_def sorted_append remove_entry_def flip: i_def)
qed

lemma insert_sorted_ok:
  assumes ok: "entries_ok es known" and new: "known (wf_data e) = None"
  shows "entries_ok (insert_sorted es e) (known(wf_data e \<mapsto> wf_readyAt e))"
proof -
  define k where "k = sort_Search (length es) (\<lambda>i. wf_readyAt e < wf_readyAt (es ! i))"
  let ?f = "\<lambda>i. wf_readyAt e < wf_readyAt (es ! i)"
  have mono: "?f l" if "j \<le> l" "l < length es" "?f j" for j l
    using sorted_mono [of wf_readyAt es j l] ok that by (auto simp: entries_ok_def)
  have k: "k \<le> length es" unfolding k_def by (rule sort_Search_le)
  have low: "wf_readyAt x \<le> wf_readyAt e" if "x \<in> set (take k es)" for x
  proof -
    from that obtain j where "j < k" "x = es ! j" by (auto simp: in_set_conv_nth)
    then show ?thesis using sort_Search_below [of "length es" ?f, OF mono] by (auto simp: k_def not_less)
  qed
  have high: "wf_readyAt e \<le> wf_readyAt x" if "x \<in> set (drop k es)" for x
  proof -
    from that obtain j where "k + j < length es" "x = es ! (k + j)"
      using k by (auto simp: in_set_conv_nth less_diff_conv add.commute)
    moreover have "?f (k + j)"
      by (rule sort_Search_above [of "length es" ?f])
        (use mono \<open>k + j < length es\<close> in \<open>auto simp: k_def\<close>)
    ultimately show ?thesis by simp
  qed
  have new': "wf_data e \<notin> wf_data ` set es"
    using ok new by (auto simp: entries_ok_def map_of_eq_None_iff entry_pairs_def image_image)
  have parts: "sorted (map wf_readyAt (take k es @ drop k es))" "distinct (map wf_data (take k es @ drop k es))"
    "known = map_of (entry_pairs (take k es @ drop k es))"
    using ok by (simp_all add: entries_ok_def)
  have notin: "wf_data e \<notin> wf_data ` set (take k es)" "wf_data e \<notin> wf_data ` set (drop k es)"
    using new' by (auto dest: in_set_takeD in_set_dropD)
  then have "wf_data e \<notin> fst ` set (entry_pairs (take k es))"
    by (simp add: entry_pairs_def image_image)
  from map_of_middle [OF this]
  have "map_of (entry_pairs (take k es @ e # drop k es)) = known(wf_data e \<mapsto> wf_readyAt e)"
    unfolding parts(3) by (simp only: entry_pairs_append entry_pairs_Cons)
  moreover have "sorted (map wf_readyAt (take k es @ e # drop k es))"
    using parts(1) low high unfolding map_append sorted_append by (auto intro: order_trans)
  moreover have "distinct (map wf_data (take k es @ e # drop k es))"
    using parts(2) notin unfolding map_append distinct_append by auto
  ultimately show ?thesis by (simp add: entries_ok_def insert_sorted_def Let_def flip: k_def)
qed

text \<open>The insertion keeps the earlier of two times for an item and touches no other item.\<close>

lemma insert_entry_spec:
  assumes "entries_ok es known" and "insert_entry es known e = (es', known')"
  shows "entries_ok es' known'
    \<and> known' = known(wf_data e \<mapsto>
        (case known (wf_data e) of None \<Rightarrow> wf_readyAt e | Some t \<Rightarrow> min t (wf_readyAt e)))"
proof (cases "known (wf_data e)")
  case None
  with assms insert_sorted_ok [OF assms(1) None] show ?thesis
    by (auto simp: insert_entry_def)
next
  case (Some t)
  have "entries_ok (insert_sorted (remove_entry es t (wf_data e)) e) (known(wf_data e \<mapsto> wf_readyAt e))"
    using insert_sorted_ok [OF remove_entry_ok [OF assms(1) Some], of e] by simp
  with Some assms show ?thesis
    by (cases "t < wf_readyAt e") (auto simp: insert_entry_def min_def)
qed

lemma add_ready_spec:
  assumes "entries_ok es known" and "\<not> queue_ShuttingDown q"
    and "add_ready now es q known n = (q', known', m)"
  shows "entries_ok (drop (m - n) es) known' \<and> n \<le> m
    \<and> q' = fold (queue_Add now) (map wf_data (takeWhile (\<lambda>e. wf_readyAt e \<le> now) es)) q
    \<and> (\<forall>d. known' d = (case known d of None \<Rightarrow> None | Some t \<Rightarrow> if t \<le> now then None else Some t))"
  using assms
proof (induction now es q known n rule: add_ready.induct)
  case (1 now q known n)
  then show ?case by (auto simp: entries_ok_def entry_pairs_def)
next
  case (2 now e es q known n)
  show ?case
  proof (cases "wf_readyAt e > now")
    case True
    then have late: "\<forall>x \<in> set (e # es). now < wf_readyAt x"
      using "2.prems"(1) by (auto simp: entries_ok_def)
    have "known d = (case known d of None \<Rightarrow> None | Some t \<Rightarrow> if t \<le> now then None else Some t)" for d
    proof (cases "known d")
      case (Some t)
      then have "(d, t) \<in> set (entry_pairs (e # es))"
        using "2.prems"(1) map_of_SomeD [of "entry_pairs (e # es)" d t] by (simp add: entries_ok_def)
      then have "now < t" using late by (auto simp: entry_pairs_def)
      with Some show ?thesis by simp
    qed simp
    with True "2.prems" show ?thesis by simp
  next
    case False
    have ok: "entries_ok es (known(wf_data e := None))"
      using "2.prems"(1) map_of_middle_delete [of "wf_data e" "[]" "entry_pairs es" "wf_readyAt e"]
      by (auto simp: entries_ok_def entry_pairs_def image_image)
    have open_q: "\<not> queue_ShuttingDown (queue_Add now (wf_data e) q)"
      using "2.prems"(2) by (simp add: wq.shuttingDown_add)
    have rec: "add_ready now es (queue_Add now (wf_data e) q) (known(wf_data e := None)) (n + 1) = (q', known', m)"
      using "2.prems"(3) False by simp
    have e: "known (wf_data e) = Some (wf_readyAt e)"
      using "2.prems"(1) by (simp add: entries_ok_def)
    from "2.IH" [OF False ok open_q rec]
    have rest: "entries_ok (drop (m - (n + 1)) es) known'" and m: "n + 1 \<le> m"
      and q': "q' = fold (queue_Add now) (map wf_data (takeWhile (\<lambda>e. wf_readyAt e \<le> now) es))
            (queue_Add now (wf_data e) q)"
      and known': "\<And>d. known' d = (case (known(wf_data e := None)) d of None \<Rightarrow> None
            | Some t \<Rightarrow> if t \<le> now then None else Some t)"
      by blast+
    have "m - n = Suc (m - (n + 1))" using m by simp
    then have es: "entries_ok (drop (m - n) (e # es)) known'" using rest by simp
    have adds: "q' = fold (queue_Add now) (map wf_data (takeWhile (\<lambda>e. wf_readyAt e \<le> now) (e # es))) q"
      using q' False by simp
    have kn: "known' d = (case known d of None \<Rightarrow> None | Some t \<Rightarrow> if t \<le> now then None else Some t)" for d
      using e False by (subst known') auto
    show ?thesis by (intro conjI allI es adds kn) (use m in simp)
  qed
qed

subsection \<open>Invariant of the whole queue\<close>

definition dq_inv :: "'a delaying \<Rightarrow> bool" where
  "dq_inv q \<longleftrightarrow> wq_inv (dq_queue q) \<and> entries_ok (waitingForAdd q) (waitingTimeByEntry q)
     \<and> length (waitingForAddCh q) \<le> 1000 \<and> (dq_stopped q \<longrightarrow> queue_ShuttingDown (dq_queue q))"

lemma dq_inv_new: "dq_inv (newDelayingQueue name)"
  by (simp add: dq_inv_def newDelayingQueue_def wq_inv_New entries_ok_def entry_pairs_def)

lemma dq_inv_AddAfter [inv_intros]:
  "dq_inv q \<Longrightarrow> delaying_AddAfter now x d q = Some q' \<Longrightarrow> dq_inv q'"
  by (auto simp: dq_inv_def delaying_AddAfter_def Let_def wq.shuttingDown_add
      intro: wq_inv_Add split: if_splits)

lemma dq_inv_ShutDown [inv_intros]: "dq_inv q \<Longrightarrow> delaying_ShutDown q = Some q' \<Longrightarrow> dq_inv q'"
  by (auto simp: dq_inv_def delaying_ShutDown_def Let_def wq.shuttingDown_shutDown
      intro: wq_inv_ShutDown split: if_splits)

lemma loop_top_open:
  assumes "dq_inv q" and "\<not> queue_ShuttingDown (dq_queue q)"
  shows "\<exists>known m. loop_top now q = q\<lparr>dq_queue := fold (queue_Add now)
        (map wf_data (takeWhile (\<lambda>e. wf_readyAt e \<le> now) (waitingForAdd q))) (dq_queue q),
      waitingTimeByEntry := known, waitingForAdd := drop m (waitingForAdd q), dq_pc := AtSelect\<rparr>
    \<and> entries_ok (drop m (waitingForAdd q)) known
    \<and> (\<forall>d. known d = (case waitingTimeByEntry q d of None \<Rightarrow> None
           | Some t \<Rightarrow> if t \<le> now then None else Some t))"
proof -
  obtain wq known m where r: "add_ready now (waitingForAdd q) (dq_queue q) (waitingTimeByEntry q) 0 = (wq, known, m)"
    by (metis surj_pair)
  from assms(1) have "entries_ok (waitingForAdd q) (waitingTimeByEntry q)" by (simp add: dq_inv_def)
  note spec = add_ready_spec [OF this assms(2) r]
  show ?thesis
  proof (intro exI conjI)
    show "loop_top now q = q\<lparr>dq_queue := fold (queue_Add now)
        (map wf_data (takeWhile (\<lambda>e. wf_readyAt e \<le> now) (waitingForAdd q))) (dq_queue q),
      waitingTimeByEntry := known, waitingForAdd := drop m (waitingForAdd q), dq_pc := AtSelect\<rparr>"
      using spec r assms(2) by (simp add: loop_top_def)
    show "entries_ok (drop m (waitingForAdd q)) known" using spec by simp
  qed (use spec in blast)
qed

lemma dq_inv_loop_top [inv_intros]:
  assumes "dq_inv q"
  shows "dq_inv (loop_top now q)"
proof (cases "queue_ShuttingDown (dq_queue q)")
  case True
  with assms show ?thesis by (simp add: dq_inv_def loop_top_def entries_ok_def entry_pairs_def)
next
  case False
  obtain known m where eq: "loop_top now q = q\<lparr>dq_queue := fold (queue_Add now)
        (map wf_data (takeWhile (\<lambda>e. wf_readyAt e \<le> now) (waitingForAdd q))) (dq_queue q),
      waitingTimeByEntry := known, waitingForAdd := drop m (waitingForAdd q), dq_pc := AtSelect\<rparr>"
    and "entries_ok (drop m (waitingForAdd q)) known"
    using loop_top_open [OF assms False, of now] by blast
  then show ?thesis
    using assms False by (simp add: dq_inv_def wq.shuttingDown_adds wq.invar_adds)
qed

lemma dq_inv_receive [inv_intros]:
  assumes "dq_inv q"
  shows "dq_inv (loop_receive now e q)"
proof -
  obtain es known where ins: "insert_entry (waitingForAdd q) (waitingTimeByEntry q) e = (es, known)"
    by fastforce
  have "entries_ok (waitingForAdd q) (waitingTimeByEntry q)" using assms by (simp add: dq_inv_def)
  from insert_entry_spec [OF this ins] assms ins show ?thesis
    by (auto simp: dq_inv_def loop_receive_def wq.shuttingDown_add intro: wq_inv_Add)
qed

lemma wq_step_shuttingDown:
  "wq_step q e q' \<Longrightarrow> e \<noteq> EShutDown \<Longrightarrow> queue_ShuttingDown q' = queue_ShuttingDown q"
  by (induction rule: wq_step.induct)
    (auto simp: queue_ShuttingDown_def queue_Add_def queue_Done_def Let_def
      dest!: queue_Get_item queue_Get_shutdown)

lemma dq_step_inv [inv_intros]: "dq_step q e q' \<Longrightarrow> dq_inv q \<Longrightarrow> dq_inv q'"
proof (induction rule: dq_step.induct)
  case (env_queue q e wq')
  then show ?case
    using wq_step_inv [OF env_queue(1)] wq_step_shuttingDown [OF env_queue(1,2)] by (simp add: dq_inv_def)
next
  case (loop_recv q e rest now)
  then have "dq_inv (q\<lparr>waitingForAddCh := rest, dq_pc := AtDrain\<rparr>)" by (simp add: dq_inv_def)
  then show ?case by (rule dq_inv_receive)
next
  case (env_after now x d q q')
  then show ?case by (blast intro: dq_inv_AddAfter)
next
  case (env_shut q q')
  then show ?case by (blast intro: dq_inv_ShutDown)
next
  case (loop_head q now)
  then show ?case by (blast intro: dq_inv_loop_top)
qed (simp_all add: dq_inv_def)

lemma dq_run_inv [inv_intros]: "dq_run q es q' \<Longrightarrow> dq_inv q \<Longrightarrow> dq_inv q'"
  by (induction rule: dq_run.induct) (auto intro: dq_step_inv)

subsection \<open>What was promised is kept\<close>

text \<open>An item is promised while it is in the channel, waiting, or to be processed.\<close>

definition promised :: "'a delaying \<Rightarrow> 'a set" where
  "promised q = wf_data ` set (waitingForAddCh q) \<union> dom (waitingTimeByEntry q) \<union> wq_dirty (dq_queue q)"

lemma entries_ok_dom: "entries_ok es known \<Longrightarrow> dom known = wf_data ` set es"
  by (auto simp: entries_ok_def entry_pairs_def dom_map_of_conv_image_fst image_image)

lemma entries_ok_entry: "entries_ok es known \<Longrightarrow> known d = Some t \<longleftrightarrow> (\<exists>e \<in> set es. wf_data e = d \<and> wf_readyAt e = t)"
  by (auto simp: entries_ok_def entry_pairs_def image_iff map_of_eq_Some_iff comp_def)

lemma takeWhile_ready:
  assumes "sorted (map wf_readyAt es)"
  shows "set (takeWhile (\<lambda>e. wf_readyAt e \<le> now) es) = {e \<in> set es. wf_readyAt e \<le> now}"
  using assms by (induction es) auto

lemma loop_top_ready:
  assumes "dq_inv q" and "\<not> queue_ShuttingDown (dq_queue q)"
  shows "wq_dirty (dq_queue (loop_top now q))
      = wq_dirty (dq_queue q) \<union> {d. \<exists>t \<le> now. waitingTimeByEntry q d = Some t}"
    and "waitingTimeByEntry (loop_top now q) d = Some t \<longleftrightarrow> waitingTimeByEntry q d = Some t \<and> now < t"
    and "waitingForAddCh (loop_top now q) = waitingForAddCh q"
    and "queue_ShuttingDown (dq_queue (loop_top now q)) = False"
proof -
  obtain known m where eq: "loop_top now q = q\<lparr>dq_queue := fold (queue_Add now)
        (map wf_data (takeWhile (\<lambda>e. wf_readyAt e \<le> now) (waitingForAdd q))) (dq_queue q),
      waitingTimeByEntry := known, waitingForAdd := drop m (waitingForAdd q), dq_pc := AtSelect\<rparr>"
    and known: "\<And>d. known d = (case waitingTimeByEntry q d of None \<Rightarrow> None
           | Some t \<Rightarrow> if t \<le> now then None else Some t)"
    using loop_top_open [OF assms, of now] by blast
  have ok: "entries_ok (waitingForAdd q) (waitingTimeByEntry q)" using assms(1) by (simp add: dq_inv_def)
  then have "set (map wf_data (takeWhile (\<lambda>e. wf_readyAt e \<le> now) (waitingForAdd q)))
      = {d. \<exists>t \<le> now. waitingTimeByEntry q d = Some t}"
    using entries_ok_entry [OF ok] by (auto simp: entries_ok_def takeWhile_ready)
  then show "wq_dirty (dq_queue (loop_top now q))
      = wq_dirty (dq_queue q) \<union> {d. \<exists>t \<le> now. waitingTimeByEntry q d = Some t}"
    using assms(2) eq by (simp add: wq.needs_adds)
  show "waitingTimeByEntry (loop_top now q) d = Some t \<longleftrightarrow> waitingTimeByEntry q d = Some t \<and> now < t"
    using eq known by (auto split: option.splits if_splits)
  show "waitingForAddCh (loop_top now q) = waitingForAddCh q" using eq by simp
  show "queue_ShuttingDown (dq_queue (loop_top now q)) = False"
    using eq assms(2) by (simp add: wq.shuttingDown_adds)
qed

lemma promised_loop_top:
  assumes "dq_inv q" and "\<not> queue_ShuttingDown (dq_queue q)" and "x \<in> promised q"
  shows "x \<in> promised (loop_top now q)"
  using assms(3) loop_top_ready [OF assms(1,2), of now]
  by (auto simp: promised_def dom_def not_less)

lemma promised_receive:
  assumes "dq_inv q" and "\<not> queue_ShuttingDown (dq_queue q)" and "x \<in> insert (wf_data e) (promised q)"
  shows "x \<in> promised (loop_receive now e q)"
proof -
  obtain es known where ins: "insert_entry (waitingForAdd q) (waitingTimeByEntry q) e = (es, known)"
    by fastforce
  have "entries_ok (waitingForAdd q) (waitingTimeByEntry q)" using assms by (simp add: dq_inv_def)
  from insert_entry_spec [OF this ins] have "dom known = insert (wf_data e) (dom (waitingTimeByEntry q))"
    by simp
  with assms(2,3) ins show ?thesis
    by (auto simp: promised_def loop_receive_def wq.needs_add)
qed

lemma dq_step_promised:
  assumes "dq_step q e q'" and "dq_inv q" and "x \<in> promised q"
    and "\<not> queue_ShuttingDown (dq_queue q)" and "e \<noteq> Queue (EGet x)"
  shows "x \<in> promised q'"
  using assms
proof (induction rule: dq_step.induct)
  case (env_queue q e wq')
  then show ?case using wq_step_dirty [OF env_queue(1), of x] by (auto simp: promised_def)
next
  case (env_after now y d q q')
  then show ?case
    by (auto simp: promised_def delaying_AddAfter_def Let_def wq.needs_add split: if_splits)
next
  case (env_shut q q')
  then show ?case
    by (auto simp: promised_def delaying_ShutDown_def Let_def wq.needs_shutDown split: if_splits)
next
  case (loop_head q now)
  then show ?case by (blast intro: promised_loop_top)
next
  case (loop_recv q e rest now)
  let ?q = "q\<lparr>waitingForAddCh := rest, dq_pc := AtDrain\<rparr>"
  have "dq_inv ?q" "\<not> queue_ShuttingDown (dq_queue ?q)" "x \<in> insert (wf_data e) (promised ?q)"
    using loop_recv by (auto simp: dq_inv_def promised_def)
  then show ?case by (rule promised_receive)
qed (simp_all add: promised_def)

lemma dq_step_open:
  "dq_step q e q' \<Longrightarrow> \<not> queue_ShuttingDown (dq_queue q') \<Longrightarrow> \<not> queue_ShuttingDown (dq_queue q)"
proof (induction rule: dq_step.induct)
  case (env_queue q e wq')
  then show ?case using wq_step_shuttingDown [OF env_queue(1,2)] by simp
next
  case (env_shut q q')
  then show ?case
    by (auto simp: delaying_ShutDown_def Let_def wq.shuttingDown_shutDown split: if_splits)
next
  case (loop_recv q e rest now)
  then show ?case
    by (auto simp: loop_receive_def wq.shuttingDown_add split: if_splits prod.splits)
qed (auto simp: delaying_AddAfter_def loop_top_def Let_def split: if_splits)

lemma dq_run_open:
  "dq_run q es q' \<Longrightarrow> \<not> queue_ShuttingDown (dq_queue q') \<Longrightarrow> \<not> queue_ShuttingDown (dq_queue q)"
  by (induction rule: dq_run.induct) (auto dest: dq_step_open)

lemma dq_run_promised:
  "dq_run q es q' \<Longrightarrow> dq_inv q \<Longrightarrow> x \<in> promised q \<Longrightarrow> \<not> queue_ShuttingDown (dq_queue q') \<Longrightarrow>
   Queue (EGet x) \<notin> set es \<Longrightarrow> x \<in> promised q'"
proof (induction rule: dq_run.induct)
  case (dq_run_cons q e q' es q'')
  have "\<not> queue_ShuttingDown (dq_queue q')"
    by (rule dq_run_open [OF dq_run_cons.hyps(2) dq_run_cons.prems(3)])
  then have "\<not> queue_ShuttingDown (dq_queue q)" by (rule dq_step_open [OF dq_run_cons.hyps(1)])
  then have "x \<in> promised q'"
    using dq_step_promised [OF dq_run_cons.hyps(1)] dq_run_cons.prems by auto
  then show ?case
    using dq_run_cons dq_step_inv [OF dq_run_cons.hyps(1)] by simp
qed

subsection \<open>Properties\<close>

text \<open>
  The sorted waiting list: inserting an entry into a list that is sorted by time, without two
  entries for one item and mirrored by the map of known times keeps it so; the item's time
  becomes the earlier of its old and its new one, and no other item's entry changes. The two
  binary searches, the scan for the duplicate, the removal and the shift are the code's.
\<close>

theorem delaying_insert:
  assumes "entries_ok es known" and "insert_entry es known e = (es', known')"
  shows "sorted (map wf_readyAt es') \<and> distinct (map wf_data es')
    \<and> known' = map_of (map (\<lambda>e. (wf_data e, wf_readyAt e)) es')
    \<and> known' = known(wf_data e \<mapsto>
        (case known (wf_data e) of None \<Rightarrow> wf_readyAt e | Some t \<Rightarrow> min t (wf_readyAt e)))"
  using insert_entry_spec [OF assms] unfolding entries_ok_def entry_pairs_def by blast

theorem delaying_insert_witness:
  "\<exists>es' known'. insert_entry [\<lparr>wf_data = ''a'', wf_readyAt = 3\<rparr>, \<lparr>wf_data = ''b'', wf_readyAt = 9\<rparr>]
       [''a'' \<mapsto> 3, ''b'' \<mapsto> 9] \<lparr>wf_data = ''b'', wf_readyAt = 1\<rparr> = (es', known')
     \<and> sorted (map wf_readyAt es') \<and> known' ''b'' = Some 1"
proof -
  let ?es = "[\<lparr>wf_data = ''a'', wf_readyAt = 3\<rparr>, \<lparr>wf_data = ''b'', wf_readyAt = 9\<rparr>]"
    and ?known = "[''a'' \<mapsto> 3, ''b'' \<mapsto> 9]" and ?e = "\<lparr>wf_data = ''b'', wf_readyAt = 1\<rparr>"
  have ok: "entries_ok ?es ?known" by (simp add: entries_ok_def entry_pairs_def fun_eq_iff)
  obtain es' known' where ins: "insert_entry ?es ?known ?e = (es', known')" by (metis surj_pair)
  note res = delaying_insert [OF ok ins]
  then have "known' = ?known(wf_data ?e \<mapsto>
      (case ?known (wf_data ?e) of None \<Rightarrow> wf_readyAt ?e | Some t \<Rightarrow> min t (wf_readyAt ?e)))" by blast
  then have "known' ''b'' = Some 1" by simp
  with ins res show ?thesis by blast
qed

text \<open>
  Delayed items are added on time: an iteration of the loop at time \<open>now\<close> makes dirty exactly
  the waiting items whose time has come, and keeps waiting exactly those whose time is later.
  Stopping at the first entry that is not ready misses none, because the list stays sorted in
  every run of the queue, its loop, its producers and its workers.
\<close>

theorem delaying_on_time:
  assumes "dq_run (newDelayingQueue name) es q" and "\<not> queue_ShuttingDown (dq_queue q)"
  shows "wq_dirty (dq_queue (loop_top now q))
      = wq_dirty (dq_queue q) \<union> {d. \<exists>t \<le> now. waitingTimeByEntry q d = Some t}
    \<and> (\<forall>d t. waitingTimeByEntry (loop_top now q) d = Some t
         \<longleftrightarrow> waitingTimeByEntry q d = Some t \<and> now < t)
    \<and> (\<forall>e \<in> set (waitingForAdd (loop_top now q)). now < wf_readyAt e)"
proof -
  have inv: "dq_inv q" by (rule dq_run_inv [OF assms(1) dq_inv_new])
  have ok: "entries_ok (waitingForAdd (loop_top now q)) (waitingTimeByEntry (loop_top now q))"
    using dq_inv_loop_top [OF inv, of now] by (simp add: dq_inv_def)
  have "now < wf_readyAt e" if "e \<in> set (waitingForAdd (loop_top now q))" for e
    using that entries_ok_entry [OF ok] loop_top_ready(2) [OF inv assms(2)] by blast
  then show ?thesis using loop_top_ready [OF inv assms(2)] by simp
qed

theorem delaying_on_time_witness:
  "\<exists>q :: nat delaying. dq_run (newDelayingQueue '''') [AddAfter 7 20, Loop, Loop] q
     \<and> wq_dirty (dq_queue q) = {} \<and> wq_dirty (dq_queue (loop_top 30 q)) = {7}"
proof -
  let ?q0 = "newDelayingQueue '''' :: nat delaying" and ?e = "\<lparr>wf_data = 7, wf_readyAt = 20\<rparr> :: nat waitFor"
  let ?q1 = "?q0\<lparr>waitingForAddCh := [?e]\<rparr>"
  let ?q2 = "?q1\<lparr>dq_pc := AtSelect\<rparr>"
  let ?q3 = "?q2\<lparr>waitingForAddCh := [], dq_pc := AtDrain, waitingForAdd := [?e], waitingTimeByEntry := [7 \<mapsto> 20]\<rparr>"
  note defs = newDelayingQueue_def queue_NewNamed_def queue_ShuttingDown_def
  have "delaying_AddAfter 0 7 20 ?q0 = Some ?q1" by (simp add: delaying_AddAfter_def defs)
  then have s1: "dq_step ?q0 (AddAfter 7 20) ?q1" by (rule env_after)
  have "loop_top 2 ?q1 = ?q2" by (simp add: loop_top_def defs)
  then have s2: "dq_step ?q1 Loop ?q2" using loop_head [of ?q1 2] by (simp add: defs)
  have "insert_entry [] Map.empty ?e = ([?e], [7 \<mapsto> 20])"
    by (simp add: insert_entry_def insert_sorted_def sort_Search_def search_loop.simps)
  then have "loop_receive 3 ?e (?q2\<lparr>waitingForAddCh := [], dq_pc := AtDrain\<rparr>) = ?q3"
    by (simp add: loop_receive_def defs)
  then have s3: "dq_step ?q2 Loop ?q3" using loop_recv [of ?q2 ?e "[]" 3] by simp
  have run: "dq_run ?q0 [AddAfter 7 20, Loop, Loop] ?q3"
    by (rule dq_run_cons [OF s1 dq_run_cons [OF s2 dq_run_cons [OF s3 dq_run_nil]]])
  have open3: "\<not> queue_ShuttingDown (dq_queue ?q3)" and dirty: "wq_dirty (dq_queue ?q3) = {}"
    by (simp_all add: defs)
  have "wq_dirty (dq_queue (loop_top 30 ?q3)) = {7}"
    using delaying_on_time [OF run open3, of 30] dirty by auto
  with run dirty show ?thesis by blast
qed

text \<open>
  C18. A delayed item is never lost: while the queue is open, an item handed to
  \<^verbatim>\<open>AddAfter\<close> is in the channel, waiting or dirty, until a worker gets it, in every
  interleaving of producers, workers and the loop.
\<close>

theorem delaying_no_loss:
  assumes "dq_run (newDelayingQueue name) es q" and "delaying_AddAfter now x d q = Some q1"
    and "dq_run q1 es' q2" and "\<not> queue_ShuttingDown (dq_queue q2)" and "Queue (EGet x) \<notin> set es'"
  shows "x \<in> wf_data ` set (waitingForAddCh q2) \<union> wf_data ` set (waitingForAdd q2) \<union> wq_dirty (dq_queue q2)"
proof -
  have inv: "dq_inv q" by (rule dq_run_inv [OF assms(1) dq_inv_new])
  have inv1: "dq_inv q1" by (rule dq_inv_AddAfter [OF inv assms(2)])
  have open1: "\<not> queue_ShuttingDown (dq_queue q1)" by (rule dq_run_open [OF assms(3,4)])
  then have "\<not> dq_stopped q" "\<not> queue_ShuttingDown (dq_queue q)"
    using dq_step_open [OF env_after [OF assms(2)]] inv by (auto simp: dq_inv_def)
  then have "x \<in> promised q1"
    using assms(2) by (auto simp: promised_def delaying_AddAfter_def Let_def wq.needs_add split: if_splits)
  then have "x \<in> promised q2" by (rule dq_run_promised [OF assms(3) inv1 _ assms(4,5)])
  moreover have "entries_ok (waitingForAdd q2) (waitingTimeByEntry q2)"
    using dq_run_inv [OF assms(3) inv1] by (simp add: dq_inv_def)
  ultimately show ?thesis by (simp add: promised_def entries_ok_dom)
qed

theorem delaying_no_loss_witness:
  "\<exists>q1. delaying_AddAfter 0 (7::nat) 20 (newDelayingQueue '''') = Some q1
     \<and> 7 \<in> wf_data ` set (waitingForAddCh q1) \<union> wf_data ` set (waitingForAdd q1) \<union> wq_dirty (dq_queue q1)"
proof -
  define q1 where "q1 = the (delaying_AddAfter 0 (7::nat) 20 (newDelayingQueue ''''))"
  have add: "delaying_AddAfter 0 (7::nat) 20 (newDelayingQueue '''') = Some q1"
    and "\<not> queue_ShuttingDown (dq_queue q1)"
    by (simp_all add: q1_def delaying_AddAfter_def newDelayingQueue_def queue_NewNamed_def
        queue_ShuttingDown_def Let_def)
  from delaying_no_loss [OF dq_run_nil add dq_run_nil this(2)] add show ?thesis by simp
qed

end
