(* ===== verification/ThreadSafeStore.thy ===== *)
theory ThreadSafeStore
  imports Go_Prelude "HOL-Library.Char_ord" "HOL-Library.List_Lexorder"
begin

section \<open>The indexed store (\<^verbatim>\<open>pkg/client/cache/thread_safe_store.go\<close>, \<^verbatim>\<open>index.go\<close>)\<close>

text \<open>
  The map of objects behind every informer cache and its indices. Each method holds the lock. A
  range over the indexers takes its order as an argument; a method that ranges twice takes two.
  An index function fails with a message or gives the values the object is filed under.
\<close>

type_synonym 'o indexFunc = "'o \<Rightarrow> string + string list"
type_synonym 'o indexers = "string \<rightharpoonup> 'o indexFunc"
type_synonym index = "string \<rightharpoonup> key set"
type_synonym indices = "string \<rightharpoonup> index"

datatype store_error = NoSuchIndex string | IndexFuncFailed string | RunningIndex | IndexerConflict "string set"

record 'o threadSafeMap =
  tsm_items :: "key \<rightharpoonup> 'o"
  tsm_indexers :: "'o indexers"
  tsm_indices :: indices

definition NewThreadSafeStore :: "'o indexers \<Rightarrow> indices \<Rightarrow> 'o threadSafeMap" where
  "NewThreadSafeStore idxs ix = \<lparr>tsm_items = Map.empty, tsm_indexers = idxs, tsm_indices = ix\<rparr>"

subsection \<open>Keeping the indices\<close>

definition index_set :: "index \<Rightarrow> string \<Rightarrow> key set" where
  "index_set index v = (case index v of None \<Rightarrow> {} | Some s \<Rightarrow> s)"

definition index_insert :: "key \<Rightarrow> index \<Rightarrow> string \<Rightarrow> index" where
  "index_insert key index indexValue = index(indexValue \<mapsto> insert key (index_set index indexValue))"

definition index_delete :: "key \<Rightarrow> index \<Rightarrow> string \<Rightarrow> index" where
  "index_delete key index indexValue =
     (case index indexValue of None \<Rightarrow> index | Some s \<Rightarrow> index(indexValue \<mapsto> s - {key}))"

fun deleteFromIndices :: "'o indexers \<Rightarrow> 'o \<Rightarrow> key \<Rightarrow> string list \<Rightarrow> indices \<Rightarrow> string option \<times> indices" where
  "deleteFromIndices idxs obj key [] ix = (None, ix)"
| "deleteFromIndices idxs obj key (name # names) ix =
     (case idxs name of
        None \<Rightarrow> deleteFromIndices idxs obj key names ix
      | Some indexFunc \<Rightarrow>
          (case indexFunc obj of
             Inl err \<Rightarrow> (Some err, ix)
           | Inr indexValues \<Rightarrow>
               (case ix name of
                  None \<Rightarrow> deleteFromIndices idxs obj key names ix
                | Some index \<Rightarrow>
                    deleteFromIndices idxs obj key names
                      (ix(name \<mapsto> foldl (index_delete key) index indexValues)))))"

fun updateIndices_loop :: "'o indexers \<Rightarrow> 'o \<Rightarrow> key \<Rightarrow> string list \<Rightarrow> indices \<Rightarrow> string option \<times> indices" where
  "updateIndices_loop idxs newObj key [] ix = (None, ix)"
| "updateIndices_loop idxs newObj key (name # names) ix =
     (case idxs name of
        None \<Rightarrow> updateIndices_loop idxs newObj key names ix
      | Some indexFunc \<Rightarrow>
          (case indexFunc newObj of
             Inl err \<Rightarrow> (Some err, ix)
           | Inr indexValues \<Rightarrow>
               let index = (case ix name of None \<Rightarrow> Map.empty | Some i \<Rightarrow> i)
               in updateIndices_loop idxs newObj key names
                    (ix(name \<mapsto> foldl (index_insert key) index indexValues))))"

text \<open>The result of removing the old object is not looked at; the error of the loop is returned.\<close>

definition updateIndices ::
  "string list \<Rightarrow> string list \<Rightarrow> 'o option \<Rightarrow> 'o \<Rightarrow> key \<Rightarrow> 'o threadSafeMap \<Rightarrow> string option \<times> 'o threadSafeMap"
where
  "updateIndices od ou oldObj newObj key c =
     (let c = (case oldObj of
                 None \<Rightarrow> c
               | Some old \<Rightarrow> c\<lparr>tsm_indices :=
                   snd (deleteFromIndices (tsm_indexers c) old key od (tsm_indices c))\<rparr>);
          (err, ix) = updateIndices_loop (tsm_indexers c) newObj key ou (tsm_indices c)
      in (err, c\<lparr>tsm_indices := ix\<rparr>))"

subsection \<open>The methods\<close>

definition tsm_Add :: "string list \<Rightarrow> string list \<Rightarrow> key \<Rightarrow> 'o \<Rightarrow> 'o threadSafeMap \<Rightarrow> 'o threadSafeMap" where
  "tsm_Add od ou key obj c =
     (let oldObject = tsm_items c key;
          c = c\<lparr>tsm_items := (tsm_items c)(key \<mapsto> obj)\<rparr>
      in snd (updateIndices od ou oldObject obj key c))"

definition tsm_Update :: "string list \<Rightarrow> string list \<Rightarrow> key \<Rightarrow> 'o \<Rightarrow> 'o threadSafeMap \<Rightarrow> 'o threadSafeMap" where
  "tsm_Update od ou key obj c =
     (let oldObject = tsm_items c key;
          c = c\<lparr>tsm_items := (tsm_items c)(key \<mapsto> obj)\<rparr>
      in snd (updateIndices od ou oldObject obj key c))"

definition tsm_Delete :: "string list \<Rightarrow> key \<Rightarrow> 'o threadSafeMap \<Rightarrow> 'o threadSafeMap" where
  "tsm_Delete od key c =
     (case tsm_items c key of
        None \<Rightarrow> c
      | Some obj \<Rightarrow>
          c\<lparr>tsm_indices := snd (deleteFromIndices (tsm_indexers c) obj key od (tsm_indices c)),
            tsm_items := (tsm_items c)(key := None)\<rparr>)"

definition tsm_Get :: "key \<Rightarrow> 'o threadSafeMap \<Rightarrow> 'o option" where
  "tsm_Get key c = tsm_items c key"

definition tsm_List :: "key list \<Rightarrow> 'o threadSafeMap \<Rightarrow> 'o list" where
  "tsm_List ks c = List.map_filter (tsm_items c) ks"

definition tsm_ListKeys :: "key list \<Rightarrow> 'o threadSafeMap \<Rightarrow> key list" where
  "tsm_ListKeys ks c = filter (\<lambda>k. tsm_items c k \<noteq> None) ks"

text \<open>
  The keys \<open>ks\<close> of the new items in the order of the range, and for each of them the order
  \<open>ou\<close> of the range over the indexers.
\<close>

fun reindex :: "(key \<Rightarrow> string list) \<Rightarrow> key list \<Rightarrow> 'o threadSafeMap \<Rightarrow> 'o threadSafeMap" where
  "reindex ou [] c = c"
| "reindex ou (key # ks) c =
     (case tsm_items c key of
        None \<Rightarrow> reindex ou ks c
      | Some item \<Rightarrow> reindex ou ks (snd (updateIndices [] (ou key) None item key c)))"

definition tsm_Replace ::
  "(key \<Rightarrow> string list) \<Rightarrow> key list \<Rightarrow> (key \<rightharpoonup> 'o) \<Rightarrow> 'o threadSafeMap \<Rightarrow> 'o threadSafeMap" where
  "tsm_Replace ou ks items c = reindex ou ks (c\<lparr>tsm_items := items, tsm_indices := Map.empty\<rparr>)"

text \<open>A key that is filed but not stored would give a nil object, \<open>None\<close>.\<close>

definition tsm_ByIndex :: "string \<Rightarrow> string \<Rightarrow> 'o threadSafeMap \<Rightarrow> store_error + 'o option list" where
  "tsm_ByIndex indexName indexKey c =
     (case tsm_indexers c indexName of
        None \<Rightarrow> Inl (NoSuchIndex indexName)
      | Some _ \<Rightarrow>
          let index = (case tsm_indices c indexName of None \<Rightarrow> Map.empty | Some i \<Rightarrow> i);
              set = index_set index indexKey
          in Inr (map (tsm_items c) (sorted_list_of_set set)))"

text \<open>The keys of the de-duplicating set, ranged over in the order \<open>ks\<close>.\<close>

definition tsm_Index :: "key list \<Rightarrow> string \<Rightarrow> 'o \<Rightarrow> 'o threadSafeMap \<Rightarrow> store_error + 'o option list" where
  "tsm_Index ks indexName obj c =
     (case tsm_indexers c indexName of
        None \<Rightarrow> Inl (NoSuchIndex indexName)
      | Some indexFunc \<Rightarrow>
          (case indexFunc obj of
             Inl err \<Rightarrow> Inl (IndexFuncFailed err)
           | Inr indexKeys \<Rightarrow>
               let index = (case tsm_indices c indexName of None \<Rightarrow> Map.empty | Some i \<Rightarrow> i);
                   returnKeySet = foldl (\<lambda>s k. s \<union> index_set index k) {} indexKeys
               in Inr (map (tsm_items c) (filter (\<lambda>k. k \<in> returnKeySet) ks))))"

definition tsm_ListIndexFuncValues :: "string list \<Rightarrow> string \<Rightarrow> 'o threadSafeMap \<Rightarrow> string list" where
  "tsm_ListIndexFuncValues vs indexName c =
     (case tsm_indices c indexName of
        None \<Rightarrow> []
      | Some index \<Rightarrow> filter (\<lambda>v. index v \<noteq> None) vs)"

definition tsm_GetIndexers :: "'o threadSafeMap \<Rightarrow> 'o indexers" where
  "tsm_GetIndexers c = tsm_indexers c"

definition tsm_AddIndexers :: "'o indexers \<Rightarrow> 'o threadSafeMap \<Rightarrow> store_error + 'o threadSafeMap" where
  "tsm_AddIndexers newIndexers c =
     (if tsm_items c \<noteq> Map.empty then Inl RunningIndex
      else if dom (tsm_indexers c) \<inter> dom newIndexers \<noteq> {}
      then Inl (IndexerConflict (dom (tsm_indexers c) \<inter> dom newIndexers))
      else Inr (c\<lparr>tsm_indexers := tsm_indexers c ++ newIndexers\<rparr>))"

definition tsm_Resync :: "'o threadSafeMap \<Rightarrow> 'o threadSafeMap" where
  "tsm_Resync c = c"

subsection \<open>What the indices file\<close>

definition filed :: "indices \<Rightarrow> string \<Rightarrow> string \<Rightarrow> key set" where
  "filed ix name v = (case ix name of None \<Rightarrow> {} | Some index \<Rightarrow> index_set index v)"

definition no_fail :: "'o indexers \<Rightarrow> 'o \<Rightarrow> bool" where
  "no_fail idxs obj \<longleftrightarrow> (\<forall>name f. idxs name = Some f \<longrightarrow> (\<exists>vs. f obj = Inr vs))"

definition values_of :: "'o indexers \<Rightarrow> 'o \<Rightarrow> string \<Rightarrow> string set" where
  "values_of idxs obj name =
     (case idxs name of None \<Rightarrow> {} | Some f \<Rightarrow> (case f obj of Inl _ \<Rightarrow> {} | Inr vs \<Rightarrow> set vs))"

lemma index_set_insert: "index_set (index_insert k i w) v = (if v = w then insert k (index_set i v) else index_set i v)"
  by (simp add: index_set_def index_insert_def)

lemma index_set_delete: "index_set (index_delete k i w) v = (if v = w then index_set i v - {k} else index_set i v)"
  by (auto simp: index_set_def index_delete_def split: option.splits)

lemma index_set_inserts:
  "index_set (foldl (index_insert k) i vs) v = (if v \<in> set vs then insert k (index_set i v) else index_set i v)"
  by (induction vs arbitrary: i) (auto simp: index_set_insert)

lemma index_set_deletes:
  "index_set (foldl (index_delete k) i vs) v = (if v \<in> set vs then index_set i v - {k} else index_set i v)"
  by (induction vs arbitrary: i) (auto simp: index_set_delete)

lemma filed_upd: "filed (ix(name \<mapsto> i)) n v = (if n = name then index_set i v else filed ix n v)"
  by (simp add: filed_def)

lemma updateIndices_loop_filed:
  assumes "no_fail idxs obj"
  shows "fst (updateIndices_loop idxs obj key names ix) = None
    \<and> filed (snd (updateIndices_loop idxs obj key names ix)) n v
        = (if n \<in> set names \<and> v \<in> values_of idxs obj n then insert key (filed ix n v) else filed ix n v)"
proof (induction names arbitrary: ix)
  case (Cons name names)
  show ?case
  proof (cases "idxs name")
    case None
    with Cons show ?thesis by (auto simp: values_of_def)
  next
    case (Some f)
    then obtain vs where vs: "f obj = Inr vs" using assms by (auto simp: no_fail_def)
    let ?i = "case ix name of None \<Rightarrow> Map.empty | Some i \<Rightarrow> i"
    define ix' where "ix' = ix(name \<mapsto> foldl (index_insert key) ?i vs)"
    have "index_set ?i v = filed ix name v" for v
      by (simp add: filed_def index_set_def split: option.splits)
    then have ix': "filed ix' n v = (if n = name \<and> v \<in> set vs then insert key (filed ix n v) else filed ix n v)"
      unfolding ix'_def filed_upd index_set_inserts by simp
    have "updateIndices_loop idxs obj key (name # names) ix = updateIndices_loop idxs obj key names ix'"
      using Some vs by (simp add: ix'_def)
    with Cons [of ix'] ix' Some vs show ?thesis by (auto simp: values_of_def)
  qed
qed simp

lemma deleteFromIndices_filed:
  assumes "no_fail idxs obj"
  shows "fst (deleteFromIndices idxs obj key names ix) = None
    \<and> filed (snd (deleteFromIndices idxs obj key names ix)) n v
        = (if n \<in> set names \<and> v \<in> values_of idxs obj n then filed ix n v - {key} else filed ix n v)"
proof (induction names arbitrary: ix)
  case (Cons name names)
  show ?case
  proof (cases "idxs name")
    case None
    with Cons show ?thesis by (auto simp: values_of_def)
  next
    case (Some f)
    then obtain vs where vs: "f obj = Inr vs" using assms by (auto simp: no_fail_def)
    show ?thesis
    proof (cases "ix name")
      case None
      with Some vs Cons [of ix] show ?thesis by (auto simp: filed_def)
    next
      case i: (Some i)
      define ix' where "ix' = ix(name \<mapsto> foldl (index_delete key) i vs)"
      have ix': "filed ix' n v = (if n = name \<and> v \<in> set vs then filed ix n v - {key} else filed ix n v)"
        unfolding ix'_def filed_upd index_set_deletes using i by (simp add: filed_def)
      have "deleteFromIndices idxs obj key (name # names) ix = deleteFromIndices idxs obj key names ix'"
        using Some vs i by (simp add: ix'_def)
      with Cons [of ix'] ix' Some vs show ?thesis by (auto simp: values_of_def)
    qed
  qed
qed simp

subsection \<open>The index invariant\<close>

text \<open>
  Every index files exactly the keys of the stored objects that have the value, and files nothing under
  a name without an indexer; no stored object makes an index function fail.
\<close>

definition index_ok :: "'o threadSafeMap \<Rightarrow> bool" where
  "index_ok c \<longleftrightarrow>
     (\<forall>name v k. k \<in> filed (tsm_indices c) name v \<longleftrightarrow>
        (\<exists>obj. tsm_items c k = Some obj \<and> v \<in> values_of (tsm_indexers c) obj name))
     \<and> (\<forall>k obj. tsm_items c k = Some obj \<longrightarrow> no_fail (tsm_indexers c) obj)
     \<and> finite (dom (tsm_items c))"

lemma index_ok_New: "index_ok (NewThreadSafeStore idxs Map.empty)"
  by (simp add: index_ok_def NewThreadSafeStore_def filed_def)

lemma updateIndices_parts:
  "tsm_items (snd (updateIndices od ou old new key c)) = tsm_items c"
  "tsm_indexers (snd (updateIndices od ou old new key c)) = tsm_indexers c"
  by (auto simp: updateIndices_def Let_def split: prod.splits option.splits)

lemma values_of_order: "iter_order idxs ns \<Longrightarrow> v \<in> values_of idxs obj n \<Longrightarrow> n \<in> set ns"
  by (auto simp: values_of_def iter_order_mem split: option.splits)

lemma updateIndices_filed:
  assumes "no_fail (tsm_indexers c) new" and "\<And>o'. old = Some o' \<Longrightarrow> no_fail (tsm_indexers c) o'"
    and "iter_order (tsm_indexers c) od" and "iter_order (tsm_indexers c) ou"
  shows "k \<in> filed (tsm_indices (snd (updateIndices od ou old new key c))) n v \<longleftrightarrow>
    (if k = key
     then v \<in> values_of (tsm_indexers c) new n
       \<or> k \<in> filed (tsm_indices c) n v \<and> \<not> (\<exists>o'. old = Some o' \<and> v \<in> values_of (tsm_indexers c) o' n)
     else k \<in> filed (tsm_indices c) n v)"
proof -
  note n = values_of_order [OF assms(3)] values_of_order [OF assms(4)]
  define ix0 where "ix0 = (case old of None \<Rightarrow> tsm_indices c
    | Some o' \<Rightarrow> snd (deleteFromIndices (tsm_indexers c) o' key od (tsm_indices c)))"
  have ix: "tsm_indices (snd (updateIndices od ou old new key c))
      = snd (updateIndices_loop (tsm_indexers c) new key ou ix0)"
    by (cases old) (simp_all add: updateIndices_def Let_def case_prod_beta ix0_def)
  have loop: "filed (snd (updateIndices_loop (tsm_indexers c) new key ou ix0)) n v
      = (if v \<in> values_of (tsm_indexers c) new n then insert key (filed ix0 n v) else filed ix0 n v)"
    using updateIndices_loop_filed [OF assms(1), of key ou ix0 n v] n by auto
  have del: "filed ix0 n v = (if \<exists>o'. old = Some o' \<and> v \<in> values_of (tsm_indexers c) o' n
      then filed (tsm_indices c) n v - {key} else filed (tsm_indices c) n v)"
    using deleteFromIndices_filed [OF assms(2), of _ key od "tsm_indices c" n v] n
    by (cases old) (auto simp: ix0_def)
  show ?thesis unfolding ix loop del by auto
qed

lemma tsm_Add_items: "tsm_items (tsm_Add od ou key obj c) = (tsm_items c)(key \<mapsto> obj)"
  by (simp add: tsm_Add_def Let_def updateIndices_parts)

lemma tsm_Add_indexers: "tsm_indexers (tsm_Add od ou key obj c) = tsm_indexers c"
  by (simp add: tsm_Add_def Let_def updateIndices_parts)

lemma tsm_Update_is_Add: "tsm_Update = tsm_Add"
  by (intro ext) (simp add: tsm_Update_def tsm_Add_def)

lemma index_ok_Add [inv_intros]:
  assumes "index_ok c" and "no_fail (tsm_indexers c) obj"
    and "iter_order (tsm_indexers c) od" and "iter_order (tsm_indexers c) ou"
  shows "index_ok (tsm_Add od ou key obj c)"
proof -
  let ?c = "c\<lparr>tsm_items := (tsm_items c)(key \<mapsto> obj)\<rparr>"
  have old: "no_fail (tsm_indexers ?c) o'" if "tsm_items c key = Some o'" for o'
    using assms(1) that by (simp add: index_ok_def)
  have "k \<in> filed (tsm_indices (tsm_Add od ou key obj c)) name v \<longleftrightarrow>
      (\<exists>x. ((tsm_items c)(key \<mapsto> obj)) k = Some x \<and> v \<in> values_of (tsm_indexers c) x name)" for name v k
    using updateIndices_filed [of ?c obj "tsm_items c key" od ou k key name v] assms old
    by (auto simp: tsm_Add_def Let_def index_ok_def)
  then show ?thesis
    using assms by (simp add: index_ok_def tsm_Add_items tsm_Add_indexers)
qed

lemma tsm_Delete_items: "tsm_items (tsm_Delete od key c) = (tsm_items c)(key := None)"
  by (auto simp: tsm_Delete_def fun_eq_iff split: option.splits)

lemma tsm_Delete_indexers: "tsm_indexers (tsm_Delete od key c) = tsm_indexers c"
  by (simp add: tsm_Delete_def split: option.splits)

lemma index_ok_Delete [inv_intros]:
  assumes "index_ok c" and "iter_order (tsm_indexers c) od"
  shows "index_ok (tsm_Delete od key c)"
proof (cases "tsm_items c key")
  case None
  with assms show ?thesis by (simp add: tsm_Delete_def)
next
  case (Some obj)
  then have nf: "no_fail (tsm_indexers c) obj" using assms(1) by (simp add: index_ok_def)
  have "k \<in> filed (tsm_indices (tsm_Delete od key c)) name v \<longleftrightarrow>
      (\<exists>x. ((tsm_items c)(key := None)) k = Some x \<and> v \<in> values_of (tsm_indexers c) x name)" for name v k
    using deleteFromIndices_filed [OF nf, of key od "tsm_indices c" name v] assms Some values_of_order [OF assms(2), of v obj name]
    by (auto simp: tsm_Delete_def index_ok_def)
  then show ?thesis
    using assms by (simp add: index_ok_def tsm_Delete_items tsm_Delete_indexers)
qed

lemma reindex_parts:
  "tsm_items (reindex ou ks c) = tsm_items c \<and> tsm_indexers (reindex ou ks c) = tsm_indexers c"
  by (induction ks arbitrary: c) (auto simp: updateIndices_parts split: option.splits)

lemma reindex_filed:
  assumes "\<And>key obj. tsm_items c key = Some obj \<Longrightarrow> no_fail (tsm_indexers c) obj"
    and "\<And>key. iter_order (tsm_indexers c) (ou key)"
  shows "k \<in> filed (tsm_indices (reindex ou ks c)) name v \<longleftrightarrow>
    k \<in> filed (tsm_indices c) name v
    \<or> k \<in> set ks \<and> (\<exists>obj. tsm_items c k = Some obj \<and> v \<in> values_of (tsm_indexers c) obj name)"
  using assms
proof (induction ks arbitrary: c)
  case (Cons key ks)
  show ?case
  proof (cases "tsm_items c key")
    case None
    with Cons show ?thesis by auto
  next
    case (Some item)
    let ?c = "snd (updateIndices [] (ou key) None item key c)"
    have "tsm_indices ?c = snd (updateIndices_loop (tsm_indexers c) item key (ou key) (tsm_indices c))"
      by (simp add: updateIndices_def Let_def case_prod_beta)
    then have loop: "k \<in> filed (tsm_indices ?c) name v \<longleftrightarrow>
        k \<in> filed (tsm_indices c) name v \<or> k = key \<and> v \<in> values_of (tsm_indexers c) item name"
      using updateIndices_loop_filed [OF Cons.prems(1) [OF Some], of key "ou key" "tsm_indices c" name v]
        values_of_order [OF Cons.prems(2), of v item name key]
      by auto
    have "k \<in> filed (tsm_indices (reindex ou ks ?c)) name v \<longleftrightarrow>
        k \<in> filed (tsm_indices ?c) name v
        \<or> k \<in> set ks \<and> (\<exists>obj. tsm_items ?c k = Some obj \<and> v \<in> values_of (tsm_indexers ?c) obj name)"
      using Cons.prems by (intro Cons.IH) (auto simp: updateIndices_parts)
    with loop Some show ?thesis by (auto simp: updateIndices_parts)
  qed
qed simp

lemma index_ok_Replace [inv_intros]:
  assumes "\<And>key obj. items key = Some obj \<Longrightarrow> no_fail (tsm_indexers c) obj"
    and "\<And>key. iter_order (tsm_indexers c) (ou key)" and "iter_order items ks"
  shows "index_ok (tsm_Replace ou ks items c)"
proof -
  let ?c = "c\<lparr>tsm_items := items, tsm_indices := Map.empty\<rparr>"
  have parts: "tsm_items (tsm_Replace ou ks items c) = items"
    "tsm_indexers (tsm_Replace ou ks items c) = tsm_indexers c"
    by (simp_all add: tsm_Replace_def reindex_parts)
  have "k \<in> filed (tsm_indices (tsm_Replace ou ks items c)) name v \<longleftrightarrow>
      (\<exists>obj. items k = Some obj \<and> v \<in> values_of (tsm_indexers c) obj name)" for name v k
  proof -
    have "k \<in> filed (tsm_indices (reindex ou ks ?c)) name v \<longleftrightarrow>
        k \<in> filed (tsm_indices ?c) name v
        \<or> k \<in> set ks \<and> (\<exists>obj. tsm_items ?c k = Some obj \<and> v \<in> values_of (tsm_indexers ?c) obj name)"
      by (rule reindex_filed) (use assms(1,2) in auto)
    then show ?thesis
      using iter_order_mem [OF assms(3), of k] by (auto simp: tsm_Replace_def filed_def)
  qed
  then show ?thesis
    using assms iter_order_finite [OF assms(3)] by (simp add: index_ok_def parts)
qed

lemma index_ok_AddIndexers [inv_intros]:
  "index_ok c \<Longrightarrow> tsm_AddIndexers newIndexers c = Inr c' \<Longrightarrow> index_ok c'"
  by (auto simp: index_ok_def tsm_AddIndexers_def split: if_splits)

lemma tsm_Replace_items: "tsm_items (tsm_Replace ou ks items c) = items"
  by (simp add: tsm_Replace_def reindex_parts)

subsection \<open>Properties\<close>



text \<open>
  The condition is needed: an object on which one index function fails is stored all the same, and filed by
  the functions the range visited before that one. When it is deleted and the range visits the failing
  function first, it stays filed under its values there, and a lookup returns a nil object.
\<close>

theorem failing_index_leaves_stale:
  assumes "fa obj = Inl err" and "fb obj = Inr [v]" and "a \<noteq> b" and "c = NewThreadSafeStore [a \<mapsto> fa, b \<mapsto> fb] Map.empty"
  shows "tsm_items (tsm_Delete [a, b] key (tsm_Add [b, a] [b, a] key obj c)) key = None
    \<and> tsm_ByIndex b v (tsm_Delete [a, b] key (tsm_Add [b, a] [b, a] key obj c)) = Inr [None]"
  using assms
  by (simp add: tsm_Delete_def tsm_Add_def updateIndices_def NewThreadSafeStore_def tsm_ByIndex_def index_insert_def index_set_def)

text \<open>
  A lookup by index is a filter of the store: \<^verbatim>\<open>ByIndex\<close> returns, in key order and
  without a nil, exactly the stored objects whose index values contain the one asked for, and an
  error exactly when no indexer has the name.
\<close>

theorem ByIndex_correct:
  assumes "index_ok c"
  shows "tsm_ByIndex name v c =
    (if tsm_indexers c name = None then Inl (NoSuchIndex name)
     else Inr (map Some (map (\<lambda>k. the (tsm_items c k)) (sorted_list_of_set
       {k. \<exists>obj. tsm_items c k = Some obj \<and> v \<in> values_of (tsm_indexers c) obj name}))))"
proof (cases "tsm_indexers c name")
  case None
  then show ?thesis by (simp add: tsm_ByIndex_def)
next
  case (Some f)
  let ?K = "{k. \<exists>obj. tsm_items c k = Some obj \<and> v \<in> values_of (tsm_indexers c) obj name}"
  let ?i = "case tsm_indices c name of None \<Rightarrow> Map.empty | Some i \<Rightarrow> i"
  have "finite ?K"
    using assms finite_subset [of ?K "dom (tsm_items c)"] by (auto simp: index_ok_def)
  moreover have "index_set ?i v = ?K"
  proof -
    have "index_set ?i v = filed (tsm_indices c) name v"
      by (simp add: filed_def index_set_def split: option.splits)
    also have "\<dots> = ?K" using assms Some by (auto simp: index_ok_def)
    finally show ?thesis .
  qed
  ultimately show ?thesis using Some by (auto simp: tsm_ByIndex_def Let_def)
qed

theorem ByIndex_correct_witness:
  "tsm_ByIndex ''ns'' ''v'' (NewThreadSafeStore [''ns'' \<mapsto> (\<lambda>x. Inr [''v''])] Map.empty :: nat threadSafeMap)
   = Inr []"
  using ByIndex_correct [OF index_ok_New, of "''ns''" "''v''" "[''ns'' \<mapsto> (\<lambda>x::nat. Inr [''v''])]"]
  by (simp add: NewThreadSafeStore_def)

text \<open>
  Deleting the last object with a value leaves the value behind: after an object filed under
  \<open>v\<close> is added and deleted, the index still lists \<open>v\<close> although it files no key under it.
\<close>

theorem ListIndexFuncValues_stale:
  assumes "tsm_indexers c = [name \<mapsto> f]" and "f obj = Inr [v]" and "tsm_items c key = None"
  shows "tsm_ListIndexFuncValues [v] name (tsm_Delete [name] key (tsm_Add [name] [name] key obj c)) = [v]"
  using assms
  by (auto simp: tsm_ListIndexFuncValues_def tsm_Delete_def tsm_Add_def updateIndices_def Let_def
      index_insert_def index_delete_def)

theorem ListIndexFuncValues_stale_witness:
  "tsm_ListIndexFuncValues [''v''] ''ns'' (tsm_Delete [''ns''] ''a'' (tsm_Add [''ns''] [''ns''] ''a'' (1::nat)
     (NewThreadSafeStore [''ns'' \<mapsto> (\<lambda>x. Inr [''v''])] Map.empty))) = [''v'']"
  by (rule ListIndexFuncValues_stale) (simp_all add: NewThreadSafeStore_def)

end
