(* ===== verification/Store.thy ===== *)
theory Store
  imports ThreadSafeStore "HOL-Library.Multiset"
begin

section \<open>Keys and the cache (\<^verbatim>\<open>pkg/client/cache/store.go\<close>, \<^verbatim>\<open>index.go\<close>, \<^verbatim>\<open>undelta_store.go\<close>)\<close>

text \<open>
  A \<^verbatim>\<open>cache\<close> computes the key of an object and calls the indexed store. What
  \<^verbatim>\<open>meta.Accessor\<close> reads from an object, its namespace and its name, is a parameter of the
  key functions. An object passed to them is an API object or an \<^verbatim>\<open>ExplicitKey\<close>.
\<close>

datatype 'o keyable = ExplicitKey key | ApiObject 'o

type_synonym 'o keyFunc = "'o \<Rightarrow> string + key"

datatype 'o key_error = KeyError 'o string

subsection \<open>Key functions\<close>

definition MetaNamespaceKeyFunc :: "('o \<Rightarrow> string + string \<times> string) \<Rightarrow> 'o keyable keyFunc" where
  "MetaNamespaceKeyFunc accessor obj =
     (case obj of
        ExplicitKey key \<Rightarrow> Inr key
      | ApiObject x \<Rightarrow>
          (case accessor x of
             Inl err \<Rightarrow> Inl (''object has no meta: '' @ err)
           | Inr (namespace, name) \<Rightarrow>
               if length namespace > 0 then Inr (namespace @ ''/'' @ name) else Inr name))"

definition SplitMetaNamespaceKey :: "key \<Rightarrow> string + string \<times> string" where
  "SplitMetaNamespaceKey key =
     (case strings_Split (CHR ''/'') key of
        [name] \<Rightarrow> Inr ('''', name)
      | [namespace, name] \<Rightarrow> Inr (namespace, name)
      | _ \<Rightarrow> Inl (''unexpected key format: '' @ key))"

definition MetaNamespaceIndexFunc :: "('o \<Rightarrow> string + string \<times> string) \<Rightarrow> 'o indexFunc" where
  "MetaNamespaceIndexFunc accessor obj =
     (case accessor obj of
        Inl err \<Rightarrow> Inl (''object has no meta: '' @ err)
      | Inr (namespace, name) \<Rightarrow> Inr [namespace])"

definition IndexFuncToKeyFuncAdapter :: "'o indexFunc \<Rightarrow> 'o keyFunc" where
  "IndexFuncToKeyFuncAdapter indexFunc obj =
     (case indexFunc obj of
        Inl err \<Rightarrow> Inl err
      | Inr indexKeys \<Rightarrow>
          if length indexKeys > 1 then Inl ''too many keys''
          else if length indexKeys = 0 then Inl ''unexpected empty indexKeys''
          else Inr (indexKeys ! 0))"

subsection \<open>The cache\<close>

record 'o cache =
  cacheStorage :: "'o threadSafeMap"
  cache_keyFunc :: "'o keyFunc"

definition NewStore :: "'o keyFunc \<Rightarrow> 'o cache" where
  "NewStore kf = \<lparr>cacheStorage = NewThreadSafeStore Map.empty Map.empty, cache_keyFunc = kf\<rparr>"

definition NewIndexer :: "'o keyFunc \<Rightarrow> 'o indexers \<Rightarrow> 'o cache" where
  "NewIndexer kf idxs = \<lparr>cacheStorage = NewThreadSafeStore idxs Map.empty, cache_keyFunc = kf\<rparr>"

definition cache_Add :: "string list \<Rightarrow> string list \<Rightarrow> 'o \<Rightarrow> 'o cache \<Rightarrow> 'o key_error + 'o cache" where
  "cache_Add od ou obj c =
     (case cache_keyFunc c obj of
        Inl err \<Rightarrow> Inl (KeyError obj err)
      | Inr key \<Rightarrow> Inr (c\<lparr>cacheStorage := tsm_Add od ou key obj (cacheStorage c)\<rparr>))"

definition cache_Update :: "string list \<Rightarrow> string list \<Rightarrow> 'o \<Rightarrow> 'o cache \<Rightarrow> 'o key_error + 'o cache" where
  "cache_Update od ou obj c =
     (case cache_keyFunc c obj of
        Inl err \<Rightarrow> Inl (KeyError obj err)
      | Inr key \<Rightarrow> Inr (c\<lparr>cacheStorage := tsm_Update od ou key obj (cacheStorage c)\<rparr>))"

definition cache_Delete :: "string list \<Rightarrow> 'o \<Rightarrow> 'o cache \<Rightarrow> 'o key_error + 'o cache" where
  "cache_Delete od obj c =
     (case cache_keyFunc c obj of
        Inl err \<Rightarrow> Inl (KeyError obj err)
      | Inr key \<Rightarrow> Inr (c\<lparr>cacheStorage := tsm_Delete od key (cacheStorage c)\<rparr>))"

definition cache_List :: "key list \<Rightarrow> 'o cache \<Rightarrow> 'o list" where
  "cache_List ks c = tsm_List ks (cacheStorage c)"

definition cache_ListKeys :: "key list \<Rightarrow> 'o cache \<Rightarrow> key list" where
  "cache_ListKeys ks c = tsm_ListKeys ks (cacheStorage c)"

definition cache_GetByKey :: "key \<Rightarrow> 'o cache \<Rightarrow> 'o option" where
  "cache_GetByKey key c = tsm_Get key (cacheStorage c)"

definition cache_Get :: "'o \<Rightarrow> 'o cache \<Rightarrow> 'o key_error + 'o option" where
  "cache_Get obj c =
     (case cache_keyFunc c obj of
        Inl err \<Rightarrow> Inl (KeyError obj err)
      | Inr key \<Rightarrow> Inr (cache_GetByKey key c))"

text \<open>The loop that keys the objects of a list; a later object replaces an earlier one.\<close>

fun keyed_items :: "'o keyFunc \<Rightarrow> 'o list \<Rightarrow> (key \<rightharpoonup> 'o) \<Rightarrow> 'o key_error + (key \<rightharpoonup> 'o)" where
  "keyed_items kf [] items = Inr items"
| "keyed_items kf (item # xs) items =
     (case kf item of
        Inl err \<Rightarrow> Inl (KeyError item err)
      | Inr key \<Rightarrow> keyed_items kf xs (items(key \<mapsto> item)))"

definition cache_Replace ::
  "(key \<Rightarrow> string list) \<Rightarrow> key list \<Rightarrow> 'o list \<Rightarrow> 'o cache \<Rightarrow> 'o key_error + 'o cache" where
  "cache_Replace ou ks xs c =
     (case keyed_items (cache_keyFunc c) xs Map.empty of
        Inl err \<Rightarrow> Inl err
      | Inr items \<Rightarrow> Inr (c\<lparr>cacheStorage := tsm_Replace ou ks items (cacheStorage c)\<rparr>))"

definition cache_Index :: "key list \<Rightarrow> string \<Rightarrow> 'o \<Rightarrow> 'o cache \<Rightarrow> store_error + 'o option list" where
  "cache_Index ks indexName obj c = tsm_Index ks indexName obj (cacheStorage c)"

definition cache_ByIndex :: "string \<Rightarrow> string \<Rightarrow> 'o cache \<Rightarrow> store_error + 'o option list" where
  "cache_ByIndex indexName indexKey c = tsm_ByIndex indexName indexKey (cacheStorage c)"

definition cache_AddIndexers :: "'o indexers \<Rightarrow> 'o cache \<Rightarrow> store_error + 'o cache" where
  "cache_AddIndexers newIndexers c =
     map_sum id (\<lambda>s. c\<lparr>cacheStorage := s\<rparr>) (tsm_AddIndexers newIndexers (cacheStorage c))"

definition cache_Resync :: "'o cache \<Rightarrow> 'o cache" where
  "cache_Resync c = c\<lparr>cacheStorage := tsm_Resync (cacheStorage c)\<rparr>"

definition cache_GetIndexers :: "'o cache \<Rightarrow> 'o indexers" where
  "cache_GetIndexers c = tsm_GetIndexers (cacheStorage c)"

definition cache_ListIndexFuncValues :: "string list \<Rightarrow> string \<Rightarrow> 'o cache \<Rightarrow> string list" where
  "cache_ListIndexFuncValues vs indexName c = tsm_ListIndexFuncValues vs indexName (cacheStorage c)"

subsection \<open>The undelta store\<close>

text \<open>
  \<^verbatim>\<open>UndeltaStore\<close> embeds a \<^verbatim>\<open>Store\<close>, which its constructor makes a cache, and
  passes the listed contents to \<^verbatim>\<open>PushFunc\<close> after each change. The calls of
  \<^verbatim>\<open>PushFunc\<close> are collected, the latest first; \<open>order\<close> gives the order in which
  \<^verbatim>\<open>List\<close> ranges over a map.
\<close>

record 'o undeltaStore =
  undelta_Store :: "'o cache"
  undelta_pushed :: "'o list list"

definition NewUndeltaStore :: "'o keyFunc \<Rightarrow> 'o undeltaStore" where
  "NewUndeltaStore kf = \<lparr>undelta_Store = NewStore kf, undelta_pushed = []\<rparr>"

definition undelta_push ::
  "((key \<rightharpoonup> 'o) \<Rightarrow> key list) \<Rightarrow> 'o key_error + 'o cache \<Rightarrow> 'o undeltaStore \<Rightarrow> 'o key_error + 'o undeltaStore"
where
  "undelta_push order r u =
     (case r of
        Inl err \<Rightarrow> Inl err
      | Inr c \<Rightarrow> Inr (u\<lparr>undelta_Store := c,
          undelta_pushed := cache_List (order (tsm_items (cacheStorage c))) c # undelta_pushed u\<rparr>))"

definition undelta_Add where
  "undelta_Add order od ou obj u = undelta_push order (cache_Add od ou obj (undelta_Store u)) u"

definition undelta_Update where
  "undelta_Update order od ou obj u = undelta_push order (cache_Update od ou obj (undelta_Store u)) u"

definition undelta_Delete where
  "undelta_Delete order od obj u = undelta_push order (cache_Delete od obj (undelta_Store u)) u"

definition undelta_Replace where
  "undelta_Replace order oi ks xs u = undelta_push order (cache_Replace oi ks xs (undelta_Store u)) u"

section \<open>The contract of a store\<close>

text \<open>
  What a client of the \<^verbatim>\<open>Store\<close> interface sees: a map from keys to objects, and an error
  with the store unchanged when an object has no key. The argument of type \<open>'r\<close> resolves the
  order of the ranges over maps.
\<close>

datatype 'o store_op = OpAdd 'o | OpUpdate 'o | OpDelete 'o | OpReplace "'o list"

fun spec_op :: "'o keyFunc \<Rightarrow> (key \<rightharpoonup> 'o) \<Rightarrow> 'o store_op \<Rightarrow> (key \<rightharpoonup> 'o)" where
  "spec_op kf m (OpAdd obj) = (case kf obj of Inl _ \<Rightarrow> m | Inr k \<Rightarrow> m(k \<mapsto> obj))"
| "spec_op kf m (OpUpdate obj) = (case kf obj of Inl _ \<Rightarrow> m | Inr k \<Rightarrow> m(k \<mapsto> obj))"
| "spec_op kf m (OpDelete obj) = (case kf obj of Inl _ \<Rightarrow> m | Inr k \<Rightarrow> m(k := None))"
| "spec_op kf m (OpReplace xs) = (case keyed_items kf xs Map.empty of Inl _ \<Rightarrow> m | Inr m' \<Rightarrow> m')"

definition on_ok :: "'s \<Rightarrow> 'e + 's \<Rightarrow> 's" where
  "on_ok s r = (case r of Inl _ \<Rightarrow> s | Inr s' \<Rightarrow> s')"

lemma on_ok_simps [simp]: "on_ok s (Inl e) = s" "on_ok s (Inr s') = s'"
  by (simp_all add: on_ok_def)

fun store_apply where
  "store_apply add update delete replace s (r, OpAdd obj) = on_ok s (add r obj s)"
| "store_apply add update delete replace s (r, OpUpdate obj) = on_ok s (update r obj s)"
| "store_apply add update delete replace s (r, OpDelete obj) = on_ok s (delete r obj s)"
| "store_apply add update delete replace s (r, OpReplace xs) = on_ok s (replace r xs s)"

locale store_interface =
  fixes keyOf :: "'s \<Rightarrow> 'o keyFunc"
    and add :: "'r \<Rightarrow> 'o \<Rightarrow> 's \<Rightarrow> 'o key_error + 's"
    and update :: "'r \<Rightarrow> 'o \<Rightarrow> 's \<Rightarrow> 'o key_error + 's"
    and delete :: "'r \<Rightarrow> 'o \<Rightarrow> 's \<Rightarrow> 'o key_error + 's"
    and replace :: "'r \<Rightarrow> 'o list \<Rightarrow> 's \<Rightarrow> 'o key_error + 's"
    and items :: "'s \<Rightarrow> (key \<rightharpoonup> 'o)"
  assumes add_err: "keyOf s obj = Inl e \<Longrightarrow> add r obj s = Inl (KeyError obj e)"
    and add_ok: "keyOf s obj = Inr k \<Longrightarrow>
      \<exists>s'. add r obj s = Inr s' \<and> items s' = (items s)(k \<mapsto> obj) \<and> keyOf s' = keyOf s"
    and update_err: "keyOf s obj = Inl e \<Longrightarrow> update r obj s = Inl (KeyError obj e)"
    and update_ok: "keyOf s obj = Inr k \<Longrightarrow>
      \<exists>s'. update r obj s = Inr s' \<and> items s' = (items s)(k \<mapsto> obj) \<and> keyOf s' = keyOf s"
    and delete_err: "keyOf s obj = Inl e \<Longrightarrow> delete r obj s = Inl (KeyError obj e)"
    and delete_ok: "keyOf s obj = Inr k \<Longrightarrow>
      \<exists>s'. delete r obj s = Inr s' \<and> items s' = (items s)(k := None) \<and> keyOf s' = keyOf s"
    and replace_err: "keyed_items (keyOf s) xs Map.empty = Inl err \<Longrightarrow> replace r xs s = Inl err"
    and replace_ok: "keyed_items (keyOf s) xs Map.empty = Inr m \<Longrightarrow>
      \<exists>s'. replace r xs s = Inr s' \<and> items s' = m \<and> keyOf s' = keyOf s"
begin

lemma apply_refines:
  "items (store_apply add update delete replace s (r, op)) = spec_op (keyOf s) (items s) op
    \<and> keyOf (store_apply add update delete replace s (r, op)) = keyOf s"
proof (cases op)
  case (OpAdd obj)
  then show ?thesis by (cases "keyOf s obj") (use add_err add_ok [of s obj _ r] in auto)
next
  case (OpUpdate obj)
  then show ?thesis by (cases "keyOf s obj") (use update_err update_ok [of s obj _ r] in auto)
next
  case (OpDelete obj)
  then show ?thesis by (cases "keyOf s obj") (use delete_err delete_ok [of s obj _ r] in auto)
next
  case (OpReplace xs)
  then show ?thesis
    by (cases "keyed_items (keyOf s) xs Map.empty") (use replace_err replace_ok [of s xs _ r] in auto)
qed

lemma run_refines:
  "items (foldl (store_apply add update delete replace) s ops)
     = foldl (spec_op (keyOf s)) (items s) (map snd ops)"
proof (induction ops arbitrary: s)
  case (Cons rop ops)
  obtain r op where "rop = (r, op)" by (cases rop)
  then show ?case using Cons [of "store_apply add update delete replace s rop"] apply_refines [of s r op]
    by simp
qed simp

end

subsection \<open>The cache is a store\<close>

text \<open>The orders of the ranges of one call: over the indexers, twice, and in a replacement over the items.\<close>

record range_orders =
  ro_delete :: "string list"
  ro_update :: "string list"
  ro_index :: "key \<Rightarrow> string list"
  ro_keys :: "key list"

definition cache_apply :: "'o cache \<Rightarrow> range_orders \<times> 'o store_op \<Rightarrow> 'o cache" where
  "cache_apply = store_apply (\<lambda>r. cache_Add (ro_delete r) (ro_update r))
     (\<lambda>r. cache_Update (ro_delete r) (ro_update r)) (\<lambda>r. cache_Delete (ro_delete r))
     (\<lambda>r. cache_Replace (ro_index r) (ro_keys r))"

abbreviation cache_items :: "'o cache \<Rightarrow> (key \<rightharpoonup> 'o)" where
  "cache_items c \<equiv> tsm_items (cacheStorage c)"

interpretation cs: store_interface cache_keyFunc "\<lambda>r::range_orders. cache_Add (ro_delete r) (ro_update r)"
  "\<lambda>r::range_orders. cache_Update (ro_delete r) (ro_update r)" "\<lambda>r::range_orders. cache_Delete (ro_delete r)"
  "\<lambda>r::range_orders. cache_Replace (ro_index r) (ro_keys r)" cache_items
  by unfold_locales
    (simp_all add: cache_Add_def cache_Update_def cache_Delete_def cache_Replace_def tsm_Add_items
      tsm_Update_is_Add tsm_Delete_items tsm_Replace_items)

lemmas cache_run_items = cs.run_refines [folded cache_apply_def]
lemmas cache_apply_items = cs.apply_refines [folded cache_apply_def]

lemma dom_keyed_items: "keyed_items kf xs m = Inr m' \<Longrightarrow> finite (dom m) \<Longrightarrow> finite (dom m')"
  by (induction kf xs m rule: keyed_items.induct) (auto split: sum.splits)

lemma finite_dom_spec_op: "finite (dom m) \<Longrightarrow> finite (dom (spec_op kf m op))"
  by (cases op) (auto split: sum.splits intro: dom_keyed_items)

lemma finite_dom_spec_ops: "finite (dom m) \<Longrightarrow> finite (dom (foldl (spec_op kf) m ops))"
  by (induction ops arbitrary: m) (auto intro: finite_dom_spec_op)

subsection \<open>The undelta store over a run\<close>

definition undelta_apply ::
  "((key \<rightharpoonup> 'o) \<Rightarrow> key list) \<Rightarrow> 'o undeltaStore \<Rightarrow> range_orders \<times> 'o store_op \<Rightarrow> 'o undeltaStore" where
  "undelta_apply order = store_apply (\<lambda>r. undelta_Add order (ro_delete r) (ro_update r))
     (\<lambda>r. undelta_Update order (ro_delete r) (ro_update r)) (\<lambda>r. undelta_Delete order (ro_delete r))
     (\<lambda>r. undelta_Replace order (ro_index r) (ro_keys r))"

fun succeeds :: "'o keyFunc \<Rightarrow> 'o store_op \<Rightarrow> bool" where
  "succeeds kf (OpAdd obj) = (\<not> isl (kf obj))"
| "succeeds kf (OpUpdate obj) = (\<not> isl (kf obj))"
| "succeeds kf (OpDelete obj) = (\<not> isl (kf obj))"
| "succeeds kf (OpReplace xs) = list_all (\<lambda>x. \<not> isl (kf x)) xs"

lemma keyed_items_isr: "\<not> isl (keyed_items kf xs m) \<longleftrightarrow> list_all (\<lambda>x. \<not> isl (kf x)) xs"
proof (induction xs arbitrary: m)
  case (Cons x xs)
  then show ?case by (cases "kf x") simp_all
qed simp

text \<open>A call pushes the contents after it, once, when it succeeds, and nothing otherwise.\<close>

lemma undelta_apply_step:
  "undelta_apply order u (r, op) =
     (let c = cache_apply (undelta_Store u) (r, op)
      in if succeeds (cache_keyFunc (undelta_Store u)) op
         then u\<lparr>undelta_Store := c, undelta_pushed := cache_List (order (cache_items c)) c # undelta_pushed u\<rparr>
         else u)"
proof -
  let ?kf = "cache_keyFunc (undelta_Store u)"
  note defs = undelta_apply_def cache_apply_def undelta_push_def Let_def
  show ?thesis
  proof (cases op)
    case (OpAdd obj)
    then show ?thesis by (cases "?kf obj") (simp_all add: defs undelta_Add_def cache_Add_def)
  next
    case (OpUpdate obj)
    then show ?thesis by (cases "?kf obj") (simp_all add: defs undelta_Update_def cache_Update_def)
  next
    case (OpDelete obj)
    then show ?thesis by (cases "?kf obj") (simp_all add: defs undelta_Delete_def cache_Delete_def)
  next
    case (OpReplace xs)
    then show ?thesis using keyed_items_isr [of ?kf xs Map.empty]
      by (cases "keyed_items ?kf xs Map.empty") (simp_all add: defs undelta_Replace_def cache_Replace_def)
  qed
qed

lemma spec_op_fails: "\<not> succeeds kf op \<Longrightarrow> spec_op kf m op = m"
proof (cases op)
  case (OpReplace xs)
  moreover assume "\<not> succeeds kf op"
  ultimately show ?thesis using keyed_items_isr [of kf xs Map.empty]
    by (cases "keyed_items kf xs Map.empty") simp_all
qed (auto split: sum.splits)

definition snapshots :: "'o keyFunc \<Rightarrow> (key \<rightharpoonup> 'o) \<Rightarrow> 'o store_op list \<Rightarrow> (key \<rightharpoonup> 'o) list" where
  "snapshots kf m ops = map (\<lambda>n. foldl (spec_op kf) m (take (Suc n) ops))
     (filter (\<lambda>n. succeeds kf (ops ! n)) [0..<length ops])"

lemma snapshots_Nil [simp]: "snapshots kf m [] = []"
  by (simp add: snapshots_def)

lemma snapshots_Cons:
  "snapshots kf m (op # ops) =
     (if succeeds kf op then [spec_op kf m op] else []) @ snapshots kf (spec_op kf m op) ops"
proof -
  have "[0..<length (op # ops)] = 0 # map Suc [0..<length ops]"
    by (simp add: upt_conv_Cons map_Suc_upt del: upt_Suc)
  then show ?thesis unfolding snapshots_def by (simp add: filter_map comp_def)
qed

lemma undelta_run:
  "undelta_pushed (foldl (undelta_apply order) u ops) =
     rev (map (\<lambda>m. List.map_filter m (order m))
       (snapshots (cache_keyFunc (undelta_Store u)) (cache_items (undelta_Store u)) (map snd ops)))
     @ undelta_pushed u"
proof (induction ops arbitrary: u)
  case (Cons rop ops)
  obtain r op where rop: "rop = (r, op)" by (cases rop)
  let ?u = "undelta_apply order u (r, op)"
  let ?kf = "cache_keyFunc (undelta_Store u)" and ?m = "cache_items (undelta_Store u)"
  have parts: "cache_keyFunc (undelta_Store ?u) = ?kf" "cache_items (undelta_Store ?u) = spec_op ?kf ?m op"
    "undelta_pushed ?u = (if succeeds ?kf op then [List.map_filter (spec_op ?kf ?m op) (order (spec_op ?kf ?m op))] else [])
      @ undelta_pushed u"
    using cache_apply_items [of "undelta_Store u" r op]
    by (simp_all add: undelta_apply_step spec_op_fails cache_List_def tsm_List_def Let_def)
  show ?case using Cons [of ?u] parts by (simp add: rop snapshots_Cons)
qed simp

lemma map_filter_iter_order:
  assumes "iter_order m ks"
  shows "mset (List.map_filter m ks) = image_mset (\<lambda>k. the (m k)) (mset_set (dom m))"
proof -
  have "filter (\<lambda>k. m k \<noteq> None) ks = ks" using assms by (auto simp: filter_id_conv iter_order_def)
  then have "List.map_filter m ks = map (\<lambda>k. the (m k)) ks" by (simp add: List.map_filter_def comp_def)
  moreover have "mset ks = mset_set (dom m)"
    using assms mset_set_set [of ks] by (auto simp: iter_order_def)
  ultimately show ?thesis by simp
qed

subsection \<open>Properties\<close>

text \<open>
  C28. The key a controller puts in its work queue is read back: the key function writes namespace
  and name of an object, and splitting the key returns exactly these, for a namespaced and for a
  cluster scoped object, as long as neither contains the separator.
\<close>

theorem key_roundtrip:
  assumes "accessor obj = Inr (namespace, name)"
    and "CHR ''/'' \<notin> set namespace" and "CHR ''/'' \<notin> set name"
  shows "\<exists>key. MetaNamespaceKeyFunc accessor (ApiObject obj) = Inr key
    \<and> SplitMetaNamespaceKey key = Inr (namespace, name)"
  using assms
  by (auto simp: MetaNamespaceKeyFunc_def SplitMetaNamespaceKey_def strings_Split_plain strings_Split_once)

theorem key_roundtrip_witness:
  "\<exists>key. MetaNamespaceKeyFunc (\<lambda>obj. Inr (''kube-system'', obj)) (ApiObject ''dns'') = Inr key
     \<and> SplitMetaNamespaceKey key = Inr (''kube-system'', ''dns'')"
  by (rule key_roundtrip) simp_all


text \<open>
  The undelta store sends the complete state on every change: over any sequence of calls the
  pushed lists are, call by call, the contents of the store after each call that succeeds, every
  object once, and a call that fails pushes nothing.
\<close>

theorem undelta_pushes_states:
  assumes "\<And>m. finite (dom m) \<Longrightarrow> iter_order m (order m)"
  shows "map mset (rev (undelta_pushed (foldl (undelta_apply order) (NewUndeltaStore kf) ops)))
    = map (\<lambda>m. image_mset (\<lambda>k. the (m k)) (mset_set (dom m))) (snapshots kf Map.empty (map snd ops))"
proof -
  have "cache_keyFunc (undelta_Store (NewUndeltaStore kf)) = kf"
    "cache_items (undelta_Store (NewUndeltaStore kf)) = Map.empty" "undelta_pushed (NewUndeltaStore kf) = []"
    by (simp_all add: NewUndeltaStore_def NewStore_def NewThreadSafeStore_def)
  moreover have "iter_order m (order m)" if "m \<in> set (snapshots kf Map.empty (map snd ops))" for m
    using that by (auto simp: snapshots_def intro!: assms finite_dom_spec_ops)
  ultimately show ?thesis by (simp add: undelta_run map_filter_iter_order)
qed

theorem undelta_pushes_states_witness:
  "\<forall>r. map mset (rev (undelta_pushed (foldl (undelta_apply (\<lambda>m. sorted_list_of_set (dom m))) (NewUndeltaStore Inr)
      [(r, OpAdd ''a''), (r, OpAdd ''b''), (r, OpDelete ''a'')])))
    = [{#''a''#}, {#''a'', ''b''#}, {#''b''#}]"
proof -
  have order: "iter_order m (sorted_list_of_set (dom m))" if "finite (dom m)" for m :: "key \<rightharpoonup> string"
    using that by (simp add: iter_order_def)
  let ?ops = "[OpAdd ''a'', OpAdd ''b'', OpDelete ''a'']"
  have "snapshots Inr Map.empty ?ops
    = [[''a'' \<mapsto> ''a''], [''a'' \<mapsto> ''a'', ''b'' \<mapsto> ''b''], [''b'' \<mapsto> ''b'']]"
    by (simp add: snapshots_Cons fun_eq_iff)
  then show ?thesis
    using undelta_pushes_states [OF order, of Inr "[(r, OpAdd ''a''), (r, OpAdd ''b''), (r, OpDelete ''a'')]" for r]
    by (simp add: insert_commute)
qed

end
