(* ===== verification/FIFO.thy ===== *)
theory FIFO
  imports Store
begin

section \<open>The queue of latest versions (\<^verbatim>\<open>pkg/client/cache/fifo.go\<close>)\<close>

text \<open>
  A \<^verbatim>\<open>FIFO\<close> keeps the latest version of every object and a queue of keys. Each method is
  one step under the lock. \<^verbatim>\<open>Pop\<close> drops queued keys without an object, waits with the
  shortened queue when none is left (\<open>Inl\<close>), and otherwise returns the object and the error of
  the processing function (\<open>Inr\<close>).
\<close>

datatype 'e process_result = ProcOk | ProcErr 'e | ErrRequeue "'e option"

fun result_error :: "'e process_result \<Rightarrow> 'e option" where
  "result_error ProcOk = None"
| "result_error (ProcErr e) = Some e"
| "result_error (ErrRequeue e) = e"

record 'o fifo =
  fifo_items :: "key \<rightharpoonup> 'o"
  fifo_queue :: "key list"
  fifo_populated :: bool
  fifo_initialPopulationCount :: int
  fifo_keyFunc :: "'o keyFunc"

definition NewFIFO :: "'o keyFunc \<Rightarrow> 'o fifo" where
  "NewFIFO kf = \<lparr>fifo_items = Map.empty, fifo_queue = [], fifo_populated = False,
     fifo_initialPopulationCount = 0, fifo_keyFunc = kf\<rparr>"

definition fifo_HasSynced :: "'o fifo \<Rightarrow> bool" where
  "fifo_HasSynced f \<longleftrightarrow> fifo_populated f \<and> fifo_initialPopulationCount f = 0"

definition fifo_Add :: "'o \<Rightarrow> 'o fifo \<Rightarrow> 'o key_error + 'o fifo" where
  "fifo_Add obj f =
     (case fifo_keyFunc f obj of
        Inl err \<Rightarrow> Inl (KeyError obj err)
      | Inr key \<Rightarrow>
          let f = f\<lparr>fifo_populated := True\<rparr>;
              f = (if fifo_items f key = None then f\<lparr>fifo_queue := fifo_queue f @ [key]\<rparr> else f)
          in Inr (f\<lparr>fifo_items := (fifo_items f)(key \<mapsto> obj)\<rparr>))"

definition fifo_addIfNotPresent :: "key \<Rightarrow> 'o \<Rightarrow> 'o fifo \<Rightarrow> 'o fifo" where
  "fifo_addIfNotPresent key obj f =
     (let f = f\<lparr>fifo_populated := True\<rparr>
      in if fifo_items f key \<noteq> None then f
         else f\<lparr>fifo_queue := fifo_queue f @ [key], fifo_items := (fifo_items f)(key \<mapsto> obj)\<rparr>)"

definition fifo_AddIfNotPresent :: "'o \<Rightarrow> 'o fifo \<Rightarrow> 'o key_error + 'o fifo" where
  "fifo_AddIfNotPresent obj f =
     (case fifo_keyFunc f obj of
        Inl err \<Rightarrow> Inl (KeyError obj err)
      | Inr key \<Rightarrow> Inr (fifo_addIfNotPresent key obj f))"

definition fifo_Update :: "'o \<Rightarrow> 'o fifo \<Rightarrow> 'o key_error + 'o fifo" where
  "fifo_Update obj f = fifo_Add obj f"

definition fifo_Delete :: "'o \<Rightarrow> 'o fifo \<Rightarrow> 'o key_error + 'o fifo" where
  "fifo_Delete obj f =
     (case fifo_keyFunc f obj of
        Inl err \<Rightarrow> Inl (KeyError obj err)
      | Inr key \<Rightarrow> Inr (f\<lparr>fifo_populated := True, fifo_items := (fifo_items f)(key := None)\<rparr>))"

definition fifo_List :: "key list \<Rightarrow> 'o fifo \<Rightarrow> 'o list" where
  "fifo_List ks f = List.map_filter (fifo_items f) ks"

definition fifo_ListKeys :: "key list \<Rightarrow> 'o fifo \<Rightarrow> key list" where
  "fifo_ListKeys ks f = filter (\<lambda>k. fifo_items f k \<noteq> None) ks"

definition fifo_GetByKey :: "key \<Rightarrow> 'o fifo \<Rightarrow> 'o option" where
  "fifo_GetByKey key f = fifo_items f key"

definition fifo_Get :: "'o \<Rightarrow> 'o fifo \<Rightarrow> 'o key_error + 'o option" where
  "fifo_Get obj f =
     (case fifo_keyFunc f obj of
        Inl err \<Rightarrow> Inl (KeyError obj err)
      | Inr key \<Rightarrow> Inr (fifo_GetByKey key f))"

text \<open>The loop of \<^verbatim>\<open>Pop\<close>; its argument is the queue the iteration starts with.\<close>

fun fifo_pop_loop ::
  "('o \<Rightarrow> 'e process_result) \<Rightarrow> key list \<Rightarrow> 'o fifo \<Rightarrow> 'o fifo + ('o \<times> 'e option) \<times> 'o fifo"
where
  "fifo_pop_loop process [] f = Inl (f\<lparr>fifo_queue := []\<rparr>)"
| "fifo_pop_loop process (key # queue) f =
     (let n = fifo_initialPopulationCount f;
          f = f\<lparr>fifo_queue := queue, fifo_initialPopulationCount := (if n > 0 then n - 1 else n)\<rparr>
      in case fifo_items f key of
           None \<Rightarrow> fifo_pop_loop process queue f
         | Some item \<Rightarrow>
             let f = f\<lparr>fifo_items := (fifo_items f)(key := None)\<rparr>
             in case process item of
                  ErrRequeue e \<Rightarrow> Inr ((item, e), fifo_addIfNotPresent key item f)
                | r \<Rightarrow> Inr ((item, result_error r), f))"

definition fifo_Pop ::
  "('o \<Rightarrow> 'e process_result) \<Rightarrow> 'o fifo \<Rightarrow> 'o fifo + ('o \<times> 'e option) \<times> 'o fifo" where
  "fifo_Pop process f = fifo_pop_loop process (fifo_queue f) f"

text \<open>The keys of the new items in the order \<open>ks\<close> of the range.\<close>

definition fifo_Replace :: "key list \<Rightarrow> 'o list \<Rightarrow> 'o fifo \<Rightarrow> 'o key_error + 'o fifo" where
  "fifo_Replace ks xs f =
     (case keyed_items (fifo_keyFunc f) xs Map.empty of
        Inl err \<Rightarrow> Inl err
      | Inr items \<Rightarrow>
          let f = (if \<not> fifo_populated f
                   then f\<lparr>fifo_populated := True, fifo_initialPopulationCount := int (card (dom items))\<rparr>
                   else f)
          in Inr (f\<lparr>fifo_items := items, fifo_queue := filter (\<lambda>k. items k \<noteq> None) ks\<rparr>))"

definition fifo_Resync :: "key list \<Rightarrow> 'o fifo \<Rightarrow> 'o fifo" where
  "fifo_Resync ks f =
     (let inQueue = set (fifo_queue f)
      in f\<lparr>fifo_queue := fifo_queue f @ filter (\<lambda>key. fifo_items f key \<noteq> None \<and> key \<notin> inQueue) ks\<rparr>)"

subsection \<open>The methods as steps\<close>

text \<open>
  What the environment sees: the calls that succeed, the objects popped (with whether the
  processing function asked for a requeue), and a \<^verbatim>\<open>Pop\<close> that starts waiting.
\<close>

datatype 'o fifo_event =
    FAdd key 'o | FAddIfNotPresent key 'o | FDelete key | FReplace "key \<rightharpoonup> 'o" | FResync
  | FPop key 'o bool | FWait

inductive fifo_step :: "'o fifo \<Rightarrow> 'o fifo_event \<Rightarrow> 'o fifo \<Rightarrow> bool" where
  fifo_add: "fifo_keyFunc f obj = Inr key \<Longrightarrow> fifo_Add obj f = Inr f' \<Longrightarrow> fifo_step f (FAdd key obj) f'"
| fifo_add_absent: "fifo_keyFunc f obj = Inr key \<Longrightarrow> fifo_AddIfNotPresent obj f = Inr f' \<Longrightarrow>
     fifo_step f (FAddIfNotPresent key obj) f'"
| fifo_delete: "fifo_keyFunc f obj = Inr key \<Longrightarrow> fifo_Delete obj f = Inr f' \<Longrightarrow> fifo_step f (FDelete key) f'"
| fifo_replace: "keyed_items (fifo_keyFunc f) xs Map.empty = Inr items \<Longrightarrow> iter_order items ks \<Longrightarrow>
     fifo_Replace ks xs f = Inr f' \<Longrightarrow> fifo_step f (FReplace items) f'"
| fifo_resync: "iter_order (fifo_items f) ks \<Longrightarrow> fifo_step f FResync (fifo_Resync ks f)"
| fifo_pop: "fifo_Pop (process :: 'o \<Rightarrow> string process_result) f = Inr ((item, err), f') \<Longrightarrow> fifo_keyFunc f item = Inr key \<Longrightarrow>
     again = (\<exists>e. process item = ErrRequeue e) \<Longrightarrow> fifo_step f (FPop key item again) f'"
| fifo_wait: "fifo_Pop (process :: 'o \<Rightarrow> string process_result) f = Inl f' \<Longrightarrow> fifo_step f FWait f'"

inductive fifo_run :: "'o fifo \<Rightarrow> 'o fifo_event list \<Rightarrow> 'o fifo \<Rightarrow> bool" where
  fifo_run_nil: "fifo_run f [] f"
| fifo_run_cons: "fifo_step f e f' \<Longrightarrow> fifo_run f' es f'' \<Longrightarrow> fifo_run f (e # es) f''"

subsection \<open>What a pop does\<close>

definition after_dequeue :: "nat \<Rightarrow> int \<Rightarrow> int" where
  "after_dequeue n c = (if c > int n then c - int n else min c 0)"

lemma after_dequeue_Suc:
  "after_dequeue n (if c > 0 then c - 1 else c) = after_dequeue (Suc n) c"
  by (auto simp: after_dequeue_def)

definition popped_state :: "('o \<Rightarrow> 'e process_result) \<Rightarrow> key list \<Rightarrow> key \<Rightarrow> key list \<Rightarrow> 'o \<Rightarrow> 'o fifo \<Rightarrow> 'o fifo" where
  "popped_state process dead k rest item f =
     (let f1 = f\<lparr>fifo_queue := rest, fifo_items := (fifo_items f)(k := None),
          fifo_initialPopulationCount := after_dequeue (Suc (length dead)) (fifo_initialPopulationCount f)\<rparr>
      in case process item of ErrRequeue e \<Rightarrow> fifo_addIfNotPresent k item f1 | _ \<Rightarrow> f1)"

lemma fifo_pop_loop_cases:
  "(\<forall>k \<in> set q. fifo_items f k = None)
     \<and> fifo_pop_loop process q f = Inl (f\<lparr>fifo_queue := [],
         fifo_initialPopulationCount := after_dequeue (length q) (fifo_initialPopulationCount f)\<rparr>)
   \<or> (\<exists>dead k rest item. q = dead @ k # rest \<and> (\<forall>d \<in> set dead. fifo_items f d = None)
        \<and> fifo_items f k = Some item
        \<and> fifo_pop_loop process q f
            = Inr ((item, result_error (process item)), popped_state process dead k rest item f))"
  (is "?waits q f \<or> ?pops q f")
proof (induction q arbitrary: f)
  case Nil
  then show ?case by (simp add: after_dequeue_def)
next
  case (Cons k q)
  let ?n = "fifo_initialPopulationCount f"
  let ?f = "f\<lparr>fifo_queue := q, fifo_initialPopulationCount := (if ?n > 0 then ?n - 1 else ?n)\<rparr>"
  show ?case
  proof (cases "fifo_items f k")
    case None
    then have loop: "fifo_pop_loop process (k # q) f = fifo_pop_loop process q ?f" by simp
    from Cons [of ?f] show ?thesis
    proof
      assume "?waits q ?f"
      then have "?waits (k # q) f" using None loop by (simp add: after_dequeue_Suc)
      then show ?thesis ..
    next
      assume "?pops q ?f"
      then obtain dead k' rest item where q: "q = dead @ k' # rest"
        "\<forall>d \<in> set dead. fifo_items f d = None" "fifo_items f k' = Some item"
        "fifo_pop_loop process q ?f = Inr ((item, result_error (process item)), popped_state process dead k' rest item ?f)"
        by auto
      moreover have "popped_state process dead k' rest item ?f = popped_state process (k # dead) k' rest item f"
        by (simp add: popped_state_def after_dequeue_Suc)
      ultimately have "k # q = (k # dead) @ k' # rest \<and> (\<forall>d \<in> set (k # dead). fifo_items f d = None)
        \<and> fifo_items f k' = Some item \<and> fifo_pop_loop process (k # q) f
            = Inr ((item, result_error (process item)), popped_state process (k # dead) k' rest item f)"
        using None loop by simp
      then show ?thesis by blast
    qed
  next
    case (Some item)
    have "after_dequeue (Suc 0) ?n = (if ?n > 0 then ?n - 1 else ?n)" by (auto simp: after_dequeue_def)
    then have "fifo_pop_loop process (k # q) f
      = Inr ((item, result_error (process item)), popped_state process [] k q item f)"
      using Some by (cases "process item") (simp_all add: popped_state_def fifo_addIfNotPresent_def Let_def)
    then show ?thesis using Some by (intro disjI2 exI [of _ "[]"] exI [of _ k] exI [of _ q] exI [of _ item]) simp
  qed
qed

lemma fifo_Pop_cases:
  obtains (waits) "\<forall>k \<in> set (fifo_queue f). fifo_items f k = None"
      "fifo_Pop process f = Inl (f\<lparr>fifo_queue := [],
         fifo_initialPopulationCount := after_dequeue (length (fifo_queue f)) (fifo_initialPopulationCount f)\<rparr>)"
  | (pops) dead k rest item where "fifo_queue f = dead @ k # rest"
      "\<forall>d \<in> set dead. fifo_items f d = None" "fifo_items f k = Some item"
      "fifo_Pop process f = Inr ((item, result_error (process item)), popped_state process dead k rest item f)"
  using fifo_pop_loop_cases [where q = "fifo_queue f" and f = f and process = process]
  unfolding fifo_Pop_def by blast

lemma popped_state_parts:
  "fifo_items (popped_state process dead k rest item f)
     = (if \<exists>e. process item = ErrRequeue e then (fifo_items f)(k \<mapsto> item) else (fifo_items f)(k := None))"
  "fifo_queue (popped_state process dead k rest item f)
     = (if \<exists>e. process item = ErrRequeue e then rest @ [k] else rest)"
  "fifo_keyFunc (popped_state process dead k rest item f) = fifo_keyFunc f"
  "fifo_initialPopulationCount (popped_state process dead k rest item f)
     = after_dequeue (Suc (length dead)) (fifo_initialPopulationCount f)"
  by (cases "process item"; simp add: popped_state_def fifo_addIfNotPresent_def Let_def)+

subsection \<open>Every object is queued\<close>

definition keyed :: "'o keyFunc \<Rightarrow> (key \<rightharpoonup> 'o) \<Rightarrow> bool" where
  "keyed kf m \<longleftrightarrow> (\<forall>k x. m k = Some x \<longrightarrow> kf x = Inr k)"

lemma keyed_empty: "keyed kf Map.empty"
  by (simp add: keyed_def)

lemma keyed_upd: "keyed kf m \<Longrightarrow> kf x = Inr k \<Longrightarrow> keyed kf (m(k \<mapsto> x))"
  by (simp add: keyed_def)

lemma keyed_delete: "keyed kf m \<Longrightarrow> keyed kf (m(k := None))"
  by (simp add: keyed_def)

lemma keyed_key: "keyed kf m \<Longrightarrow> m k = Some x \<Longrightarrow> kf x = Inr k"
  by (simp add: keyed_def)

lemma keyed_items_keyed: "keyed_items kf xs m = Inr m' \<Longrightarrow> keyed kf m \<Longrightarrow> keyed kf m'"
proof (induction xs arbitrary: m)
  case (Cons y ys)
  then show ?case by (cases "kf y") (auto intro: keyed_upd)
qed simp

definition fifo_inv :: "'o fifo \<Rightarrow> bool" where
  "fifo_inv f \<longleftrightarrow> keyed (fifo_keyFunc f) (fifo_items f) \<and> dom (fifo_items f) \<subseteq> set (fifo_queue f)
     \<and> 0 \<le> fifo_initialPopulationCount f"

lemma fifo_inv_New: "fifo_inv (NewFIFO kf)"
  by (simp add: fifo_inv_def NewFIFO_def keyed_empty)

lemma after_dequeue_nonneg: "0 \<le> c \<Longrightarrow> after_dequeue n c = max 0 (c - int n)"
  by (auto simp: after_dequeue_def)

fun fifo_spec :: "(key \<rightharpoonup> 'o) \<Rightarrow> 'o fifo_event \<Rightarrow> (key \<rightharpoonup> 'o) \<Rightarrow> bool" where
  "fifo_spec m (FAdd k x) m' \<longleftrightarrow> m' = m(k \<mapsto> x)"
| "fifo_spec m (FAddIfNotPresent k x) m' \<longleftrightarrow> m' = (if m k = None then m(k \<mapsto> x) else m)"
| "fifo_spec m (FDelete k) m' \<longleftrightarrow> m' = m(k := None)"
| "fifo_spec m (FReplace items) m' \<longleftrightarrow> m' = items"
| "fifo_spec m FResync m' \<longleftrightarrow> m' = m"
| "fifo_spec m (FPop k x again) m' \<longleftrightarrow> m k = Some x \<and> m' = (if again then m else m(k := None))"
| "fifo_spec m FWait m' \<longleftrightarrow> m = Map.empty \<and> m' = m"

lemma fifo_step_Pop:
  assumes "fifo_step f (FPop k item again) f'" and "fifo_inv f"
  shows "\<exists>dead rest process. fifo_queue f = dead @ k # rest \<and> (\<forall>d \<in> set dead. fifo_items f d = None)
    \<and> fifo_items f k = Some item \<and> f' = popped_state process dead k rest item f
    \<and> again = (\<exists>e. process item = ErrRequeue (e :: string option))"
proof -
  from assms(1) obtain process :: "'a \<Rightarrow> string process_result" and err where
    pop: "fifo_Pop process f = Inr ((item, err), f')" "fifo_keyFunc f item = Inr k"
    "again = (\<exists>e. process item = ErrRequeue e)"
    by (cases rule: fifo_step.cases) auto
  show ?thesis
  proof (cases rule: fifo_Pop_cases [of f process])
    case waits
    then show ?thesis using pop by simp
  next
    case (pops dead k' rest item')
    then have "k' = k" "item' = item" "f' = popped_state process dead k rest item f"
      using assms(2) pop keyed_key [of "fifo_keyFunc f" "fifo_items f" k' item'] by (auto simp: fifo_inv_def)
    then show ?thesis using pops pop(3) by blast
  qed
qed

lemma fifo_step_Wait:
  assumes "fifo_step f FWait f'"
  shows "\<forall>k \<in> set (fifo_queue f). fifo_items f k = None" and "f' = f\<lparr>fifo_queue := [],
    fifo_initialPopulationCount := after_dequeue (length (fifo_queue f)) (fifo_initialPopulationCount f)\<rparr>"
proof -
  from assms obtain process :: "'a \<Rightarrow> string process_result" where pop: "fifo_Pop process f = Inl f'"
    by (cases rule: fifo_step.cases) auto
  show "\<forall>k \<in> set (fifo_queue f). fifo_items f k = None"
    by (cases rule: fifo_Pop_cases [of f process]) (use pop in auto)
  show "f' = f\<lparr>fifo_queue := [],
    fifo_initialPopulationCount := after_dequeue (length (fifo_queue f)) (fifo_initialPopulationCount f)\<rparr>"
    by (cases rule: fifo_Pop_cases [of f process]) (use pop in auto)
qed

inductive_cases fifo_step_addE: "fifo_step f (FAdd k x) f'"
inductive_cases fifo_step_absentE: "fifo_step f (FAddIfNotPresent k x) f'"
inductive_cases fifo_step_deleteE: "fifo_step f (FDelete k) f'"
inductive_cases fifo_step_replaceE: "fifo_step f (FReplace m) f'"
inductive_cases fifo_step_resyncE: "fifo_step f FResync f'"

lemma fifo_step_keyFunc: "fifo_step f e f' \<Longrightarrow> fifo_keyFunc f' = fifo_keyFunc f"
proof (induction rule: fifo_step.induct)
  case (fifo_pop process f item err f' k again)
  then show ?case by (cases rule: fifo_Pop_cases [of f process]) (auto simp: popped_state_parts)
next
  case (fifo_wait process f f')
  then show ?case by (cases rule: fifo_Pop_cases [of f process]) auto
qed (auto simp: fifo_Add_def fifo_AddIfNotPresent_def fifo_addIfNotPresent_def fifo_Delete_def
    fifo_Replace_def fifo_Resync_def Let_def split: if_splits)

lemma fifo_add_parts:
  "fifo_step f (FAdd k x) f' \<Longrightarrow> fifo_keyFunc f x = Inr k \<and> fifo_items f' = (fifo_items f)(k \<mapsto> x)
     \<and> fifo_queue f' = (if fifo_items f k = None then fifo_queue f @ [k] else fifo_queue f)
     \<and> fifo_initialPopulationCount f' = fifo_initialPopulationCount f"
  by (erule fifo_step_addE) (auto simp: fifo_Add_def Let_def)

lemma fifo_absent_parts:
  "fifo_step f (FAddIfNotPresent k x) f' \<Longrightarrow> fifo_keyFunc f x = Inr k
     \<and> fifo_items f' = (if fifo_items f k = None then (fifo_items f)(k \<mapsto> x) else fifo_items f)
     \<and> fifo_queue f' = (if fifo_items f k = None then fifo_queue f @ [k] else fifo_queue f)
     \<and> fifo_initialPopulationCount f' = fifo_initialPopulationCount f"
  by (erule fifo_step_absentE) (auto simp: fifo_AddIfNotPresent_def fifo_addIfNotPresent_def Let_def)

lemma fifo_delete_parts:
  "fifo_step f (FDelete k) f' \<Longrightarrow> fifo_items f' = (fifo_items f)(k := None) \<and> fifo_queue f' = fifo_queue f
     \<and> fifo_initialPopulationCount f' = fifo_initialPopulationCount f"
  by (erule fifo_step_deleteE) (auto simp: fifo_Delete_def)

lemma fifo_replace_parts:
  "fifo_step f (FReplace m) f' \<Longrightarrow> (\<exists>xs. keyed_items (fifo_keyFunc f) xs Map.empty = Inr m)
     \<and> fifo_items f' = m \<and> iter_order m (fifo_queue f') \<and> fifo_populated f'
     \<and> fifo_initialPopulationCount f'
         = (if fifo_populated f then fifo_initialPopulationCount f else int (card (dom m)))"
  by (erule fifo_step_replaceE) (auto simp: fifo_Replace_def Let_def iter_order_def)

lemma fifo_resync_parts:
  "fifo_step f FResync f' \<Longrightarrow> fifo_items f' = fifo_items f
     \<and> fifo_initialPopulationCount f' = fifo_initialPopulationCount f
     \<and> (\<exists>ks. distinct ks \<and> set ks = dom (fifo_items f) - set (fifo_queue f) \<and> fifo_queue f' = fifo_queue f @ ks)"
proof (erule fifo_step_resyncE, intro conjI exI)
  fix ks
  assume "f' = fifo_Resync ks f" and "iter_order (fifo_items f) ks"
  then show "distinct (filter (\<lambda>k. k \<notin> set (fifo_queue f)) ks)"
    "set (filter (\<lambda>k. k \<notin> set (fifo_queue f)) ks) = dom (fifo_items f) - set (fifo_queue f)"
    "fifo_queue f' = fifo_queue f @ filter (\<lambda>k. k \<notin> set (fifo_queue f)) ks"
    by (auto simp: fifo_Resync_def iter_order_def intro!: filter_cong)
qed (simp_all add: fifo_Resync_def)

lemmas fifo_parts = fifo_add_parts fifo_absent_parts fifo_delete_parts fifo_replace_parts fifo_resync_parts

lemma fifo_inv_step:
  assumes "fifo_step f e f'" and "fifo_inv f"
  shows "fifo_inv f'"
proof -
  note kf = fifo_step_keyFunc [OF assms(1)]
  have keyed: "keyed (fifo_keyFunc f) (fifo_items f)" and queued: "dom (fifo_items f) \<subseteq> set (fifo_queue f)"
    and nonneg: "0 \<le> fifo_initialPopulationCount f"
    using assms(2) by (simp_all add: fifo_inv_def)
  show ?thesis
  proof (cases e)
    case (FAdd k x)
    then show ?thesis using fifo_add_parts [of f k x f'] assms(1) kf keyed queued nonneg
      by (auto simp: fifo_inv_def keyed_upd)
  next
    case (FAddIfNotPresent k x)
    then show ?thesis using fifo_absent_parts [of f k x f'] assms(1) kf keyed queued nonneg
      by (auto simp: fifo_inv_def keyed_upd)
  next
    case (FDelete k)
    then show ?thesis using fifo_delete_parts [of f k f'] assms(1) kf keyed queued nonneg
      by (auto simp: fifo_inv_def keyed_delete)
  next
    case (FReplace m)
    then obtain xs where "keyed_items (fifo_keyFunc f) xs Map.empty = Inr m"
      using fifo_replace_parts assms(1) by blast
    then have "keyed (fifo_keyFunc f) m" by (rule keyed_items_keyed [OF _ keyed_empty])
    then show ?thesis using fifo_replace_parts [OF assms(1) [unfolded FReplace]] kf nonneg
      by (simp add: fifo_inv_def iter_order_def)
  next
    case FResync
    with assms(1) obtain ks where "set ks = dom (fifo_items f) - set (fifo_queue f)"
      and f': "fifo_queue f' = fifo_queue f @ ks" "fifo_items f' = fifo_items f"
      "fifo_initialPopulationCount f' = fifo_initialPopulationCount f"
      using fifo_resync_parts by blast
    then have "dom (fifo_items f) \<subseteq> set (fifo_queue f) \<union> set ks" by blast
    then show ?thesis using f' kf keyed nonneg by (simp add: fifo_inv_def)
  next
    case (FPop k x again)
    with assms obtain dead rest and process :: "'a \<Rightarrow> string process_result" where
      q: "fifo_queue f = dead @ k # rest" "\<forall>d \<in> set dead. fifo_items f d = None" "fifo_items f k = Some x"
      and f': "f' = popped_state process dead k rest x f"
      using fifo_step_Pop [of f k x again f'] by blast
    have "dom (fifo_items f) \<subseteq> insert k (set rest)" using q queued by auto
    then show ?thesis using keyed_key [OF keyed q(3)] keyed nonneg unfolding f'
      by (auto simp: fifo_inv_def popped_state_parts after_dequeue_nonneg keyed_upd keyed_delete)
  next
    case FWait
    with assms(1) have w: "fifo_step f FWait f'" by simp
    have "dom (fifo_items f) = {}" using fifo_step_Wait(1) [OF w] queued by auto
    then show ?thesis using fifo_step_Wait(2) [OF w] nonneg
      by (simp add: fifo_inv_def after_dequeue_nonneg keyed_empty)
  qed
qed

lemma fifo_step_spec:
  assumes "fifo_step f e f'" and "fifo_inv f"
  shows "fifo_spec (fifo_items f) e (fifo_items f')"
proof (cases e)
  case (FPop k x again)
  with assms obtain dead rest and process :: "'a \<Rightarrow> string process_result" where
    "fifo_items f k = Some x" "f' = popped_state process dead k rest x f"
    "again = (\<exists>e. process x = ErrRequeue e)"
    using fifo_step_Pop [of f k x again f'] by blast
  then show ?thesis using FPop by (auto simp: popped_state_parts fun_eq_iff)
next
  case FWait
  with assms(1) have w: "fifo_step f FWait f'" by simp
  have "\<forall>k \<in> set (fifo_queue f). fifo_items f k = None" and f': "fifo_items f' = fifo_items f"
    using fifo_step_Wait [OF w] by simp_all
  then have "fifo_items f k = None" for k using assms(2) by (cases "fifo_items f k") (auto simp: fifo_inv_def)
  then show ?thesis using FWait f' by auto
qed (use assms(1) in \<open>auto dest: fifo_parts\<close>)

lemma fifo_run_inv: "fifo_run f es f' \<Longrightarrow> fifo_inv f \<Longrightarrow> fifo_inv f'"
  by (induction rule: fifo_run.induct) (auto intro: fifo_inv_step)

subsection \<open>The queue is a store\<close>

definition fifo_apply :: "'o fifo \<Rightarrow> key list \<times> 'o store_op \<Rightarrow> 'o fifo" where
  "fifo_apply = store_apply (\<lambda>r. fifo_Add) (\<lambda>r. fifo_Update) (\<lambda>r. fifo_Delete) fifo_Replace"

interpretation fs: store_interface fifo_keyFunc "\<lambda>r::key list. fifo_Add" "\<lambda>r::key list. fifo_Update"
  "\<lambda>r::key list. fifo_Delete" fifo_Replace fifo_items
  by unfold_locales
    (simp_all add: fifo_Add_def fifo_Update_def fifo_Delete_def fifo_Replace_def Let_def)

lemmas fifo_run_items = fs.run_refines [folded fifo_apply_def]

subsection \<open>Counting the versions that are processed\<close>

fun finishes :: "key \<Rightarrow> 'o fifo_event \<Rightarrow> nat" where
  "finishes k (FPop k' x again) = (if k' = k \<and> \<not> again then 1 else 0)"
| "finishes k _ = 0"

fun changes :: "key \<Rightarrow> 'o fifo_event \<Rightarrow> nat" where
  "changes k (FAdd k' x) = (if k' = k then 1 else 0)"
| "changes k (FAddIfNotPresent k' x) = (if k' = k then 1 else 0)"
| "changes k (FReplace m) = (if m k \<noteq> None then 1 else 0)"
| "changes k _ = 0"

definition held :: "key \<Rightarrow> 'o fifo \<Rightarrow> nat" where
  "held k f = (if fifo_items f k \<noteq> None then 1 else 0)"

lemma fifo_spec_count:
  "fifo_spec (fifo_items f) e (fifo_items f') \<Longrightarrow> finishes k e + held k f' \<le> held k f + changes k e"
  by (cases e) (auto simp: held_def split: if_splits)

lemma fifo_run_count:
  "fifo_run f es f' \<Longrightarrow> fifo_inv f \<Longrightarrow>
     sum_list (map (finishes k) es) + held k f' \<le> held k f + sum_list (map (changes k) es)"
proof (induction rule: fifo_run.induct)
  case (fifo_run_cons f e f' es f'')
  then have "finishes k e + held k f' \<le> held k f + changes k e"
    and "sum_list (map (finishes k) es) + held k f'' \<le> held k f' + sum_list (map (changes k) es)"
    using fifo_spec_count [OF fifo_step_spec] fifo_inv_step by blast+
  then show ?case by simp
qed simp

subsection \<open>The queue without deletions\<close>

definition queue_exact :: "'o fifo \<Rightarrow> bool" where
  "queue_exact f \<longleftrightarrow> distinct (fifo_queue f) \<and> set (fifo_queue f) = dom (fifo_items f)"

lemma queue_exact_step:
  assumes "fifo_step f e f'" and "fifo_inv f" and "queue_exact f" and "\<forall>k. e \<noteq> FDelete k"
  shows "queue_exact f'"
proof (cases e)
  case (FAdd k x)
  then show ?thesis using fifo_add_parts [of f k x f'] assms by (auto simp: queue_exact_def)
next
  case (FAddIfNotPresent k x)
  then show ?thesis using fifo_absent_parts [of f k x f'] assms by (auto simp: queue_exact_def)
next
  case (FReplace m)
  then show ?thesis using fifo_replace_parts [of f m f'] assms by (simp add: queue_exact_def iter_order_def)
next
  case FResync
  then obtain ks where "set ks = dom (fifo_items f) - set (fifo_queue f)"
    and f': "fifo_queue f' = fifo_queue f @ ks" "fifo_items f' = fifo_items f"
    using assms(1) fifo_resync_parts [of f f'] by blast
  then have "ks = []" using assms(3) by (simp add: queue_exact_def)
  then show ?thesis using f' assms(3) by (simp add: queue_exact_def)
next
  case (FPop k x again)
  with assms(1,2) obtain dead rest and process :: "'a \<Rightarrow> string process_result" where
    q: "fifo_queue f = dead @ k # rest" "\<forall>d \<in> set dead. fifo_items f d = None" "fifo_items f k = Some x"
    and f': "f' = popped_state process dead k rest x f"
    using fifo_step_Pop [of f k x again f'] by blast
  have "set dead \<subseteq> dom (fifo_items f)" using assms(3) q(1) by (auto simp: queue_exact_def)
  then have "dead = []" using q(2) by (cases dead) auto
  then have rest: "distinct (k # rest)" "dom (fifo_items f) = insert k (set rest)"
    using assms(3) q(1) by (simp_all add: queue_exact_def)
  show ?thesis using rest unfolding f' queue_exact_def by (auto simp: popped_state_parts)
next
  case FWait
  with assms(1) have w: "fifo_step f FWait f'" by simp
  have "dom (fifo_items f) = {}" using fifo_step_Wait(1) [OF w] assms(2) by (auto simp: fifo_inv_def)
  then show ?thesis using fifo_step_Wait(2) [OF w] by (simp add: queue_exact_def)
qed (use assms(4) in blast)

lemma queue_exact_run:
  "fifo_run f es f' \<Longrightarrow> fifo_inv f \<Longrightarrow> queue_exact f \<Longrightarrow> (\<forall>k. FDelete k \<notin> set es) \<Longrightarrow> queue_exact f'"
proof (induction rule: fifo_run.induct)
  case (fifo_run_cons f e f' es f'')
  then show ?case using queue_exact_step [of f e f'] fifo_inv_step [of f e f'] by auto
qed

subsection \<open>The first batch\<close>

fun touched :: "'o fifo_event \<Rightarrow> key set" where
  "touched (FPop k x again) = {k}"
| "touched (FDelete k) = {k}"
| "touched _ = {}"

text \<open>
  The counter is the length of the part of the queue the first \<^verbatim>\<open>Replace\<close> filled; the keys of
  the batch \<open>B\<close> that are not yet \<open>D\<close>one are in it, with an object.
\<close>

definition batch_left :: "key set \<Rightarrow> key set \<Rightarrow> 'o fifo \<Rightarrow> bool" where
  "batch_left B D f \<longleftrightarrow> fifo_populated f \<and> fifo_initialPopulationCount f \<le> int (length (fifo_queue f))
     \<and> (\<forall>k \<in> B - D. k \<in> set (take (nat (fifo_initialPopulationCount f)) (fifo_queue f)) \<and> fifo_items f k \<noteq> None)"

lemma fifo_step_populated: "fifo_step f e f' \<Longrightarrow> fifo_populated f \<Longrightarrow> fifo_populated f'"
proof (induction rule: fifo_step.induct)
  case (fifo_pop process f item err f' k again)
  then show ?case
    by (cases rule: fifo_Pop_cases [of f process])
      (auto simp: popped_state_def fifo_addIfNotPresent_def Let_def split: process_result.splits)
next
  case (fifo_wait process f f')
  then show ?case by (cases rule: fifo_Pop_cases [of f process]) auto
qed (auto simp: fifo_Add_def fifo_AddIfNotPresent_def fifo_addIfNotPresent_def fifo_Delete_def
    fifo_Replace_def fifo_Resync_def Let_def)

lemma take_shift:
  "x \<in> set (take n (dead @ k # rest)) \<Longrightarrow> x \<notin> set dead \<Longrightarrow> x \<noteq> k \<Longrightarrow> x \<in> set (take (n - Suc (length dead)) (rest @ tail))"
  by (auto simp: take_Cons' dest: in_set_takeD split: if_splits)

lemma batch_left_Pop:
  assumes "batch_left B D f" and "0 \<le> fifo_initialPopulationCount f"
    and q: "fifo_queue f = dead @ k # rest" "\<forall>d \<in> set dead. fifo_items f d = None"
    and f': "f' = popped_state process dead k rest item f" "fifo_populated f'"
  shows "batch_left B (insert k D) f'"
proof -
  let ?n = "fifo_initialPopulationCount f" and ?n' = "fifo_initialPopulationCount f'"
  have n': "?n' = max 0 (?n - int (Suc (length dead)))"
    using f' assms(2) by (simp add: popped_state_parts after_dequeue_nonneg)
  obtain tail where queue': "fifo_queue f' = rest @ tail"
    using f'(1) popped_state_parts(2) [of process dead k rest item f] by (cases "\<exists>e. process item = ErrRequeue e") auto
  have "?n' \<le> int (length (fifo_queue f'))"
    using assms(1) n' by (simp add: batch_left_def q(1) queue')
  moreover have "x \<in> set (take (nat ?n') (fifo_queue f')) \<and> fifo_items f' x \<noteq> None" if "x \<in> B - insert k D" for x
  proof -
    have x: "x \<in> set (take (nat ?n) (dead @ k # rest))" "fifo_items f x \<noteq> None" "x \<noteq> k"
      using that assms(1) q(1) by (auto simp: batch_left_def)
    then have "x \<in> set (take (nat ?n - Suc (length dead)) (fifo_queue f'))"
      unfolding queue' using q(2) by (intro take_shift) auto
    moreover have "nat ?n' = nat ?n - Suc (length dead)" using n' assms(2) by linarith
    ultimately show ?thesis using x f'(1) by (simp add: popped_state_parts)
  qed
  ultimately show ?thesis using f'(2) by (simp add: batch_left_def)
qed

lemma batch_left_step:
  assumes "fifo_step f e f'" and "fifo_inv f" and "batch_left B D f" and "\<forall>m. e \<noteq> FReplace m"
  shows "batch_left B (D \<union> touched e) f'"
proof -
  have pop: "fifo_populated f'" using fifo_step_populated assms(1,3) by (auto simp: batch_left_def)
  have nonneg: "0 \<le> fifo_initialPopulationCount f" using assms(2) by (simp add: fifo_inv_def)
  show ?thesis
  proof (cases e)
    case (FAdd k x)
    then show ?thesis using fifo_add_parts [of f k x f'] assms(1,3) pop by (auto simp: batch_left_def)
  next
    case (FAddIfNotPresent k x)
    then show ?thesis using fifo_absent_parts [of f k x f'] assms(1,3) pop by (auto simp: batch_left_def)
  next
    case (FDelete k)
    then show ?thesis using fifo_delete_parts [of f k f'] assms(1,3) pop by (auto simp: batch_left_def)
  next
    case FResync
    then show ?thesis using fifo_resync_parts [of f f'] assms(1,3) pop by (auto simp: batch_left_def)
  next
    case (FPop k x again)
    with assms(1,2) obtain dead rest and process :: "'a \<Rightarrow> string process_result" where
      "fifo_queue f = dead @ k # rest" "\<forall>d \<in> set dead. fifo_items f d = None"
      "f' = popped_state process dead k rest x f"
      using fifo_step_Pop [of f k x again f'] by blast
    from batch_left_Pop [OF assms(3) nonneg this pop] show ?thesis using FPop by simp
  next
    case FWait
    with assms(1) have w: "fifo_step f FWait f'" by simp
    have "x \<notin> B - D" for x
    proof
      assume "x \<in> B - D"
      then have "x \<in> set (fifo_queue f)" "fifo_items f x \<noteq> None"
        using assms(3) in_set_takeD unfolding batch_left_def by fast+
      then show False using fifo_step_Wait(1) [OF w] by simp
    qed
    then have "B - D = {}" by blast
    then show ?thesis using fifo_step_Wait(2) [OF w] assms(3) pop nonneg
      by (auto simp: batch_left_def after_dequeue_nonneg)
  qed (use assms(4) in blast)
qed

lemma batch_left_run:
  "fifo_run f es f' \<Longrightarrow> fifo_inv f \<Longrightarrow> batch_left B D f \<Longrightarrow> (\<forall>m. FReplace m \<notin> set es) \<Longrightarrow>
     batch_left B (D \<union> (\<Union>e \<in> set es. touched e)) f'"
proof (induction arbitrary: D rule: fifo_run.induct)
  case (fifo_run_cons f e f' es f'')
  have "batch_left B (D \<union> touched e) f'"
    using fifo_run_cons.prems fifo_run_cons.hyps(1) by (intro batch_left_step) auto
  from fifo_run_cons.IH [OF fifo_inv_step [OF fifo_run_cons.hyps(1) fifo_run_cons.prems(1)] this]
  show ?case using fifo_run_cons.prems(3) by (simp add: Un_assoc)
qed simp

subsection \<open>A small run\<close>

abbreviation example_fifo :: "key list \<Rightarrow> (key \<rightharpoonup> string) \<Rightarrow> string fifo" where
  "example_fifo q m \<equiv> (NewFIFO Inr)\<lparr>fifo_populated := True, fifo_queue := q, fifo_items := m\<rparr>"

lemma example_start: "fifo_step (NewFIFO Inr) (FAdd k k) (example_fifo [k] [k \<mapsto> k])"
  by (rule fifo_add [of _ k]) (simp_all add: NewFIFO_def fifo_Add_def)

lemma example_add: "m k = None \<Longrightarrow> fifo_step (example_fifo q m) (FAdd k k) (example_fifo (q @ [k]) (m(k \<mapsto> k)))"
  by (rule fifo_add [of _ k]) (simp_all add: NewFIFO_def fifo_Add_def)

lemma example_delete: "fifo_step (example_fifo q m) (FDelete k) (example_fifo q (m(k := None)))"
  by (rule fifo_delete [of _ k]) (simp_all add: NewFIFO_def fifo_Delete_def)

lemma example_pop:
  "m k = Some k \<Longrightarrow> fifo_step (example_fifo (k # q) m) (FPop k k False) (example_fifo q (m(k := None)))"
  by (rule fifo_pop [of "\<lambda>_. ProcOk" _ k None]) (simp_all add: NewFIFO_def fifo_Pop_def Let_def)

subsection \<open>Properties\<close>

text \<open>
  C23. The queue implements its contract: every step a reachable \<^verbatim>\<open>FIFO\<close> takes is a step of a
  map of latest versions. In particular \<^verbatim>\<open>Pop\<close> returns the latest version of an object that
  was not deleted and takes it out, a requeue restores it, and \<^verbatim>\<open>Pop\<close> waits only when there
  is no object at all.
\<close>

theorem fifo_refines_spec:
  assumes "fifo_run (NewFIFO kf) es f" and "fifo_step f e f'"
  shows "fifo_spec (fifo_items f) e (fifo_items f')"
  using fifo_step_spec assms fifo_run_inv fifo_inv_New by blast

theorem fifo_refines_spec_witness:
  "\<exists>f f'. fifo_run (NewFIFO Inr) [FAdd ''a'' ''a'', FAdd ''b'' ''b''] f \<and> fifo_step f (FPop ''a'' ''a'' False) f'
     \<and> fifo_items f' = [''b'' \<mapsto> ''b'']"
proof (intro exI conjI)
  show run: "fifo_run (NewFIFO Inr) [FAdd ''a'' ''a'', FAdd ''b'' ''b'']
      (example_fifo [''a'', ''b''] [''a'' \<mapsto> ''a'', ''b'' \<mapsto> ''b''])"
    using example_start [of "''a''"] example_add [of "[''a'' \<mapsto> ''a'']" "''b''" "[''a'']"]
    by (simp, blast intro: fifo_run_cons fifo_run_nil)
  show step: "fifo_step (example_fifo [''a'', ''b''] [''a'' \<mapsto> ''a'', ''b'' \<mapsto> ''b'']) (FPop ''a'' ''a'' False)
      (example_fifo [''b''] ([''a'' \<mapsto> ''a'', ''b'' \<mapsto> ''b''](''a'' := None)))"
    by (rule example_pop) simp
  show "fifo_items (example_fifo [''b''] ([''a'' \<mapsto> ''a'', ''b'' \<mapsto> ''b''](''a'' := None))) = [''b'' \<mapsto> ''b'']"
    using fifo_refines_spec [OF run step] by (simp add: fun_eq_iff)
qed

text \<open>
  Every object is processed at most once per change: in any run, the number of times a key is
  popped and finished, plus one when an object is still waiting under it, is at most the number
  of additions and replacements that brought an object of that key, although a deletion leaves
  the key in the queue and a later addition queues it a second time.
\<close>

theorem fifo_at_most_once:
  assumes "fifo_run (NewFIFO kf) es f"
  shows "sum_list (map (finishes k) es) + (if fifo_GetByKey k f \<noteq> None then 1 else 0)
    \<le> sum_list (map (changes k) es)"
  using fifo_run_count [OF assms fifo_inv_New, of k] by (simp add: held_def NewFIFO_def fifo_GetByKey_def)

theorem fifo_at_most_once_witness:
  "\<exists>f. fifo_run (NewFIFO Inr) [FAdd ''a'' ''a'', FDelete ''a'', FAdd ''a'' ''a'', FPop ''a'' ''a'' False] f
     \<and> fifo_queue f = [''a''] \<and> fifo_GetByKey ''a'' f = None"
proof -
  have run: "fifo_run (NewFIFO Inr) [FAdd ''a'' ''a'', FDelete ''a'', FAdd ''a'' ''a'', FPop ''a'' ''a'' False]
      (example_fifo [''a''] Map.empty)"
    using example_start [of "''a''"] example_delete [where q = "[''a'']" and m = "[''a'' \<mapsto> ''a'']" and k = "''a''"]
      example_add [of Map.empty "''a''" "[''a'']"] example_pop [where m = "[''a'' \<mapsto> ''a'']" and k = "''a''" and q = "[''a'']"]
    by (simp, blast intro: fifo_run_cons fifo_run_nil)
  from fifo_at_most_once [OF run, of "''a''"] run show ?thesis
    by (intro exI [of _ "example_fifo [''a''] Map.empty"]) (simp add: fifo_GetByKey_def)
qed

text \<open>
  C24. As long as nothing is deleted, the queue holds the keys of the stored objects, each once, so
  that objects are popped in the order in which they were added.
\<close>

theorem fifo_queue_exact:
  assumes "fifo_run (NewFIFO kf) es f" and "\<forall>k. FDelete k \<notin> set es"
  shows "distinct (fifo_queue f) \<and> set (fifo_queue f) = dom (fifo_items f)
    \<and> (\<forall>k q. fifo_queue f = k # q \<longrightarrow>
         (\<exists>item. fifo_items f k = Some item
            \<and> fifo_Pop (\<lambda>_. ProcOk) f = Inr ((item, None :: string option),
                f\<lparr>fifo_queue := q, fifo_items := (fifo_items f)(k := None),
                  fifo_initialPopulationCount := max 0 (fifo_initialPopulationCount f - 1)\<rparr>)))"
proof -
  have exact: "queue_exact f"
    using queue_exact_run [OF assms(1) fifo_inv_New _ assms(2)] by (simp add: queue_exact_def NewFIFO_def)
  have nonneg: "0 \<le> fifo_initialPopulationCount f"
    using fifo_run_inv [OF assms(1) fifo_inv_New] by (simp add: fifo_inv_def)
  have "\<exists>item. fifo_items f k = Some item" if "fifo_queue f = k # q" for k q
    using exact that by (auto simp: queue_exact_def)
  then show ?thesis using exact nonneg by (auto simp: queue_exact_def fifo_Pop_def Let_def max_def)
qed

theorem fifo_queue_exact_witness:
  "\<exists>f. fifo_run (NewFIFO Inr) [FAdd ''a'' ''a'', FAdd ''b'' ''b''] f \<and> fifo_queue f = [''a'', ''b'']
     \<and> dom (fifo_items f) = {''a'', ''b''}"
proof (intro exI conjI)
  let ?f = "example_fifo [''a'', ''b''] [''a'' \<mapsto> ''a'', ''b'' \<mapsto> ''b'']"
  show run: "fifo_run (NewFIFO Inr) [FAdd ''a'' ''a'', FAdd ''b'' ''b''] ?f"
    using example_start [of "''a''"] example_add [of "[''a'' \<mapsto> ''a'']" "''b''" "[''a'']"]
    by (simp, blast intro: fifo_run_cons fifo_run_nil)
  show "fifo_queue ?f = [''a'', ''b'']" by simp
  show "dom (fifo_items ?f) = {''a'', ''b''}" using fifo_queue_exact [OF run] by simp
qed

text \<open>
  \<^verbatim>\<open>HasSynced\<close> means what its callers wait for: after the first
  \<^verbatim>\<open>Replace\<close> on a new queue, in any run without another one, it is true only when every key
  of the first batch was popped or deleted, and it is true when the queue is empty.
\<close>

theorem fifo_has_synced:
  assumes "fifo_step (NewFIFO kf) (FReplace m) f0" and "fifo_run f0 es f" and "\<forall>m. FReplace m \<notin> set es"
  shows "(fifo_HasSynced f \<longrightarrow> (\<forall>k \<in> dom m. FDelete k \<in> set es \<or> (\<exists>x again. FPop k x again \<in> set es)))
    \<and> (fifo_queue f = [] \<longrightarrow> fifo_HasSynced f)"
proof -
  have inv0: "fifo_inv f0" by (rule fifo_inv_step [OF assms(1) fifo_inv_New])
  have "fifo_items f0 = m" "iter_order m (fifo_queue f0)" "fifo_populated f0"
    "fifo_initialPopulationCount f0 = int (length (fifo_queue f0))"
    using fifo_replace_parts [OF assms(1)] iter_order_length [of m "fifo_queue f0"] by (auto simp: NewFIFO_def)
  then have "batch_left (dom m) {} f0" by (auto simp: batch_left_def iter_order_def)
  from batch_left_run [OF assms(2) inv0 this assms(3)]
  have left: "batch_left (dom m) (\<Union>e \<in> set es. touched e) f" by simp
  have nonneg: "0 \<le> fifo_initialPopulationCount f"
    using fifo_run_inv [OF assms(2) inv0] by (simp add: fifo_inv_def)
  have touch: "k \<in> touched e \<longleftrightarrow> e = FDelete k \<or> (\<exists>x again. e = FPop k x again)" for k and e :: "'a fifo_event"
    by (cases e) auto
  have "k \<in> (\<Union>e \<in> set es. touched e)" if "fifo_HasSynced f" "k \<in> dom m" for k
    using that left unfolding batch_left_def fifo_HasSynced_def by fastforce
  then show ?thesis using left nonneg by (auto simp: touch batch_left_def fifo_HasSynced_def)
qed

theorem fifo_has_synced_witness:
  "\<exists>f. fifo_run (NewFIFO Inr) [FReplace [''a'' \<mapsto> ''a''], FPop ''a'' ''a'' False] f \<and> fifo_HasSynced f"
proof -
  let ?m = "[''a'' \<mapsto> ''a'']"
  let ?f0 = "(example_fifo [''a''] ?m)\<lparr>fifo_initialPopulationCount := 1\<rparr>"
  have first: "fifo_step (NewFIFO Inr) (FReplace ?m) ?f0"
    by (rule fifo_replace [of _ "[''a'']" _ "[''a'']"]) (simp_all add: NewFIFO_def fifo_Replace_def iter_order_def)
  have "fifo_step ?f0 (FPop ''a'' ''a'' False) (example_fifo [] Map.empty)"
    by (rule fifo_pop [of "\<lambda>_. ProcOk" _ "''a''" None]) (simp_all add: NewFIFO_def fifo_Pop_def Let_def)
  then have run: "fifo_run ?f0 [FPop ''a'' ''a'' False] (example_fifo [] Map.empty)"
    by (rule fifo_run_cons [OF _ fifo_run_nil])
  have "fifo_HasSynced (example_fifo [] Map.empty)" using fifo_has_synced [OF first run] by simp
  with fifo_run_cons [OF first run] show ?thesis by blast
qed

end
