(* ===== verification/DeltaFIFO.thy ===== *)
theory DeltaFIFO
  imports FIFO
begin

section \<open>The queue of changes (\<^verbatim>\<open>pkg/client/cache/delta_fifo.go\<close>)\<close>

text \<open>
  A \<^verbatim>\<open>DeltaFIFO\<close> accumulates, per key, the changes since the key was last popped. An object in
  it is an API object or the marker of a deletion that was noticed only by a re-list. The known
  objects are another component's store, which changes on its own: the methods that consult it take
  what its methods return as an argument, \<open>None\<close> for a nil \<^verbatim>\<open>knownObjects\<close>. A method
  returns its error, if any, with the state it leaves: \<^verbatim>\<open>Replace\<close> may fail half way.
\<close>

datatype DeltaType = Added | Updated | Deleted | Sync

datatype 'o dobj = Obj 'o | DeletedFinalStateUnknown key "'o dobj option"

datatype 'o delta = Delta (Type: DeltaType) (Object: "'o dobj")

type_synonym 'o deltas = "'o delta list"

datatype 'o delta_arg = OneObject "'o dobj" | DeltasObject "'o deltas"

datatype 'o delta_error = DKeyError "'o delta_arg" string | CouldNotEnqueue "'o delta_error" | NotDeltas

record 'o knownObjects =
  known_ListKeys :: "key list"
  known_GetByKey :: "key \<Rightarrow> string + 'o dobj option"

record 'o deltaFIFO =
  d_items :: "key \<rightharpoonup> 'o deltas"
  d_queue :: "key list"
  d_populated :: bool
  d_initialPopulationCount :: int
  d_keyFunc :: "'o keyFunc"
  d_compressor :: "('o deltas \<Rightarrow> 'o deltas) option"

definition NewDeltaFIFO :: "'o keyFunc \<Rightarrow> ('o deltas \<Rightarrow> 'o deltas) option \<Rightarrow> 'o deltaFIFO" where
  "NewDeltaFIFO kf compressor = \<lparr>d_items = Map.empty, d_queue = [], d_populated = False,
     d_initialPopulationCount = 0, d_keyFunc = kf, d_compressor = compressor\<rparr>"

subsection \<open>Keys, the newest delta, duplicates\<close>

definition Oldest :: "'o deltas \<Rightarrow> 'o delta option" where
  "Oldest d = (if length d > 0 then Some (d ! 0) else None)"

definition Newest :: "'o deltas \<Rightarrow> 'o delta option" where
  "Newest d = (let n = length d in if n > 0 then Some (d ! (n - 1)) else None)"

fun object_key :: "'o keyFunc \<Rightarrow> 'o dobj \<Rightarrow> string + key" where
  "object_key kf (DeletedFinalStateUnknown k _) = Inr k"
| "object_key kf (Obj x) = kf x"

definition KeyOf :: "'o deltaFIFO \<Rightarrow> 'o delta_arg \<Rightarrow> string + key" where
  "KeyOf f obj =
     (case obj of
        DeltasObject d \<Rightarrow>
          (case Newest d of
             None \<Rightarrow> Inl ''0 length Deltas object; can't get key''
           | Some n \<Rightarrow> object_key (d_keyFunc f) (Object n))
      | OneObject x \<Rightarrow> object_key (d_keyFunc f) x)"

definition isDeletionDup :: "'o delta \<Rightarrow> 'o delta \<Rightarrow> 'o delta option" where
  "isDeletionDup a b =
     (if Type b \<noteq> Deleted \<or> Type a \<noteq> Deleted then None
      else case Object b of DeletedFinalStateUnknown _ _ \<Rightarrow> Some a | _ \<Rightarrow> Some b)"

definition isDup :: "'o delta \<Rightarrow> 'o delta \<Rightarrow> 'o delta option" where
  "isDup a b = (case isDeletionDup a b of Some out \<Rightarrow> Some out | None \<Rightarrow> None)"

definition dedupDeltas :: "'o deltas \<Rightarrow> 'o deltas" where
  "dedupDeltas deltas =
     (let n = length deltas
      in if n < 2 then deltas
         else case isDup (deltas ! (n - 1)) (deltas ! (n - 2)) of
                Some out \<Rightarrow> take (n - 2) deltas @ [out]
              | None \<Rightarrow> deltas)"

subsection \<open>The methods\<close>

definition d_HasSynced :: "'o deltaFIFO \<Rightarrow> bool" where
  "d_HasSynced f \<longleftrightarrow> d_populated f \<and> d_initialPopulationCount f = 0"

definition deltas_of :: "'o deltaFIFO \<Rightarrow> key \<Rightarrow> 'o deltas" where
  "deltas_of f k = (case d_items f k of None \<Rightarrow> [] | Some ds \<Rightarrow> ds)"

definition willObjectBeDeletedLocked :: "key \<Rightarrow> 'o deltaFIFO \<Rightarrow> bool" where
  "willObjectBeDeletedLocked k f =
     (let deltas = deltas_of f k
      in length deltas > 0 \<and> Type (deltas ! (length deltas - 1)) = Deleted)"

definition compress :: "('o deltas \<Rightarrow> 'o deltas) option \<Rightarrow> 'o deltas \<Rightarrow> 'o deltas" where
  "compress c ds = (case c of None \<Rightarrow> ds | Some g \<Rightarrow> g ds)"

definition queueActionLocked ::
  "DeltaType \<Rightarrow> 'o dobj \<Rightarrow> 'o deltaFIFO \<Rightarrow> 'o delta_error option \<times> 'o deltaFIFO" where
  "queueActionLocked actionType obj f =
     (case KeyOf f (OneObject obj) of
        Inl err \<Rightarrow> (Some (DKeyError (OneObject obj) err), f)
      | Inr k \<Rightarrow>
          if actionType = Sync \<and> willObjectBeDeletedLocked k f then (None, f)
          else
            let newDeltas = compress (d_compressor f) (dedupDeltas (deltas_of f k @ [Delta actionType obj]))
            in if length newDeltas > 0 then
                 let f = (if d_items f k = None then f\<lparr>d_queue := d_queue f @ [k]\<rparr> else f)
                 in (None, f\<lparr>d_items := (d_items f)(k \<mapsto> newDeltas)\<rparr>)
               else if d_items f k \<noteq> None then (None, f\<lparr>d_items := (d_items f)(k := None)\<rparr>)
               else (None, f))"

definition d_Add :: "'o dobj \<Rightarrow> 'o deltaFIFO \<Rightarrow> 'o delta_error option \<times> 'o deltaFIFO" where
  "d_Add obj f = queueActionLocked Added obj (f\<lparr>d_populated := True\<rparr>)"

definition d_Update :: "'o dobj \<Rightarrow> 'o deltaFIFO \<Rightarrow> 'o delta_error option \<times> 'o deltaFIFO" where
  "d_Update obj f = queueActionLocked Updated obj (f\<lparr>d_populated := True\<rparr>)"

definition d_Delete ::
  "'o knownObjects option \<Rightarrow> 'o dobj \<Rightarrow> 'o deltaFIFO \<Rightarrow> 'o delta_error option \<times> 'o deltaFIFO" where
  "d_Delete known obj f =
     (case KeyOf f (OneObject obj) of
        Inl err \<Rightarrow> (Some (DKeyError (OneObject obj) err), f)
      | Inr k \<Rightarrow>
          let f = f\<lparr>d_populated := True\<rparr>
          in case known of
               None \<Rightarrow>
                 if d_items f k = None then (None, f) else queueActionLocked Deleted obj f
             | Some ko \<Rightarrow>
                 if known_GetByKey ko k = Inr None \<and> d_items f k = None then (None, f)
                 else queueActionLocked Deleted obj f)"

definition d_addIfNotPresent :: "key \<Rightarrow> 'o deltas \<Rightarrow> 'o deltaFIFO \<Rightarrow> 'o deltaFIFO" where
  "d_addIfNotPresent k deltas f =
     (let f = f\<lparr>d_populated := True\<rparr>
      in if d_items f k \<noteq> None then f
         else f\<lparr>d_queue := d_queue f @ [k], d_items := (d_items f)(k \<mapsto> deltas)\<rparr>)"

text \<open>\<open>None\<close>: reading the object of the newest delta of an empty list is a nil dereference.\<close>

definition d_AddIfNotPresent ::
  "'o delta_arg \<Rightarrow> 'o deltaFIFO \<Rightarrow> ('o delta_error option \<times> 'o deltaFIFO) option" where
  "d_AddIfNotPresent obj f =
     (case obj of
        OneObject _ \<Rightarrow> Some (Some NotDeltas, f)
      | DeltasObject deltas \<Rightarrow>
          (case Newest deltas of
             None \<Rightarrow> None
           | Some n \<Rightarrow>
               (case KeyOf f (OneObject (Object n)) of
                  Inl err \<Rightarrow> Some (Some (DKeyError obj err), f)
                | Inr k \<Rightarrow> Some (None, d_addIfNotPresent k deltas f))))"

text \<open>\<open>None\<close>: \<^verbatim>\<open>List\<close> reads the object of the newest delta of every entry.\<close>

fun d_listLocked :: "key list \<Rightarrow> 'o deltaFIFO \<Rightarrow> 'o dobj list option" where
  "d_listLocked [] f = Some []"
| "d_listLocked (k # ks) f =
     (case d_items f k of
        None \<Rightarrow> d_listLocked ks f
      | Some item \<Rightarrow>
          (case Newest item of
             None \<Rightarrow> None
           | Some n \<Rightarrow> map_option ((#) (Object n)) (d_listLocked ks f)))"

definition d_ListKeys :: "key list \<Rightarrow> 'o deltaFIFO \<Rightarrow> key list" where
  "d_ListKeys ks f = filter (\<lambda>k. d_items f k \<noteq> None) ks"

definition d_GetByKey :: "key \<Rightarrow> 'o deltaFIFO \<Rightarrow> 'o deltas option" where
  "d_GetByKey k f = d_items f k"

definition d_Get :: "'o delta_arg \<Rightarrow> 'o deltaFIFO \<Rightarrow> 'o delta_error + 'o deltas option" where
  "d_Get obj f =
     (case KeyOf f obj of Inl err \<Rightarrow> Inl (DKeyError obj err) | Inr k \<Rightarrow> Inr (d_GetByKey k f))"

fun d_pop_loop ::
  "('o deltas \<Rightarrow> 'e process_result) \<Rightarrow> key list \<Rightarrow> 'o deltaFIFO \<Rightarrow> 'o deltaFIFO + ('o deltas \<times> 'e option) \<times> 'o deltaFIFO"
where
  "d_pop_loop process [] f = Inl (f\<lparr>d_queue := []\<rparr>)"
| "d_pop_loop process (k # queue) f =
     (let n = d_initialPopulationCount f;
          f = f\<lparr>d_queue := queue, d_initialPopulationCount := (if n > 0 then n - 1 else n)\<rparr>
      in case d_items f k of
           None \<Rightarrow> d_pop_loop process queue f
         | Some item \<Rightarrow>
             let f = f\<lparr>d_items := (d_items f)(k := None)\<rparr>
             in case process item of
                  ErrRequeue e \<Rightarrow> Inr ((item, e), d_addIfNotPresent k item f)
                | r \<Rightarrow> Inr ((item, result_error r), f))"

definition d_Pop ::
  "('o deltas \<Rightarrow> 'e process_result) \<Rightarrow> 'o deltaFIFO \<Rightarrow> 'o deltaFIFO + ('o deltas \<times> 'e option) \<times> 'o deltaFIFO" where
  "d_Pop process f = d_pop_loop process (d_queue f) f"

text \<open>\<^verbatim>\<open>Replace\<close>: the loop over the list, and the two loops that detect deletions.\<close>

fun replace_sync ::
  "'o dobj list \<Rightarrow> key set \<Rightarrow> 'o deltaFIFO \<Rightarrow> 'o delta_error option \<times> key set \<times> 'o deltaFIFO" where
  "replace_sync [] keys f = (None, keys, f)"
| "replace_sync (item # xs) keys f =
     (case KeyOf f (OneObject item) of
        Inl err \<Rightarrow> (Some (DKeyError (OneObject item) err), keys, f)
      | Inr k \<Rightarrow>
          (case queueActionLocked Sync item f of
             (Some err, f') \<Rightarrow> (Some (CouldNotEnqueue err), insert k keys, f')
           | (None, f') \<Rightarrow> replace_sync xs (insert k keys) f'))"

fun delete_own :: "key set \<Rightarrow> key list \<Rightarrow> 'o deltaFIFO \<Rightarrow> 'o delta_error option \<times> 'o deltaFIFO" where
  "delete_own keys [] f = (None, f)"
| "delete_own keys (k # ks) f =
     (case d_items f k of
        None \<Rightarrow> delete_own keys ks f
      | Some oldItem \<Rightarrow>
          if k \<in> keys then delete_own keys ks f
          else case queueActionLocked Deleted (DeletedFinalStateUnknown k (map_option Object (Newest oldItem))) f of
                 (Some err, f') \<Rightarrow> (Some err, f')
               | (None, f') \<Rightarrow> delete_own keys ks f')"

fun delete_known ::
  "(key \<Rightarrow> string + 'o dobj option) \<Rightarrow> key set \<Rightarrow> key list \<Rightarrow> int \<Rightarrow> 'o deltaFIFO \<Rightarrow> 'o delta_error option \<times> int \<times> 'o deltaFIFO"
where
  "delete_known get keys [] queuedDeletions f = (None, queuedDeletions, f)"
| "delete_known get keys (k # ks) queuedDeletions f =
     (if k \<in> keys then delete_known get keys ks queuedDeletions f
      else
        let deletedObj = (case get k of Inl err \<Rightarrow> None | Inr x \<Rightarrow> x)
        in case queueActionLocked Deleted (DeletedFinalStateUnknown k deletedObj) f of
             (Some err, f') \<Rightarrow> (Some err, queuedDeletions + 1, f')
           | (None, f') \<Rightarrow> delete_known get keys ks (queuedDeletions + 1) f')"

definition set_populated :: "int \<Rightarrow> 'o deltaFIFO \<Rightarrow> 'o deltaFIFO" where
  "set_populated n f =
     (if \<not> d_populated f then f\<lparr>d_populated := True, d_initialPopulationCount := n\<rparr> else f)"

text \<open>The argument \<open>ks\<close> is the order of the range over the queue's own items.\<close>

definition d_Replace ::
  "'o knownObjects option \<Rightarrow> key list \<Rightarrow> 'o dobj list \<Rightarrow> 'o deltaFIFO \<Rightarrow> 'o delta_error option \<times> 'o deltaFIFO" where
  "d_Replace known ks xs f =
     (case replace_sync xs {} f of
        (Some err, _, f) \<Rightarrow> (Some err, f)
      | (None, keys, f) \<Rightarrow>
          (case known of
             None \<Rightarrow>
               (case delete_own keys ks f of
                  (Some err, f) \<Rightarrow> (Some err, f)
                | (None, f) \<Rightarrow> (None, set_populated (int (length xs)) f))
           | Some ko \<Rightarrow>
               (case delete_known (known_GetByKey ko) keys (known_ListKeys ko) 0 f of
                  (Some err, _, f) \<Rightarrow> (Some err, f)
                | (None, queuedDeletions, f) \<Rightarrow>
                    (None, set_populated (int (length xs) + queuedDeletions) f))))"

text \<open>The argument is what \<^verbatim>\<open>GetByKey\<close> of the known objects returns for the key.\<close>

definition d_syncKey :: "string + 'o dobj option \<Rightarrow> 'o deltaFIFO \<Rightarrow> 'o delta_error option \<times> 'o deltaFIFO" where
  "d_syncKey found f =
     (case found of
        Inl err \<Rightarrow> (None, f)
      | Inr None \<Rightarrow> (None, f)
      | Inr (Some obj) \<Rightarrow>
          (case KeyOf f (OneObject obj) of
             Inl err \<Rightarrow> (Some (DKeyError (OneObject obj) err), f)
           | Inr k \<Rightarrow>
               if length (deltas_of f k) > 0 then (None, f)
               else case queueActionLocked Sync obj f of
                      (Some err, f') \<Rightarrow> (Some (CouldNotEnqueue err), f')
                    | (None, f') \<Rightarrow> (None, f')))"

text \<open>
  \<^verbatim>\<open>Resync\<close> releases the lock between the keys: \<open>get\<close> is what the known objects return for each
  key at its turn, with nothing else happening to the queue in between.
\<close>

fun d_resync_loop ::
  "(key \<Rightarrow> string + 'o dobj option) \<Rightarrow> key list \<Rightarrow> 'o deltaFIFO \<Rightarrow> 'o delta_error option \<times> 'o deltaFIFO" where
  "d_resync_loop get [] f = (None, f)"
| "d_resync_loop get (k # ks) f =
     (case d_syncKey (get k) f of
        (Some err, f') \<Rightarrow> (Some err, f')
      | (None, f') \<Rightarrow> d_resync_loop get ks f')"

definition d_Resync :: "'o knownObjects \<Rightarrow> 'o deltaFIFO \<Rightarrow> 'o delta_error option \<times> 'o deltaFIFO" where
  "d_Resync ko f = d_resync_loop (known_GetByKey ko) (known_ListKeys ko) f"

subsection \<open>Duplicates are combined without changing the outcome\<close>

lemma Newest_last: "ds \<noteq> [] \<Longrightarrow> Newest ds = Some (last ds)"
  by (simp add: Newest_def last_conv_nth Let_def)

lemma willObjectBeDeleted_last:
  "willObjectBeDeletedLocked k f \<longleftrightarrow> deltas_of f k \<noteq> [] \<and> Type (last (deltas_of f k)) = Deleted"
  by (auto simp: willObjectBeDeletedLocked_def Let_def last_conv_nth)

lemma dedupDeltas_snoc:
  "dedupDeltas (ds @ [d]) =
     (if ds \<noteq> [] \<and> Type (last ds) = Deleted \<and> Type d = Deleted
      then butlast ds @ [case Object (last ds) of DeletedFinalStateUnknown _ _ \<Rightarrow> d | _ \<Rightarrow> last ds]
      else ds @ [d])"
proof (cases ds rule: rev_cases)
  case Nil
  then show ?thesis by (simp add: dedupDeltas_def)
next
  case (snoc es e)
  then show ?thesis
    by (simp add: dedupDeltas_def isDup_def isDeletionDup_def nth_append Let_def split: dobj.splits)
qed

lemma dedupDeltas_nonempty [simp]: "dedupDeltas (ds @ [d]) \<noteq> []"
  by (simp add: dedupDeltas_snoc)

lemma dedupDeltas_last:
  "Type (last (dedupDeltas (ds @ [d]))) = Type d"
  "Type d \<noteq> Deleted \<Longrightarrow> last (dedupDeltas (ds @ [d])) = d"
  by (auto simp: dedupDeltas_snoc split: dobj.splits)

lemma dedupDeltas_set: "set (dedupDeltas (ds @ [d])) \<subseteq> insert d (set ds)"
  by (auto simp: dedupDeltas_snoc split: dobj.splits dest: in_set_butlastD)

lemma deltas_of_upd [simp]: "deltas_of (f\<lparr>d_items := (d_items f)(k \<mapsto> ds)\<rparr>) j = (if j = k then ds else deltas_of f j)"
  by (simp add: deltas_of_def)

lemma deltas_of_frame [simp]:
  "deltas_of (f\<lparr>d_populated := b\<rparr>) = deltas_of f" "deltas_of (f\<lparr>d_queue := q\<rparr>) = deltas_of f"
  "deltas_of (f\<lparr>d_initialPopulationCount := n\<rparr>) = deltas_of f"
  by (simp_all add: deltas_of_def fun_eq_iff)

subsection \<open>Queueing an action\<close>

definition compressor_ok :: "'o deltaFIFO \<Rightarrow> bool" where
  "compressor_ok f \<longleftrightarrow> (\<forall>ds. ds \<noteq> [] \<longrightarrow> compress (d_compressor f) ds \<noteq> [])"

lemma compressor_ok_frame [simp]:
  "compressor_ok (f\<lparr>d_populated := b\<rparr>) = compressor_ok f" "compressor_ok (f\<lparr>d_queue := q\<rparr>) = compressor_ok f"
  "compressor_ok (f\<lparr>d_items := m\<rparr>) = compressor_ok f"
  "compressor_ok (f\<lparr>d_initialPopulationCount := n\<rparr>) = compressor_ok f"
  by (simp_all add: compressor_ok_def)

text \<open>The state an action leaves when it is neither an error nor an ignored sync.\<close>

definition queued :: "DeltaType \<Rightarrow> 'o dobj \<Rightarrow> key \<Rightarrow> 'o deltaFIFO \<Rightarrow> 'o deltaFIFO" where
  "queued t obj k f = f\<lparr>d_queue := (if d_items f k = None then d_queue f @ [k] else d_queue f),
     d_items := (d_items f)(k \<mapsto> compress (d_compressor f) (dedupDeltas (deltas_of f k @ [Delta t obj])))\<rparr>"

lemma queueAction_err:
  "object_key (d_keyFunc f) obj = Inl err \<Longrightarrow> queueActionLocked t obj f = (Some (DKeyError (OneObject obj) err), f)"
  by (simp add: queueActionLocked_def KeyOf_def)

lemma queueAction_ok:
  assumes "compressor_ok f" and "object_key (d_keyFunc f) obj = Inr k"
  shows "queueActionLocked t obj f =
    (None, if t = Sync \<and> willObjectBeDeletedLocked k f then f else queued t obj k f)"
proof -
  have "compress (d_compressor f) (dedupDeltas (deltas_of f k @ [Delta t obj])) \<noteq> []"
    using assms(1) by (simp add: compressor_ok_def)
  then show ?thesis using assms(2) by (simp add: queueActionLocked_def KeyOf_def queued_def Let_def)
qed

lemma queueAction_frame [simp]:
  "d_keyFunc (snd (queueActionLocked t obj f)) = d_keyFunc f"
  "d_compressor (snd (queueActionLocked t obj f)) = d_compressor f"
  "d_populated (snd (queueActionLocked t obj f)) = d_populated f"
  "d_initialPopulationCount (snd (queueActionLocked t obj f)) = d_initialPopulationCount f"
  by (simp_all add: queueActionLocked_def Let_def split: sum.splits)

text \<open>The queue holds the keys that have deltas, each once, and no entry is empty.\<close>

definition delta_exact :: "'o deltaFIFO \<Rightarrow> bool" where
  "delta_exact f \<longleftrightarrow> distinct (d_queue f) \<and> set (d_queue f) = dom (d_items f)
     \<and> (\<forall>k. d_items f k \<noteq> Some [])"

lemma delta_exact_frame [simp]:
  "delta_exact (f\<lparr>d_populated := b\<rparr>) = delta_exact f"
  "delta_exact (f\<lparr>d_initialPopulationCount := n\<rparr>) = delta_exact f"
  by (simp_all add: delta_exact_def)

lemma delta_exact_queueAction [inv_intros]:
  assumes "delta_exact f" and "compressor_ok f"
  shows "delta_exact (snd (queueActionLocked t obj f))"
proof (cases "object_key (d_keyFunc f) obj")
  case (Inl err)
  then show ?thesis using assms by (simp add: queueAction_err)
next
  case (Inr k)
  have "compress (d_compressor f) (dedupDeltas (deltas_of f k @ [Delta t obj])) \<noteq> []"
    using assms(2) by (simp add: compressor_ok_def)
  then have "delta_exact (queued t obj k f)" using assms(1) by (auto simp: delta_exact_def queued_def)
  then show ?thesis using assms Inr by (simp add: queueAction_ok)
qed

lemma compressor_ok_queueAction [simp]:
  "compressor_ok (snd (queueActionLocked t obj f)) = compressor_ok f"
  by (simp add: compressor_ok_def)

subsection \<open>What every method keeps\<close>

text \<open>
  A predicate that queueing an action keeps, and that does not read the two population fields, is
  kept by every method but \<^verbatim>\<open>Pop\<close> and \<^verbatim>\<open>AddIfNotPresent\<close>.
\<close>

locale delta_kept =
  fixes P :: "'o deltaFIFO \<Rightarrow> bool"
  assumes kept_action: "P f \<Longrightarrow> P (snd (queueActionLocked t obj f))"
    and kept_populated: "P f \<Longrightarrow> P (f\<lparr>d_populated := b\<rparr>)"
    and kept_count: "P f \<Longrightarrow> P (f\<lparr>d_initialPopulationCount := n\<rparr>)"
begin

lemma kept_sync: "P f \<Longrightarrow> P (snd (snd (replace_sync xs keys f)))"
proof (induction xs keys f rule: replace_sync.induct)
  case (2 item xs keys f)
  from kept_action [OF 2(2), of Sync item] 2 show ?case
    by (auto split: sum.splits prod.splits option.splits)
qed simp

lemma kept_own: "P f \<Longrightarrow> P (snd (delete_own keys ks f))"
proof (induction keys ks f rule: delete_own.induct)
  case (2 keys k ks f)
  have "P (snd (queueActionLocked Deleted obj f))" for obj by (rule kept_action [OF 2(4)])
  with 2 show ?case by (auto split: option.splits prod.splits) (metis snd_conv)+
qed simp

lemma kept_known: "P f \<Longrightarrow> P (snd (snd (delete_known get keys ks n f)))"
proof (induction "get" keys ks n f rule: delete_known.induct)
  case (2 "get" keys k ks n f)
  have "P (snd (queueActionLocked Deleted obj f))" for obj by (rule kept_action [OF 2(3)])
  with 2 show ?case by (auto simp: Let_def split: option.splits prod.splits) (metis snd_conv)+
qed simp

lemma kept_set_populated: "P f \<Longrightarrow> P (set_populated n f)"
  using kept_count [OF kept_populated] by (simp add: set_populated_def)

lemma kept_Replace:
  assumes "P f"
  shows "P (snd (d_Replace known ks xs f))"
proof -
  obtain err keys f1 where sync: "replace_sync xs {} f = (err, keys, f1)" by (metis prod_cases3)
  have f1: "P f1" using kept_sync [OF assms, of xs "{}"] sync by simp
  show ?thesis
  proof (cases known)
    case None
    obtain err' f2 where own: "delete_own keys ks f1 = (err', f2)" by fastforce
    have "P f2" using kept_own [OF f1, of keys ks] own by simp
    then show ?thesis using sync own f1 None kept_set_populated [OF \<open>P f2\<close>]
      by (simp add: d_Replace_def split: option.splits)
  next
    case (Some ko)
    obtain err' n f2 where del: "delete_known (known_GetByKey ko) keys (known_ListKeys ko) 0 f1 = (err', n, f2)"
      by (metis prod_cases3)
    have "P f2" using kept_known [OF f1, of "known_GetByKey ko" keys "known_ListKeys ko" 0] del by simp
    then show ?thesis using sync del f1 Some kept_set_populated [OF \<open>P f2\<close>]
      by (simp add: d_Replace_def split: option.splits)
  qed
qed

lemma kept_Add: "P f \<Longrightarrow> P (snd (d_Add obj f))"
  and kept_Update: "P f \<Longrightarrow> P (snd (d_Update obj f))"
  by (simp_all add: d_Add_def d_Update_def kept_action kept_populated)

lemma kept_Delete: "P f \<Longrightarrow> P (snd (d_Delete known obj f))"
  using kept_action [OF kept_populated] kept_populated
  by (simp add: d_Delete_def Let_def split: sum.splits option.splits)

lemma kept_syncKey:
  assumes "P f"
  shows "P (snd (d_syncKey found f))"
proof -
  have "P (snd (queueActionLocked Sync obj f))" for obj by (rule kept_action [OF assms])
  then show ?thesis using assms
    by (auto simp: d_syncKey_def split: sum.splits option.splits prod.splits) (metis snd_conv)+
qed

lemma kept_Resync: "P f \<Longrightarrow> P (snd (d_Resync ko f))"
proof -
  have "P f \<Longrightarrow> P (snd (d_resync_loop get ks f))" for "get" ks f
  proof (induction "get" ks f rule: d_resync_loop.induct)
    case (2 "get" k ks f)
    from kept_syncKey [OF 2(2), of "get k"] 2 show ?case by (auto split: prod.splits option.splits)
  qed simp
  then show "P f \<Longrightarrow> P (snd (d_Resync ko f))" by (simp add: d_Resync_def)
qed

lemmas kept_all = kept_Add kept_Update kept_Delete kept_Replace kept_syncKey kept_Resync

end

interpretation de: delta_kept "\<lambda>f. delta_exact f \<and> compressor_ok f"
  by unfold_locales (auto intro: delta_exact_queueAction)

interpretation dk: delta_kept "\<lambda>f. d_keyFunc f = kf \<and> d_compressor f = c" for kf c
  by unfold_locales auto

subsection \<open>Popping\<close>

lemma d_Pop_exact:
  assumes "delta_exact f"
  obtains (waits) "d_queue f = []" "d_items f = Map.empty" "d_Pop process f = Inl f"
  | (pops) k rest ds f1 where "d_queue f = k # rest" "d_items f k = Some ds" "ds \<noteq> []"
      "f1 = f\<lparr>d_queue := rest, d_items := (d_items f)(k := None),
         d_initialPopulationCount := (if d_initialPopulationCount f > 0
            then d_initialPopulationCount f - 1 else d_initialPopulationCount f)\<rparr>"
      "d_Pop process f = Inr ((ds, result_error (process ds)),
         if \<exists>e. process ds = ErrRequeue e then d_addIfNotPresent k ds f1 else f1)"
proof (cases "d_queue f")
  case Nil
  then have "dom (d_items f) = {}" using assms by (simp add: delta_exact_def)
  then have "d_items f = Map.empty" by simp
  moreover have "f\<lparr>d_queue := []\<rparr> = f" using Nil by (cases f) simp
  ultimately show ?thesis using Nil by (intro waits) (simp_all add: d_Pop_def)
next
  case (Cons k rest)
  then obtain ds where "d_items f k = Some ds" using assms by (auto simp: delta_exact_def)
  moreover from this have "ds \<noteq> []" using assms by (auto simp: delta_exact_def)
  ultimately show ?thesis using Cons
    by (intro pops [OF Cons _ _ refl])
      (cases "process ds"; simp add: d_Pop_def d_addIfNotPresent_def Let_def)+
qed

lemma delta_exact_addIfNotPresent:
  "delta_exact f \<Longrightarrow> ds \<noteq> [] \<Longrightarrow> delta_exact (d_addIfNotPresent k ds f)"
  by (auto simp: delta_exact_def d_addIfNotPresent_def Let_def)

lemma delta_exact_dequeue:
  assumes "delta_exact f" and "d_queue f = k # rest"
  shows "delta_exact (f\<lparr>d_queue := rest, d_items := (d_items f)(k := None), d_initialPopulationCount := n\<rparr>)"
proof -
  have "dom (d_items f) = insert k (set rest)" "k \<notin> set rest" "distinct rest"
    using assms by (simp_all add: delta_exact_def)
  then show ?thesis using assms(1) by (auto simp: delta_exact_def)
qed

subsection \<open>The methods as steps\<close>

inductive d_step :: "'o deltaFIFO \<Rightarrow> 'o deltaFIFO \<Rightarrow> bool" where
  d_add: "d_Add obj f = (err, f') \<Longrightarrow> d_step f f'"
| d_update: "d_Update obj f = (err, f') \<Longrightarrow> d_step f f'"
| d_delete: "d_Delete known obj f = (err, f') \<Longrightarrow> d_step f f'"
| d_absent: "d_AddIfNotPresent obj f = Some (err, f') \<Longrightarrow> d_step f f'"
| d_replace: "d_Replace known ks xs f = (err, f') \<Longrightarrow> d_step f f'"
| d_sync: "d_syncKey found f = (err, f') \<Longrightarrow> d_step f f'"
| d_popped: "d_Pop (process :: 'o deltas \<Rightarrow> string process_result) f = Inr (r, f') \<Longrightarrow> d_step f f'"
| d_waits: "d_Pop (process :: 'o deltas \<Rightarrow> string process_result) f = Inl f' \<Longrightarrow> d_step f f'"

lemma d_AddIfNotPresent_cases:
  "d_AddIfNotPresent obj f = Some (err, f') \<Longrightarrow>
     f' = f \<or> (\<exists>k ds. ds \<noteq> [] \<and> f' = d_addIfNotPresent k ds f)"
  by (auto simp: d_AddIfNotPresent_def Newest_def Let_def split: delta_arg.splits if_splits sum.splits)

lemma d_addIfNotPresent_frame [simp]:
  "d_keyFunc (d_addIfNotPresent k ds f) = d_keyFunc f" "d_compressor (d_addIfNotPresent k ds f) = d_compressor f"
  "compressor_ok (d_addIfNotPresent k ds f) = compressor_ok f"
  by (simp_all add: d_addIfNotPresent_def Let_def)

lemma d_step_exact:
  assumes "d_step f f'" and "delta_exact f" and "compressor_ok f"
  shows "delta_exact f' \<and> compressor_ok f'"
  using assms
proof (induction rule: d_step.induct)
  case (d_add obj f err f')
  then show ?case using de.kept_Add [of f obj] by simp
next
  case (d_update obj f err f')
  then show ?case using de.kept_Update [of f obj] by simp
next
  case (d_delete known obj f err f')
  then show ?case using de.kept_Delete [of f known obj] by simp
next
  case (d_absent obj f err f')
  then show ?case using d_AddIfNotPresent_cases [of obj f err f'] delta_exact_addIfNotPresent by auto
next
  case (d_replace known ks xs f err f')
  then show ?case using de.kept_Replace [of f known ks xs] by simp
next
  case (d_sync found f err f')
  then show ?case using de.kept_syncKey [of f found] by simp
next
  case (d_popped process f r f')
  from d_popped(2) show ?case
  proof (cases rule: d_Pop_exact [where process = process])
    case waits
    then show ?thesis using d_popped by simp
  next
    case (pops k rest ds f1)
    then have "delta_exact f1" "compressor_ok f1"
      using delta_exact_dequeue [OF d_popped(2)] d_popped(3) by simp_all
    then show ?thesis using d_popped(1) pops(3,5) delta_exact_addIfNotPresent [of f1 ds k]
      by (auto split: if_splits)
  qed
next
  case (d_waits process f f')
  from d_waits(2) d_waits(1,3) show ?case by (cases rule: d_Pop_exact [where process = process]) (auto simp: delta_exact_def)
qed

subsection \<open>A compressor that may drop every delta\<close>

text \<open>
  Whatever the compressor does, no entry is empty and every key with deltas is queued. A compressor that
  returns an empty list leaves its key in the queue without an entry, and \<^verbatim>\<open>Pop\<close> skips it.
\<close>

definition delta_queued :: "'o deltaFIFO \<Rightarrow> bool" where
  "delta_queued f \<longleftrightarrow> dom (d_items f) \<subseteq> set (d_queue f) \<and> (\<forall>k. d_items f k \<noteq> Some [])"

lemma delta_queued_queueAction [inv_intros]:
  assumes "delta_queued f"
  shows "delta_queued (snd (queueActionLocked t obj f))"
proof (cases "object_key (d_keyFunc f) obj")
  case (Inl err)
  then show ?thesis using assms by (simp add: queueAction_err)
next
  case (Inr k)
  then show ?thesis using assms
    by (auto simp: delta_queued_def queueActionLocked_def KeyOf_def Let_def)
qed

interpretation dw: delta_kept delta_queued
  by unfold_locales (erule delta_queued_queueAction, simp_all add: delta_queued_def)

lemma delta_queued_addIfNotPresent:
  "delta_queued f \<Longrightarrow> ds \<noteq> [] \<Longrightarrow> delta_queued (d_addIfNotPresent k ds f)"
  by (auto simp: delta_queued_def d_addIfNotPresent_def Let_def)

lemma d_pop_loop_queued:
  assumes "dom (d_items f) \<subseteq> set q" and "\<forall>k. d_items f k \<noteq> Some []"
  shows "case d_pop_loop process q f of
      Inl f' \<Rightarrow> d_items f = Map.empty \<and> d_items f' = Map.empty \<and> d_queue f' = []
    | Inr ((ds, err), f') \<Rightarrow> delta_queued f' \<and> ds \<noteq> [] \<and> err = result_error (process ds)
        \<and> (\<exists>skipped k rest. q = skipped @ k # rest \<and> (\<forall>j \<in> set skipped. d_items f j = None) \<and> d_items f k = Some ds)"
  using assms
proof (induction q arbitrary: f)
  case (Cons k q)
  define n where "n = (if d_initialPopulationCount f > 0 then d_initialPopulationCount f - 1 else d_initialPopulationCount f)"
  let ?f = "f\<lparr>d_queue := q, d_initialPopulationCount := n\<rparr>"
  have unfold: "d_pop_loop process (k # q) f = (case d_items f k of None \<Rightarrow> d_pop_loop process q ?f
      | Some item \<Rightarrow> let f = ?f\<lparr>d_items := (d_items ?f)(k := None)\<rparr>
          in case process item of ErrRequeue e \<Rightarrow> Inr ((item, e), d_addIfNotPresent k item f) | r \<Rightarrow> Inr ((item, result_error r), f))"
    unfolding d_pop_loop.simps(2) n_def Let_def by (cases "d_items f k"; cases "process (the (d_items f k))") simp_all
  show ?case
  proof (cases "d_items f k")
    case None
    have same: "d_items ?f = d_items f" by simp
    have "dom (d_items f) \<subseteq> set q" using Cons.prems(1) None by auto
    note ih = Cons.IH [of ?f, unfolded same, OF this Cons.prems(2)]
    have eq: "d_pop_loop process (k # q) f = d_pop_loop process q ?f" using None unfold by simp
    show ?thesis
    proof (cases "d_pop_loop process q ?f")
      case (Inr r)
      obtain ds err f' where r: "r = ((ds, err), f')" by (metis surj_pair)
      from ih Inr r obtain skipped j rest where "delta_queued f'" "ds \<noteq> []" "err = result_error (process ds)"
        "q = skipped @ j # rest" "\<forall>i \<in> set skipped. d_items f i = None" "d_items f j = Some ds" by auto
      then show ?thesis unfolding eq Inr r using None
        by (auto intro!: exI [of _ "k # skipped"])
    qed (use ih eq in simp)
  next
    case (Some ds)
    let ?g = "?f\<lparr>d_items := (d_items ?f)(k := None)\<rparr>"
    have "delta_queued ?g" "ds \<noteq> []" using Cons.prems Some by (auto simp: delta_queued_def)
    moreover have "\<exists>skipped j rest. k # q = skipped @ j # rest \<and> (\<forall>j \<in> set skipped. d_items f j = None) \<and> d_items f j = Some ds"
      by (intro exI [of _ "[]"] exI [of _ k] exI [of _ q]) (simp add: Some)
    ultimately show ?thesis unfolding unfold using Some delta_queued_addIfNotPresent [of ?g ds k]
      by (cases "process ds") (simp_all add: Let_def)
  qed
qed auto

lemma d_Pop_queued:
  assumes "delta_queued f"
  shows "case d_Pop process f of
      Inl f' \<Rightarrow> d_items f = Map.empty \<and> d_items f' = Map.empty \<and> d_queue f' = []
    | Inr ((ds, err), f') \<Rightarrow> delta_queued f' \<and> ds \<noteq> [] \<and> err = result_error (process ds)
        \<and> (\<exists>skipped k rest. d_queue f = skipped @ k # rest \<and> (\<forall>j \<in> set skipped. d_items f j = None) \<and> d_items f k = Some ds)"
  unfolding d_Pop_def by (rule d_pop_loop_queued) (use assms in \<open>simp_all add: delta_queued_def\<close>)

lemma d_step_queued:
  assumes "d_step f f'" and "delta_queued f"
  shows "delta_queued f'"
  using assms
proof (induction rule: d_step.induct)
  case (d_add obj f err f')
  then show ?case using dw.kept_Add [of f obj] by simp
next
  case (d_update obj f err f')
  then show ?case using dw.kept_Update [of f obj] by simp
next
  case (d_delete known obj f err f')
  then show ?case using dw.kept_Delete [of f known obj] by simp
next
  case (d_absent obj f err f')
  then show ?case using d_AddIfNotPresent_cases [of obj f err f'] delta_queued_addIfNotPresent by auto
next
  case (d_replace known ks xs f err f')
  then show ?case using dw.kept_Replace [of f known ks xs] by simp
next
  case (d_sync found f err f')
  then show ?case using dw.kept_syncKey [of f found] by simp
next
  case (d_popped process f r f')
  then show ?case using d_Pop_queued [OF d_popped(2), of process] by (cases r) (auto split: prod.splits)
next
  case (d_waits process f f')
  then show ?case using d_Pop_queued [OF d_waits(2), of process] by (simp add: delta_queued_def)
qed

lemma d_steps_queued:
  assumes "d_step\<^sup>*\<^sup>* f f'" and "delta_queued f"
  shows "delta_queued f'"
  using assms by (induction rule: rtranclp_induct) (auto dest: d_step_queued)

subsection \<open>What the pending changes amount to\<close>

text \<open>
  The store a consumer holding \<open>m\<close> will have when it has processed all pending deltas: per key, the
  newest delta decides.
\<close>

definition outcome :: "'o deltaFIFO \<Rightarrow> (key \<rightharpoonup> 'o dobj) \<Rightarrow> (key \<rightharpoonup> 'o dobj)" where
  "outcome f m k =
     (let ds = deltas_of f k
      in if ds = [] then m k else if Type (last ds) = Deleted then None else Some (Object (last ds)))"

lemma outcome_frame [simp]:
  "outcome (f\<lparr>d_populated := b\<rparr>) = outcome f" "outcome (f\<lparr>d_initialPopulationCount := n\<rparr>) = outcome f"
  "outcome (set_populated n f) = outcome f"
  by (simp_all add: outcome_def fun_eq_iff set_populated_def)

lemma outcome_will_be_deleted: "willObjectBeDeletedLocked k f \<Longrightarrow> outcome f m k = None"
  by (simp add: outcome_def willObjectBeDeleted_last Let_def)

lemma deltas_of_queued:
  "d_compressor f = None \<Longrightarrow> deltas_of (queued t obj k f) j =
     (if j = k then dedupDeltas (deltas_of f k @ [Delta t obj]) else deltas_of f j)"
  by (simp add: queued_def deltas_of_def compress_def)

lemma outcome_queued:
  assumes "d_compressor f = None"
  shows "outcome (queued t obj k f) m = (outcome f m)(k := if t = Deleted then None else Some obj)"
proof
  fix j
  show "outcome (queued t obj k f) m j = ((outcome f m)(k := if t = Deleted then None else Some obj)) j"
    using dedupDeltas_last [where ds = "deltas_of f k" and d = "Delta t obj"]
    by (auto simp: outcome_def deltas_of_queued [OF assms] Let_def)
qed

lemma will_be_deleted_queued:
  "d_compressor f = None \<Longrightarrow>
     willObjectBeDeletedLocked j (queued t obj k f) = (if j = k then t = Deleted else willObjectBeDeletedLocked j f)"
  using dedupDeltas_last(1) [of "deltas_of f k" "Delta t obj"]
  by (simp add: willObjectBeDeleted_last deltas_of_queued)

lemma compressor_ok_nil: "d_compressor f = None \<Longrightarrow> compressor_ok f"
  by (simp add: compressor_ok_def compress_def)

lemma queued_frame [simp]:
  "d_keyFunc (queued t obj k f) = d_keyFunc f" "d_compressor (queued t obj k f) = d_compressor f"
  by (simp_all add: queued_def)

text \<open>The listed objects by key; a later one replaces an earlier one.\<close>

definition listed :: "'o keyFunc \<Rightarrow> 'o dobj list \<Rightarrow> (key \<rightharpoonup> 'o dobj)" where
  "listed kf xs = map_of (rev (map (\<lambda>x. (projr (object_key kf x), x)) xs))"

lemma listed_Nil [simp]: "listed kf [] = Map.empty"
  by (simp add: listed_def)

lemma listed_Cons: "object_key kf x = Inr k \<Longrightarrow> listed kf (x # xs) = (\<lambda>j. case listed kf xs j of None \<Rightarrow> [k \<mapsto> x] j | Some y \<Rightarrow> Some y)"
  by (auto simp: listed_def map_add_def fun_eq_iff split: option.splits)

lemma replace_sync_outcome:
  assumes "d_compressor f = None" and "\<forall>x \<in> set xs. \<not> isl (object_key (d_keyFunc f) x)"
  shows "\<exists>f'. replace_sync xs keys f = (None, keys \<union> dom (listed (d_keyFunc f) xs), f')
    \<and> d_compressor f' = None
    \<and> (\<forall>k. willObjectBeDeletedLocked k f' = willObjectBeDeletedLocked k f
         \<and> outcome f' m k = (if willObjectBeDeletedLocked k f then None
             else case listed (d_keyFunc f) xs k of None \<Rightarrow> outcome f m k | Some x \<Rightarrow> Some x))"
  using assms
proof (induction xs arbitrary: keys f)
  case Nil
  then show ?case by (simp add: outcome_will_be_deleted)
next
  case (Cons x xs)
  then obtain j where j: "object_key (d_keyFunc f) x = Inr j" by (cases "object_key (d_keyFunc f) x") auto
  define f1 where "f1 = (if willObjectBeDeletedLocked j f then f else queued Sync x j f)"
  have f1: "d_keyFunc f1 = d_keyFunc f" "d_compressor f1 = None"
    "willObjectBeDeletedLocked k f1 = willObjectBeDeletedLocked k f"
    "outcome f1 m k = (if k = j \<and> \<not> willObjectBeDeletedLocked j f then Some x else outcome f m k)" for k
    using Cons.prems(1) by (auto simp: f1_def will_be_deleted_queued outcome_queued)
  have "replace_sync (x # xs) keys f = replace_sync xs (insert j keys) f1"
    using j Cons.prems(1) by (simp add: KeyOf_def queueAction_ok compressor_ok_nil f1_def)
  moreover obtain f' where f': "replace_sync xs (insert j keys) f1 = (None, insert j keys \<union> dom (listed (d_keyFunc f) xs), f')"
    "d_compressor f' = None" "\<And>k. willObjectBeDeletedLocked k f' = willObjectBeDeletedLocked k f"
    "\<And>k. outcome f' m k = (if willObjectBeDeletedLocked k f then None
        else case listed (d_keyFunc f) xs k of None \<Rightarrow> outcome f1 m k | Some x \<Rightarrow> Some x)"
    using Cons.IH [of f1 "insert j keys"] Cons.prems(2) f1 by auto
  moreover have "insert j keys \<union> dom (listed (d_keyFunc f) xs) = keys \<union> dom (listed (d_keyFunc f) (x # xs))"
    unfolding listed_Cons [OF j] by (auto simp: dom_def split: option.splits if_splits)
  moreover have "outcome f' m k = (if willObjectBeDeletedLocked k f then None
        else case listed (d_keyFunc f) (x # xs) k of None \<Rightarrow> outcome f m k | Some x \<Rightarrow> Some x)" for k
    unfolding f'(4) listed_Cons [OF j] f1(4) by (auto split: option.splits)
  ultimately show ?case by auto
qed

lemma delete_known_outcome:
  assumes "d_compressor f = None"
  shows "\<exists>n' f'. delete_known get keys ks n f = (None, n', f') \<and> n' = n + int (length (filter (\<lambda>k. k \<notin> keys) ks))
    \<and> (\<forall>k. outcome f' m k = (if k \<in> set ks - keys then None else outcome f m k))"
  using assms
proof (induction ks arbitrary: n f)
  case (Cons j ks)
  show ?case
  proof (cases "j \<in> keys")
    case True
    then show ?thesis using Cons.IH [OF Cons.prems, of n] by auto
  next
    case False
    define o1 where "o1 = (case get j of Inl err \<Rightarrow> None | Inr x \<Rightarrow> x)"
    define f1 where "f1 = queued Deleted (DeletedFinalStateUnknown j o1) j f"
    have "delete_known get keys (j # ks) n f = delete_known get keys ks (n + 1) f1"
      using False Cons.prems by (simp add: queueAction_ok compressor_ok_nil f1_def o1_def Let_def)
    moreover have "d_compressor f1 = None" using Cons.prems by (simp add: f1_def)
    ultimately show ?thesis using Cons.IH [of f1 "n + 1"] False Cons.prems
      by (auto simp: f1_def outcome_queued)
  qed
qed simp

lemma d_Replace_outcome:
  assumes "d_compressor f = None" and "\<forall>x \<in> set xs. \<not> isl (object_key (d_keyFunc f) x)"
    and "d_Replace (Some ko) ks xs f = (err, f')"
  shows "err = None \<and> outcome f' m k =
    (if k \<in> dom (listed (d_keyFunc f) xs)
     then (if willObjectBeDeletedLocked k f then None else listed (d_keyFunc f) xs k)
     else if k \<in> set (known_ListKeys ko) then None else outcome f m k)"
proof -
  let ?keys = "dom (listed (d_keyFunc f) xs)"
  obtain f1 where sync: "replace_sync xs {} f = (None, ?keys, f1)" "d_compressor f1 = None"
    and o1: "outcome f1 m k = (if willObjectBeDeletedLocked k f then None
        else case listed (d_keyFunc f) xs k of None \<Rightarrow> outcome f m k | Some x \<Rightarrow> Some x)"
    using replace_sync_outcome [OF assms(1,2), of "{}" m] by auto
  obtain n f2 where del: "delete_known (known_GetByKey ko) ?keys (known_ListKeys ko) 0 f1 = (None, n, f2)"
    and o2: "outcome f2 m k = (if k \<in> set (known_ListKeys ko) - ?keys then None else outcome f1 m k)"
    using delete_known_outcome [OF sync(2), of "known_GetByKey ko" ?keys "known_ListKeys ko" 0 m] by auto
  have "err = None" "f' = set_populated (int (length xs) + n) f2"
    using assms(3) sync(1) del by (simp_all add: d_Replace_def)
  then show ?thesis using o1 o2 outcome_will_be_deleted [of k f m]
    by (cases "listed (d_keyFunc f) xs k") auto
qed

lemma d_listLocked_total:
  "\<forall>k. d_items f k \<noteq> Some [] \<Longrightarrow> \<exists>l. d_listLocked ks f = Some l"
  by (induction ks) (auto simp: Newest_def Let_def split: option.splits if_splits)

lemma d_steps_exact:
  assumes "d_step\<^sup>*\<^sup>* f f'" and "delta_exact f" and "compressor_ok f"
  shows "delta_exact f' \<and> compressor_ok f'"
  using assms by (induction rule: rtranclp_induct) (auto dest: d_step_exact)

subsection \<open>Properties\<close>



text \<open>
  C29. What a re-list does to what the consumer will end up with, on a queue without compressor:
  a listed object becomes the outcome for its key unless a deletion of the key is still pending, a
  key that is known and not listed is deleted, and every other key keeps its pending outcome.
\<close>

theorem delta_replace_outcome:
  assumes "d_compressor f = None" and "\<forall>x \<in> set xs. \<not> isl (object_key (d_keyFunc f) x)"
  shows "case d_Replace (Some ko) ks xs f of (err, f') \<Rightarrow> err = None \<and> outcome f' m = (\<lambda>k.
    if k \<in> dom (listed (d_keyFunc f) xs)
    then (if willObjectBeDeletedLocked k f then None else listed (d_keyFunc f) xs k)
    else if k \<in> set (known_ListKeys ko) then None else outcome f m k)"
  using d_Replace_outcome [OF assms] by (auto simp: fun_eq_iff split: prod.splits)

theorem delta_replace_outcome_witness:
  "case d_Replace (Some \<lparr>known_ListKeys = [''a'', ''b''], known_GetByKey = (\<lambda>_. Inr None)\<rparr>) [] [Obj ''b'']
     (NewDeltaFIFO Inr None) of (err, f') \<Rightarrow>
       err = None \<and> outcome f' [''a'' \<mapsto> Obj ''a'', ''b'' \<mapsto> Obj ''b''] = [''b'' \<mapsto> Obj ''b'']"
proof -
  let ?f = "NewDeltaFIFO Inr None :: string deltaFIFO" and ?m = "[''a'' \<mapsto> Obj ''a'', ''b'' \<mapsto> Obj ''b'']"
  have "d_compressor ?f = None" and "\<forall>x \<in> set [Obj ''b'']. \<not> isl (object_key (d_keyFunc ?f) x)"
    by (simp_all add: NewDeltaFIFO_def)
  from delta_replace_outcome [OF this, where ko = "\<lparr>known_ListKeys = [''a'', ''b''], known_GetByKey = (\<lambda>_. Inr None)\<rparr>" and ks = "[]" and m = ?m]
  show ?thesis
    by (auto simp: NewDeltaFIFO_def listed_def outcome_def deltas_of_def willObjectBeDeleted_last fun_eq_iff
        split: prod.splits)
qed



text \<open>
  A deletion can be missed: an object whose addition is queued but not yet popped is not among
  the known objects, so a re-list that no longer contains it queues no deletion for it, and the
  consumer will end up with an object that does not exist any more.
\<close>

theorem replace_keeps_ghost:
  assumes "d_compressor f = None" and "\<forall>x \<in> set xs. \<not> isl (object_key (d_keyFunc f) x)"
    and "k \<notin> dom (listed (d_keyFunc f) xs)" and "k \<notin> set (known_ListKeys ko)"
    and "d_items f k = Some (ds @ [Delta Added obj])"
  shows "case d_Replace (Some ko) ks xs f of (err, f') \<Rightarrow> err = None \<and> outcome f' m k = Some obj"
  using d_Replace_outcome [OF assms(1,2)] assms(3-5)
  by (auto simp: outcome_def deltas_of_def split: prod.splits)

theorem replace_keeps_ghost_witness:
  "case d_Replace (Some \<lparr>known_ListKeys = [], known_GetByKey = (\<lambda>_. Inr None)\<rparr>) [] []
     ((NewDeltaFIFO Inr None)\<lparr>d_items := [''a'' \<mapsto> [Delta Added (Obj ''a'')]], d_queue := [''a'']\<rparr>)
     of (err, f') \<Rightarrow> err = None \<and> outcome f' Map.empty ''a'' = Some (Obj ''a'')"
  by (rule replace_keeps_ghost [where ds = "[]"]) (simp_all add: NewDeltaFIFO_def)

end
