(* ===== verification/Informer.thy ===== *)
theory Informer
  imports DeltaFIFO
begin

section \<open>Informers (\<^verbatim>\<open>pkg/client/cache/reflector.go\<close>, \<^verbatim>\<open>controller.go\<close>, \<^verbatim>\<open>shared_informer.go\<close>)\<close>

text \<open>
  The pipeline every controller reads the cluster through: a reflector writes lists and watch
  events into a \<^verbatim>\<open>DeltaFIFO\<close>, the controller's loop pops the deltas of one object at a time,
  and the handler applies them to the indexer and sends a notification to every listener.

  The expected type of the watched objects, and the resource version \<^verbatim>\<open>meta.Accessor\<close> reads from
  them, are parameters. The mutation detector, which is a debugging aid, is left out.
\<close>

subsection \<open>Listeners\<close>

datatype 'o notification =
    updateNotification (oldObj: "'o dobj") (newObj: "'o dobj")
  | addNotification (newObj: "'o dobj")
  | deleteNotification (oldObj: "'o dobj")

text \<open>
  A listener's pending notifications, the one its \<^verbatim>\<open>pop\<close> goroutine holds for the channel
  \<^verbatim>\<open>nextCh\<close>, and those its \<^verbatim>\<open>run\<close> goroutine has passed to the handler.
\<close>

record 'o processorListener =
  pendingNotifications :: "'o notification list"
  nextCh :: "'o notification option"
  handled :: "'o notification list"

definition newProcessListener :: "'o processorListener" where
  "newProcessListener = \<lparr>pendingNotifications = [], nextCh = None, handled = []\<rparr>"

definition listener_add :: "'o notification \<Rightarrow> 'o processorListener \<Rightarrow> 'o processorListener" where
  "listener_add notification p = p\<lparr>pendingNotifications := pendingNotifications p @ [notification]\<rparr>"

text \<open>One iteration of \<^verbatim>\<open>pop\<close> up to the send; \<open>None\<close> while it waits or holds a notification.\<close>

definition listener_pop :: "'o processorListener \<Rightarrow> 'o processorListener option" where
  "listener_pop p =
     (case (nextCh p, pendingNotifications p) of
        (None, nt # rest) \<Rightarrow> Some (p\<lparr>nextCh := Some nt, pendingNotifications := rest\<rparr>)
      | _ \<Rightarrow> None)"

text \<open>One iteration of \<^verbatim>\<open>run\<close>: the receive and the call of the handler.\<close>

definition listener_run :: "'o processorListener \<Rightarrow> 'o processorListener option" where
  "listener_run p =
     (case nextCh p of
        None \<Rightarrow> None
      | Some next \<Rightarrow> Some (p\<lparr>nextCh := None, handled := handled p @ [next]\<rparr>))"

definition distribute :: "'o notification \<Rightarrow> 'o processorListener list \<Rightarrow> 'o processorListener list" where
  "distribute obj listeners = map (listener_add obj) listeners"

subsection \<open>The shared informer\<close>

definition DeletionHandlingMetaNamespaceKeyFunc ::
  "('a \<Rightarrow> string + string \<times> string) \<Rightarrow> 'a keyable dobj keyFunc" where
  "DeletionHandlingMetaNamespaceKeyFunc accessor obj =
     (case obj of
        DeletedFinalStateUnknown k _ \<Rightarrow> Inr k
      | Obj x \<Rightarrow> MetaNamespaceKeyFunc accessor x)"

record 'o sharedIndexInformer =
  si_indexer :: "'o dobj cache"
  si_queue :: "'o deltaFIFO option"
  si_listeners :: "'o processorListener list"

definition NewSharedIndexInformer :: "'o keyFunc \<Rightarrow> 'o dobj indexers \<Rightarrow> 'o sharedIndexInformer" where
  "NewSharedIndexInformer kf idxs =
     \<lparr>si_indexer = NewIndexer (object_key kf) idxs, si_queue = None, si_listeners = []\<rparr>"

definition si_started :: "'o sharedIndexInformer \<Rightarrow> bool" where
  "si_started s \<longleftrightarrow> si_queue s \<noteq> None"

text \<open>The start of \<^verbatim>\<open>Run\<close>, which makes the queue and the controller.\<close>

definition si_Run :: "'o keyFunc \<Rightarrow> 'o sharedIndexInformer \<Rightarrow> 'o sharedIndexInformer" where
  "si_Run kf s = s\<lparr>si_queue := Some (NewDeltaFIFO kf None)\<rparr>"

definition si_HasSynced :: "'o sharedIndexInformer \<Rightarrow> bool" where
  "si_HasSynced s = (case si_queue s of None \<Rightarrow> False | Some f \<Rightarrow> d_HasSynced f)"

definition si_AddIndexers ::
  "'o dobj indexers \<Rightarrow> 'o sharedIndexInformer \<Rightarrow> store_error option + 'o sharedIndexInformer" where
  "si_AddIndexers idxs s =
     (if si_started s then Inl None
      else case cache_AddIndexers idxs (si_indexer s) of
             Inl err \<Rightarrow> Inl (Some err)
           | Inr c \<Rightarrow> Inr (s\<lparr>si_indexer := c\<rparr>))"

text \<open>The argument \<open>ks\<close> is the order in which \<^verbatim>\<open>List\<close> ranges over the items.\<close>

definition si_AddEventHandler :: "key list \<Rightarrow> 'o sharedIndexInformer \<Rightarrow> 'o sharedIndexInformer" where
  "si_AddEventHandler ks s =
     (if \<not> si_started s then s\<lparr>si_listeners := si_listeners s @ [newProcessListener]\<rparr>
      else
        let items = cache_List ks (si_indexer s);
            listener = foldl (\<lambda>l x. listener_add (addNotification x) l) newProcessListener items
        in s\<lparr>si_listeners := si_listeners s @ [listener]\<rparr>)"

text \<open>The loop over the deltas; the orders of the ranges of the \<open>n\<close>-th call are \<open>rs n\<close>.\<close>

fun HandleDeltas ::
  "(nat \<Rightarrow> range_orders) \<Rightarrow> 'o deltas \<Rightarrow> 'o sharedIndexInformer \<Rightarrow> 'o dobj key_error option \<times> 'o sharedIndexInformer"
where
  "HandleDeltas rs [] s = (None, s)"
| "HandleDeltas rs (d # ds) s =
     (if Type d = Deleted then
        (case cache_Delete (ro_delete (rs 0)) (Object d) (si_indexer s) of
           Inl err \<Rightarrow> (Some err, s)
         | Inr c \<Rightarrow> HandleDeltas (\<lambda>n. rs (Suc n)) ds
             (s\<lparr>si_indexer := c, si_listeners := distribute (deleteNotification (Object d)) (si_listeners s)\<rparr>))
      else
        (case cache_Get (Object d) (si_indexer s) of
           Inr (Some old) \<Rightarrow>
             (case cache_Update (ro_delete (rs 0)) (ro_update (rs 0)) (Object d) (si_indexer s) of
                Inl err \<Rightarrow> (Some err, s)
              | Inr c \<Rightarrow> HandleDeltas (\<lambda>n. rs (Suc n)) ds
                  (s\<lparr>si_indexer := c, si_listeners := distribute (updateNotification old (Object d)) (si_listeners s)\<rparr>))
         | _ \<Rightarrow>
             (case cache_Add (ro_delete (rs 0)) (ro_update (rs 0)) (Object d) (si_indexer s) of
                Inl err \<Rightarrow> (Some err, s)
              | Inr c \<Rightarrow> HandleDeltas (\<lambda>n. rs (Suc n)) ds
                  (s\<lparr>si_indexer := c, si_listeners := distribute (addNotification (Object d)) (si_listeners s)\<rparr>))))"

subsection \<open>The controller's loop\<close>

text \<open>
  One iteration of \<^verbatim>\<open>processLoop\<close>: the handler runs inside \<^verbatim>\<open>Pop\<close>, under the queue's lock.
  Re-adding what was popped cannot dereference nil, because what was popped is not empty.
\<close>

definition process_result_of :: "'e option \<Rightarrow> 'e process_result" where
  "process_result_of err = (case err of None \<Rightarrow> ProcOk | Some e \<Rightarrow> ProcErr e)"

definition processLoop ::
  "bool \<Rightarrow> (nat \<Rightarrow> range_orders) \<Rightarrow> 'o deltaFIFO \<Rightarrow> 'o sharedIndexInformer \<Rightarrow> 'o sharedIndexInformer option"
where
  "processLoop RetryOnError rs f s =
     (case d_Pop (\<lambda>ds. process_result_of (fst (HandleDeltas rs ds s))) f of
        Inl f' \<Rightarrow> Some (s\<lparr>si_queue := Some f'\<rparr>)
      | Inr ((ds, err), f') \<Rightarrow>
          let s' = snd (HandleDeltas rs ds s)
          in if err \<noteq> None \<and> RetryOnError
             then map_option (\<lambda>r. s'\<lparr>si_queue := Some (snd r)\<rparr>) (d_AddIfNotPresent (DeltasObject ds) f')
             else Some (s'\<lparr>si_queue := Some f'\<rparr>))"

definition Requeue :: "'o dobj \<Rightarrow> 'o deltaFIFO \<Rightarrow> ('o delta_error option \<times> 'o deltaFIFO) option" where
  "Requeue obj f = d_AddIfNotPresent (DeltasObject [Delta Sync obj]) f"

subsection \<open>The handler of a dedicated informer\<close>

text \<open>
  \<^verbatim>\<open>NewInformer\<close> and \<^verbatim>\<open>NewIndexerInformer\<close> process the deltas into their own store and call
  their handler directly; the calls are collected.
\<close>

fun informer_Process ::
  "(nat \<Rightarrow> range_orders) \<Rightarrow> 'o deltas \<Rightarrow> 'o dobj cache \<times> 'o notification list
     \<Rightarrow> 'o dobj key_error option \<times> 'o dobj cache \<times> 'o notification list"
where
  "informer_Process rs [] (c, calls) = (None, c, calls)"
| "informer_Process rs (d # ds) (c, calls) =
     (if Type d \<noteq> Deleted then
        (case cache_Get (Object d) c of
           Inr (Some old) \<Rightarrow>
             (case cache_Update (ro_delete (rs 0)) (ro_update (rs 0)) (Object d) c of
                Inl err \<Rightarrow> (Some err, c, calls)
              | Inr c' \<Rightarrow> informer_Process (\<lambda>n. rs (Suc n)) ds (c', calls @ [updateNotification old (Object d)]))
         | _ \<Rightarrow>
             (case cache_Add (ro_delete (rs 0)) (ro_update (rs 0)) (Object d) c of
                Inl err \<Rightarrow> (Some err, c, calls)
              | Inr c' \<Rightarrow> informer_Process (\<lambda>n. rs (Suc n)) ds (c', calls @ [addNotification (Object d)])))
      else
        (case cache_Delete (ro_delete (rs 0)) (Object d) c of
           Inl err \<Rightarrow> (Some err, c, calls)
         | Inr c' \<Rightarrow> informer_Process (\<lambda>n. rs (Suc n)) ds (c', calls @ [deleteNotification (Object d)])))"

subsection \<open>The reflector\<close>

datatype 'o watch_event = WatchAdded 'o | WatchModified 'o | WatchDeleted 'o | WatchError string | WatchUnknown 'o

fun event_object :: "'o watch_event \<Rightarrow> 'o option" where
  "event_object (WatchAdded x) = Some x"
| "event_object (WatchModified x) = Some x"
| "event_object (WatchDeleted x) = Some x"
| "event_object (WatchUnknown x) = Some x"
| "event_object (WatchError _) = None"

definition store_event ::
  "'o knownObjects option \<Rightarrow> 'o watch_event \<Rightarrow> 'o deltaFIFO \<Rightarrow> 'o deltaFIFO" where
  "store_event known ev f =
     (case ev of
        WatchAdded x \<Rightarrow> snd (d_Add (Obj x) f)
      | WatchModified x \<Rightarrow> snd (d_Update (Obj x) f)
      | WatchDeleted x \<Rightarrow> snd (d_Delete known (Obj x) f)
      | _ \<Rightarrow> f)"

text \<open>
  What the loop of \<^verbatim>\<open>watchHandler\<close> receives, and how it ends. An event of another type and one
  whose metadata cannot be read are skipped; an error of the store is only logged. \<open>known\<close> is
  what the known objects are at the moment of each event; the resource version and the number of events
  are the loop's state.
\<close>

datatype 'o watch_input = StopRequested | ResyncFailed string | Event "'o watch_event" | WatchClosed

datatype watch_result = ErrorStopRequested | ErrorResync string | ErrorFromObject string | VeryShortWatch | WatchDone

fun watchHandler ::
  "('o \<Rightarrow> bool) \<Rightarrow> ('o \<Rightarrow> string + string) \<Rightarrow> bool \<Rightarrow> ('o knownObjects option \<times> 'o watch_input) list
     \<Rightarrow> nat \<Rightarrow> string \<times> 'o deltaFIFO \<Rightarrow> watch_result option \<times> string \<times> 'o deltaFIFO"
where
  "watchHandler expected rvOf short [] n (rv, f) = (None, rv, f)"
| "watchHandler expected rvOf short ((known, i) # is) n (rv, f) =
     (case i of
        StopRequested \<Rightarrow> (Some ErrorStopRequested, rv, f)
      | ResyncFailed err \<Rightarrow> (Some (ErrorResync err), rv, f)
      | WatchClosed \<Rightarrow> (Some (if short \<and> n = 0 then VeryShortWatch else WatchDone), rv, f)
      | Event ev \<Rightarrow>
          (case event_object ev of
             None \<Rightarrow> (Some (case ev of WatchError e \<Rightarrow> ErrorFromObject e), rv, f)
           | Some x \<Rightarrow>
               if \<not> expected x then watchHandler expected rvOf short is n (rv, f)
               else case rvOf x of
                      Inl err \<Rightarrow> watchHandler expected rvOf short is n (rv, f)
                    | Inr newrv \<Rightarrow>
                        watchHandler expected rvOf short is (Suc n) (newrv, store_event known ev f)))"

definition syncWith ::
  "'o knownObjects option \<Rightarrow> key list \<Rightarrow> 'o list \<Rightarrow> 'o deltaFIFO \<Rightarrow> 'o delta_error option \<times> 'o deltaFIFO" where
  "syncWith known ks items f = d_Replace known ks (map Obj items) f"

subsection \<open>What handling the deltas of one object does\<close>

definition final :: "'o deltas \<Rightarrow> 'o dobj option \<Rightarrow> 'o dobj option" where
  "final ds cur =
     (if ds = [] then cur else if Type (last ds) = Deleted then None else Some (Object (last ds)))"

fun notif_seq :: "'o deltas \<Rightarrow> 'o dobj option \<Rightarrow> 'o notification list" where
  "notif_seq [] cur = []"
| "notif_seq (d # ds) cur =
     (if Type d = Deleted then deleteNotification (Object d) # notif_seq ds None
      else (case cur of Some old \<Rightarrow> updateNotification old (Object d) | None \<Rightarrow> addNotification (Object d))
           # notif_seq ds (Some (Object d)))"

definition deltas_keyed :: "'o keyFunc \<Rightarrow> key \<Rightarrow> 'o deltas \<Rightarrow> bool" where
  "deltas_keyed kf k ds \<longleftrightarrow> (\<forall>d \<in> set ds. object_key kf (Object d) = Inr k)"

lemma final_Cons: "final (d # ds) cur = final ds (if Type d = Deleted then None else Some (Object d))"
  by (simp add: final_def)

lemma cache_ok:
  assumes "cache_keyFunc c obj = Inr k"
  shows "\<exists>c'. cache_Add od ou obj c = Inr c' \<and> cache_items c' = (cache_items c)(k \<mapsto> obj) \<and> cache_keyFunc c' = cache_keyFunc c"
    and "\<exists>c'. cache_Update od ou obj c = Inr c' \<and> cache_items c' = (cache_items c)(k \<mapsto> obj) \<and> cache_keyFunc c' = cache_keyFunc c"
    and "\<exists>c'. cache_Delete od obj c = Inr c' \<and> cache_items c' = (cache_items c)(k := None) \<and> cache_keyFunc c' = cache_keyFunc c"
    and "cache_Get obj c = Inr (cache_items c k)"
  using assms
  by (simp_all add: cache_Add_def cache_Update_def cache_Delete_def cache_Get_def cache_GetByKey_def
      tsm_Get_def tsm_Add_items tsm_Update_is_Add tsm_Delete_items)

definition notify_all :: "'o notification list \<Rightarrow> 'o processorListener list \<Rightarrow> 'o processorListener list" where
  "notify_all ns ls = map (\<lambda>l. l\<lparr>pendingNotifications := pendingNotifications l @ ns\<rparr>) ls"

lemma notify_all_Nil: "notify_all [] ls = ls"
  by (simp add: notify_all_def)

lemma distribute_notify: "notify_all ns (distribute n ls) = notify_all (n # ns) ls"
  by (simp add: notify_all_def distribute_def listener_add_def)

lemma HandleDeltas_effect:
  assumes "cache_keyFunc (si_indexer s) = object_key kf" and "deltas_keyed kf k ds"
  shows "\<exists>c. HandleDeltas rs ds s =
      (None, s\<lparr>si_indexer := c, si_listeners := notify_all (notif_seq ds (cache_items (si_indexer s) k)) (si_listeners s)\<rparr>)
    \<and> cache_items c = (cache_items (si_indexer s))(k := final ds (cache_items (si_indexer s) k))
    \<and> cache_keyFunc c = object_key kf"
  using assms
proof (induction ds arbitrary: rs s)
  case Nil
  then show ?case by (intro exI [of _ "si_indexer s"]) (simp add: final_def notify_all_Nil)
next
  case (Cons d ds)
  let ?m = "cache_items (si_indexer s)" and ?rs = "\<lambda>n. rs (Suc n)"
  have key: "cache_keyFunc (si_indexer s) (Object d) = Inr k"
    using Cons.prems by (simp add: deltas_keyed_def)
  note ok = cache_ok [OF key]
  define cur where "cur = (if Type d = Deleted then None else Some (Object d))"
  define n where "n = (if Type d = Deleted then deleteNotification (Object d)
    else case ?m k of Some old \<Rightarrow> updateNotification old (Object d) | None \<Rightarrow> addNotification (Object d))"
  obtain c1 where c1: "cache_items c1 = ?m(k := cur)" "cache_keyFunc c1 = object_key kf"
    and step: "HandleDeltas rs (d # ds) s
      = HandleDeltas ?rs ds (s\<lparr>si_indexer := c1, si_listeners := distribute n (si_listeners s)\<rparr>)"
  proof (cases "Type d = Deleted")
    case True
    then show ?thesis using that ok(3) [of "ro_delete (rs 0)"] Cons.prems(1) by (auto simp: cur_def n_def)
  next
    case False
    show ?thesis
    proof (cases "?m k")
      case None
      then show ?thesis using that False ok(1) [of "ro_delete (rs 0)" "ro_update (rs 0)"] ok(4) Cons.prems(1)
        by (auto simp: cur_def n_def)
    next
      case (Some old)
      then show ?thesis using that False ok(2) [of "ro_delete (rs 0)" "ro_update (rs 0)"] ok(4) Cons.prems(1)
        by (auto simp: cur_def n_def)
    qed
  qed
  have seq: "notif_seq (d # ds) (?m k) = n # notif_seq ds cur" by (simp add: n_def cur_def)
  let ?s = "s\<lparr>si_indexer := c1, si_listeners := distribute n (si_listeners s)\<rparr>"
  have prems: "cache_keyFunc (si_indexer ?s) = object_key kf" "deltas_keyed kf k ds"
    and cur: "cache_items (si_indexer ?s) = ?m(k := cur)" "cache_items (si_indexer ?s) k = cur"
    using Cons.prems(2) c1 by (simp_all add: deltas_keyed_def)
  from Cons.IH [OF prems, of ?rs, unfolded cur fun_upd_same] obtain c where
    "HandleDeltas ?rs ds ?s = (None, ?s\<lparr>si_indexer := c, si_listeners := notify_all (notif_seq ds cur) (si_listeners ?s)\<rparr>)"
    "cache_items c = (?m(k := cur))(k := final ds cur)" "cache_keyFunc c = object_key kf"
    by blast
  then show ?case unfolding step seq
    by (intro exI [of _ c]) (simp add: c1 distribute_notify final_Cons cur_def)
qed

subsection \<open>The steps of an informer\<close>

text \<open>
  The reflector, the controller's loop, the resync goroutine, the listeners' goroutines and callers
  of \<^verbatim>\<open>AddEventHandler\<close> interleave; every step holds the lock of what it changes.
\<close>

definition known_of :: "key list \<Rightarrow> 'o dobj cache \<Rightarrow> 'o knownObjects" where
  "known_of ks c = \<lparr>known_ListKeys = cache_ListKeys ks c, known_GetByKey = (\<lambda>k. Inr (cache_GetByKey k c))\<rparr>"

datatype 'o inf_event = EvWatch "'o watch_event" | EvRelist "'o list" | EvInternal

inductive informer_step :: "'o sharedIndexInformer \<Rightarrow> 'o inf_event \<Rightarrow> 'o sharedIndexInformer \<Rightarrow> bool" where
  inf_watch: "si_queue s = Some f \<Longrightarrow> iter_order (cache_items (si_indexer s)) ks \<Longrightarrow>
     informer_step s (EvWatch ev) (s\<lparr>si_queue := Some (store_event (Some (known_of ks (si_indexer s))) ev f)\<rparr>)"
| inf_relist: "si_queue s = Some f \<Longrightarrow> iter_order (cache_items (si_indexer s)) ks \<Longrightarrow>
     syncWith (Some (known_of ks (si_indexer s))) ks' xs f = (err, f') \<Longrightarrow>
     informer_step s (EvRelist xs) (s\<lparr>si_queue := Some f'\<rparr>)"
| inf_resync: "si_queue s = Some f \<Longrightarrow> d_syncKey (Inr (cache_GetByKey k (si_indexer s))) f = (err, f') \<Longrightarrow>
     informer_step s EvInternal (s\<lparr>si_queue := Some f'\<rparr>)"
| inf_process: "si_queue s = Some f \<Longrightarrow> processLoop False rs f s = Some s' \<Longrightarrow> informer_step s EvInternal s'"
| inf_pop: "i < length (si_listeners s) \<Longrightarrow> listener_pop (si_listeners s ! i) = Some l \<Longrightarrow>
     informer_step s EvInternal (s\<lparr>si_listeners := (si_listeners s)[i := l]\<rparr>)"
| inf_run: "i < length (si_listeners s) \<Longrightarrow> listener_run (si_listeners s ! i) = Some l \<Longrightarrow>
     informer_step s EvInternal (s\<lparr>si_listeners := (si_listeners s)[i := l]\<rparr>)"
| inf_join: "iter_order (cache_items (si_indexer s)) ks \<Longrightarrow> informer_step s EvInternal (si_AddEventHandler ks s)"

definition d_keyed :: "'o keyFunc \<Rightarrow> 'o deltaFIFO \<Rightarrow> bool" where
  "d_keyed kf f \<longleftrightarrow> d_compressor f = None \<and> d_keyFunc f = kf
     \<and> (\<forall>k ds. d_items f k = Some ds \<longrightarrow> deltas_keyed kf k ds)"

lemma d_keyed_deltas: "d_keyed kf f \<Longrightarrow> deltas_keyed kf k (deltas_of f k)"
  by (cases "d_items f k") (simp_all add: d_keyed_def deltas_of_def deltas_keyed_def)

lemma d_keyed_queued:
  assumes "d_keyed kf f" and "object_key kf obj = Inr k"
  shows "d_keyed kf (queued t obj k f)"
proof -
  have "deltas_keyed kf k (dedupDeltas (deltas_of f k @ [Delta t obj]))"
    using d_keyed_deltas [OF assms(1), of k] assms(2) dedupDeltas_set [of "deltas_of f k" "Delta t obj"]
    by (fastforce simp: deltas_keyed_def)
  then show ?thesis using assms(1) by (auto simp: d_keyed_def queued_def compress_def)
qed

interpretation dky: delta_kept "d_keyed kf" for kf
proof
  fix f :: "'a deltaFIFO" and t obj
  assume f: "d_keyed kf f"
  then have "compressor_ok f" and kf: "d_keyFunc f = kf" by (simp_all add: d_keyed_def compressor_ok_nil)
  then show "d_keyed kf (snd (queueActionLocked t obj f))"
    using f d_keyed_queued [OF f]
    by (cases "object_key kf obj") (simp_all add: queueAction_err queueAction_ok)
qed (simp_all add: d_keyed_def)

lemma d_keyed_compressor_ok: "d_keyed kf f \<Longrightarrow> compressor_ok f"
  by (simp add: d_keyed_def compressor_ok_nil)

definition queue_inv :: "'o keyFunc \<Rightarrow> 'o deltaFIFO \<Rightarrow> bool" where
  "queue_inv kf f \<longleftrightarrow> delta_exact f \<and> d_keyed kf f"

definition indexer_inv :: "'o keyFunc \<Rightarrow> 'o dobj cache \<Rightarrow> bool" where
  "indexer_inv kf c \<longleftrightarrow> cache_keyFunc c = object_key kf \<and> keyed (object_key kf) (cache_items c)"

definition informer_inv :: "'o keyFunc \<Rightarrow> 'o sharedIndexInformer \<Rightarrow> bool" where
  "informer_inv kf s \<longleftrightarrow> (\<exists>f. si_queue s = Some f \<and> queue_inv kf f) \<and> indexer_inv kf (si_indexer s)"

interpretation qi: delta_kept "queue_inv kf" for kf
  by unfold_locales
    (auto simp: queue_inv_def intro: delta_exact_queueAction dky.kept_action dky.kept_populated
      dky.kept_count d_keyed_compressor_ok)

lemma queue_inv_New: "queue_inv kf (NewDeltaFIFO kf None)"
  by (simp add: queue_inv_def delta_exact_def d_keyed_def NewDeltaFIFO_def)

lemma queue_inv_store_event: "queue_inv kf f \<Longrightarrow> queue_inv kf (store_event known ev f)"
  by (cases ev) (simp_all add: store_event_def qi.kept_Add qi.kept_Update qi.kept_Delete)

subsection \<open>The effect of one iteration of the loop\<close>

lemma process_result_of_simps [simp]:
  "process_result_of err \<noteq> ErrRequeue e" "result_error (process_result_of err) = err"
  by (auto simp: process_result_of_def split: option.splits)

lemma final_keyed:
  "deltas_keyed kf k ds \<Longrightarrow> keyed (object_key kf) m \<Longrightarrow> ds \<noteq> [] \<Longrightarrow> keyed (object_key kf) (m(k := final ds cur))"
  by (auto simp: final_def deltas_keyed_def intro: keyed_upd keyed_delete)

lemma processLoop_effect:
  assumes "informer_inv kf s" and "si_queue s = Some f" and "processLoop retry rs f s = Some s'"
  shows "d_queue f = [] \<and> s' = s \<or>
    (\<exists>k rest ds c f1. d_queue f = k # rest \<and> d_items f k = Some ds \<and> ds \<noteq> [] \<and> deltas_keyed kf k ds
       \<and> queue_inv kf f1 \<and> (\<forall>j. deltas_of f1 j = (if j = k then [] else deltas_of f j))
       \<and> cache_items c = (cache_items (si_indexer s))(k := final ds (cache_items (si_indexer s) k))
       \<and> indexer_inv kf c
       \<and> s' = s\<lparr>si_indexer := c, si_queue := Some f1,
            si_listeners := notify_all (notif_seq ds (cache_items (si_indexer s) k)) (si_listeners s)\<rparr>)"
proof -
  let ?m = "cache_items (si_indexer s)" and ?p = "\<lambda>ds. process_result_of (fst (HandleDeltas rs ds s))"
  have inv: "delta_exact f" "d_keyed kf f" and kf: "cache_keyFunc (si_indexer s) = object_key kf"
    and keyed: "keyed (object_key kf) ?m"
    using assms(1,2) by (auto simp: informer_inv_def queue_inv_def indexer_inv_def)
  from inv(1) show ?thesis
  proof (cases rule: d_Pop_exact [where process = ?p])
    case waits
    then have "s' = s\<lparr>si_queue := Some f\<rparr>" using assms(3) by (simp add: processLoop_def)
    then show ?thesis using assms(2) waits(1) by (cases s) simp
  next
    case (pops k rest ds f1)
    have ds: "deltas_keyed kf k ds" using inv(2) pops(2) by (simp add: d_keyed_def)
    from HandleDeltas_effect [OF kf ds, of rs] obtain c where
      h: "HandleDeltas rs ds s = (None, s\<lparr>si_indexer := c, si_listeners := notify_all (notif_seq ds (?m k)) (si_listeners s)\<rparr>)"
      and c: "cache_items c = ?m(k := final ds (?m k))" "cache_keyFunc c = object_key kf" by blast
    have "indexer_inv kf c" using final_keyed [OF ds keyed pops(3)] c by (simp add: indexer_inv_def)
    moreover have "delta_exact f1" unfolding pops(4) by (rule delta_exact_dequeue [OF inv(1) pops(1)])
    then have "queue_inv kf f1" using inv(2) by (simp add: queue_inv_def d_keyed_def pops(4))
    moreover have "deltas_of f1 j = (if j = k then [] else deltas_of f j)" for j
      by (simp add: pops(4) deltas_of_def)
    moreover have "s' = s\<lparr>si_indexer := c, si_queue := Some f1,
        si_listeners := notify_all (notif_seq ds (?m k)) (si_listeners s)\<rparr>"
      using assms(3) pops(5) h by (auto simp: processLoop_def)
    ultimately show ?thesis using pops(1-3) ds c(1) by blast
  qed
qed

subsection \<open>The informer follows the server\<close>

definition pending_outcome :: "'o sharedIndexInformer \<Rightarrow> (key \<rightharpoonup> 'o dobj)" where
  "pending_outcome s = (case si_queue s of None \<Rightarrow> cache_items (si_indexer s)
     | Some f \<Rightarrow> outcome f (cache_items (si_indexer s)))"

fun server :: "'o keyFunc \<Rightarrow> (key \<rightharpoonup> 'o dobj) \<Rightarrow> 'o inf_event \<Rightarrow> (key \<rightharpoonup> 'o dobj)" where
  "server kf m (EvWatch (WatchAdded x)) = (case kf x of Inl _ \<Rightarrow> m | Inr k \<Rightarrow> m(k \<mapsto> Obj x))"
| "server kf m (EvWatch (WatchModified x)) = (case kf x of Inl _ \<Rightarrow> m | Inr k \<Rightarrow> m(k \<mapsto> Obj x))"
| "server kf m (EvWatch (WatchDeleted x)) = (case kf x of Inl _ \<Rightarrow> m | Inr k \<Rightarrow> m(k := None))"
| "server kf m (EvRelist xs) = listed kf (map Obj xs)"
| "server kf m _ = m"

lemma outcome_action:
  assumes "d_keyed kf f" and "t \<noteq> Sync"
  shows "outcome (snd (queueActionLocked t obj f)) m =
    (case object_key kf obj of Inl _ \<Rightarrow> outcome f m
     | Inr k \<Rightarrow> (outcome f m)(k := if t = Deleted then None else Some obj))"
  using assms d_keyed_compressor_ok [OF assms(1)]
  by (cases "object_key kf obj") (simp_all add: queueAction_err queueAction_ok outcome_queued d_keyed_def)

lemma outcome_store_event:
  assumes "queue_inv kf f" and "known = Some (known_of ks c)" and "m = cache_items c"
  shows "outcome (store_event known ev f) m = server kf (outcome f m) (EvWatch ev)"
proof -
  have f: "d_keyed kf (f\<lparr>d_populated := True\<rparr>)" "d_keyFunc f = kf" and exact: "delta_exact f"
    using assms(1) by (simp_all add: queue_inv_def d_keyed_def)
  note act = outcome_action [OF f(1), simplified]
  show ?thesis
  proof (cases ev)
    case (WatchDeleted x)
    show ?thesis
    proof (cases "kf x")
      case (Inr k)
      show ?thesis
      proof (cases "d_items f k = None \<and> cache_items c k = None")
        case True
        then have "outcome f m k = None" using assms(3) by (simp add: outcome_def deltas_of_def)
        then show ?thesis using WatchDeleted Inr True assms(2) f(2)
          by (simp add: store_event_def d_Delete_def KeyOf_def known_of_def cache_GetByKey_def tsm_Get_def
              fun_upd_idem)
      next
        case False
        then have "store_event known ev f = snd (queueActionLocked Deleted (Obj x) (f\<lparr>d_populated := True\<rparr>))"
          using WatchDeleted Inr assms(2) f(2)
          by (auto simp: store_event_def d_Delete_def KeyOf_def known_of_def cache_GetByKey_def tsm_Get_def)
        then show ?thesis using WatchDeleted Inr act [of Deleted "Obj x"] by simp
      qed
    qed (use WatchDeleted f(2) in \<open>simp add: store_event_def d_Delete_def KeyOf_def\<close>)
  qed (use act in \<open>simp_all add: store_event_def d_Add_def d_Update_def split: sum.splits\<close>)
qed

text \<open>
  The keys a re-list leads astray: a listed key whose deletion is pending, since the queue ignores the
  sync of an object it is about to delete, and a key that is pending but neither listed nor in the
  indexer, since only the keys of the indexer are searched for deletions. When the key of a listed
  object cannot be computed, the re-list stops half way, and every key may be. A key stays astray until a
  watch event for it, or the next re-list.
\<close>

fun astray :: "'o keyFunc \<Rightarrow> 'o sharedIndexInformer \<Rightarrow> 'o inf_event \<Rightarrow> key set \<Rightarrow> key set" where
  "astray kf s (EvRelist xs) D =
     {k. (\<exists>x \<in> set xs. isl (kf x))
       \<or> (if k \<in> dom (listed kf (map Obj xs))
          then (case si_queue s of None \<Rightarrow> False | Some f \<Rightarrow> willObjectBeDeletedLocked k f)
          else cache_items (si_indexer s) k = None \<and> pending_outcome s k \<noteq> None)}"
| "astray kf s (EvWatch (WatchAdded x)) D = (case kf x of Inl _ \<Rightarrow> D | Inr k \<Rightarrow> D - {k})"
| "astray kf s (EvWatch (WatchModified x)) D = (case kf x of Inl _ \<Rightarrow> D | Inr k \<Rightarrow> D - {k})"
| "astray kf s (EvWatch (WatchDeleted x)) D = (case kf x of Inl _ \<Rightarrow> D | Inr k \<Rightarrow> D - {k})"
| "astray kf s _ D = D"

lemma outcome_relist:
  assumes "informer_inv kf s" and "si_queue s = Some f" and "iter_order (cache_items (si_indexer s)) ks"
    and "syncWith (Some (known_of ks (si_indexer s))) ks' xs f = (err, f')" and "k \<notin> astray kf s (EvRelist xs) D"
  shows "outcome f' (cache_items (si_indexer s)) k = listed kf (map Obj xs) k"
proof -
  let ?m = "cache_items (si_indexer s)"
  have f: "d_compressor f = None" "d_keyFunc f = kf"
    using assms(1,2) by (auto simp: informer_inv_def queue_inv_def d_keyed_def)
  have keys: "\<forall>x \<in> set (map Obj xs). \<not> isl (object_key (d_keyFunc f) x)"
    using assms(5) f(2) by auto
  have "set (known_ListKeys (known_of ks (si_indexer s))) = dom ?m"
    using assms(3) by (auto simp: known_of_def cache_ListKeys_def tsm_ListKeys_def iter_order_def)
  then have "outcome f' ?m k = (if k \<in> dom (listed kf (map Obj xs))
      then (if willObjectBeDeletedLocked k f then None else listed kf (map Obj xs) k)
      else if k \<in> dom ?m then None else outcome f ?m k)"
    using d_Replace_outcome [OF f(1) keys assms(4) [unfolded syncWith_def], of ?m k] f(2) by simp
  moreover have "pending_outcome s = outcome f ?m" using assms(2) by (simp add: pending_outcome_def)
  ultimately show ?thesis
    using assms(2,5) by (cases "k \<in> dom (listed kf (map Obj xs))") (auto simp: dom_def)
qed

lemma outcome_syncKey:
  assumes "informer_inv kf s" and "si_queue s = Some f"
    and "d_syncKey (Inr (cache_GetByKey k (si_indexer s))) f = (err, f')"
  shows "outcome f' (cache_items (si_indexer s)) = outcome f (cache_items (si_indexer s))"
proof (cases "cache_items (si_indexer s) k")
  case None
  then show ?thesis using assms(3) by (simp add: d_syncKey_def cache_GetByKey_def tsm_Get_def)
next
  case (Some obj)
  have f: "d_keyed kf f" "d_keyFunc f = kf" "d_compressor f = None"
    using assms(1,2) by (auto simp: informer_inv_def queue_inv_def d_keyed_def)
  have key: "object_key kf obj = Inr k"
    using assms(1) Some by (auto simp: informer_inv_def indexer_inv_def keyed_def)
  show ?thesis
  proof (cases "deltas_of f k = []")
    case True
    then have "f' = queued Sync obj k f"
      using assms(3) Some key f d_keyed_compressor_ok [OF f(1)]
      by (simp add: d_syncKey_def cache_GetByKey_def tsm_Get_def KeyOf_def queueAction_ok willObjectBeDeleted_last)
    moreover have "outcome f (cache_items (si_indexer s)) k = Some obj" using True Some by (simp add: outcome_def)
    ultimately show ?thesis by (simp add: outcome_queued [OF f(3)] fun_upd_idem)
  next
    case False
    then show ?thesis using assms(3) Some key f
      by (simp add: d_syncKey_def cache_GetByKey_def tsm_Get_def KeyOf_def)
  qed
qed

lemma si_AddEventHandler_frame [simp]:
  "si_indexer (si_AddEventHandler ks s) = si_indexer s" "si_queue (si_AddEventHandler ks s) = si_queue s"
  by (simp_all add: si_AddEventHandler_def Let_def)

lemma informer_inv_step:
  assumes "informer_step s e s'" and "informer_inv kf s"
  shows "informer_inv kf s'"
  using assms
proof (induction rule: informer_step.induct)
  case (inf_watch s f ks ev)
  then show ?case using queue_inv_store_event by (auto simp: informer_inv_def)
next
  case (inf_relist s f ks ks' xs err f')
  then show ?case using qi.kept_Replace [of kf f "Some (known_of ks (si_indexer s))" ks' "map Obj xs"]
    by (auto simp: informer_inv_def syncWith_def)
next
  case (inf_resync s f k err f')
  then show ?case using qi.kept_syncKey [of kf f "Inr (cache_GetByKey k (si_indexer s))"]
    by (auto simp: informer_inv_def)
next
  case (inf_process s f rs s')
  from processLoop_effect [OF inf_process(3,1,2)] inf_process(3) show ?case by (auto simp: informer_inv_def)
qed (auto simp: informer_inv_def)

lemma pending_outcome_step:
  assumes "informer_step s e s'" and "informer_inv kf s"
    and "k \<notin> D \<Longrightarrow> pending_outcome s k = m k" and "k \<notin> astray kf s e D"
  shows "pending_outcome s' k = server kf m e k"
  using assms
proof (induction rule: informer_step.induct)
  case (inf_watch s f ks ev)
  then have "queue_inv kf f" by (auto simp: informer_inv_def)
  from outcome_store_event [OF this refl refl, of ks "si_indexer s" ev] inf_watch(1)
  have "pending_outcome (s\<lparr>si_queue := Some (store_event (Some (known_of ks (si_indexer s))) ev f)\<rparr>)
      = server kf (pending_outcome s) (EvWatch ev)" by (simp add: pending_outcome_def)
  then show ?case using inf_watch(4,5) by (cases ev) (auto split: sum.splits)
next
  case (inf_relist s f ks ks' xs err f')
  from outcome_relist [OF inf_relist(4,1,2,3,6)] show ?case by (simp add: pending_outcome_def)
next
  case (inf_resync s f k err f')
  then show ?case using outcome_syncKey [OF inf_resync(3,1,2)] inf_resync(4,5) by (simp add: pending_outcome_def)
next
  case (inf_process s f rs s')
  from processLoop_effect [OF inf_process(3,1,2)] show ?case
  proof (elim disjE exE conjE)
    fix k rest ds c f1
    assume ds: "d_items f k = Some ds" "ds \<noteq> []"
      and f1: "\<forall>j. deltas_of f1 j = (if j = k then [] else deltas_of f j)"
      and c: "cache_items c = (cache_items (si_indexer s))(k := final ds (cache_items (si_indexer s) k))"
      and s': "s' = s\<lparr>si_indexer := c, si_queue := Some f1,
        si_listeners := notify_all (notif_seq ds (cache_items (si_indexer s) k)) (si_listeners s)\<rparr>"
    have "deltas_of f k = ds" using ds by (simp add: deltas_of_def)
    then have "outcome f1 (cache_items c) = outcome f (cache_items (si_indexer s))"
      using ds(2) f1 by (auto simp: outcome_def c final_def fun_eq_iff Let_def)
    then show ?thesis using s' inf_process(1,4,5) by (simp add: pending_outcome_def)
  qed (use inf_process(4,5) in simp)
qed (simp_all add: pending_outcome_def cong: option.case_cong)

subsection \<open>Runs\<close>

text \<open>A run with the events of the server in it, and the keys that are astray at its end.\<close>

inductive informer_run ::
  "'o keyFunc \<Rightarrow> 'o sharedIndexInformer \<Rightarrow> 'o inf_event list \<Rightarrow> 'o sharedIndexInformer \<Rightarrow> key set \<Rightarrow> bool"
  for kf where
  informer_run_nil: "informer_run kf s [] s {}"
| informer_run_snoc: "informer_run kf s es s' D \<Longrightarrow> informer_step s' e s'' \<Longrightarrow>
     informer_run kf s (es @ [e]) s'' (astray kf s' e D)"

lemma informer_run_inv: "informer_run kf s es s' D \<Longrightarrow> informer_inv kf s \<Longrightarrow> informer_inv kf s'"
  by (induction rule: informer_run.induct) (auto intro: informer_inv_step)

lemma informer_run_outcome:
  "informer_run kf s es s' D \<Longrightarrow> informer_inv kf s \<Longrightarrow> k \<notin> D \<Longrightarrow>
     pending_outcome s' k = foldl (server kf) (pending_outcome s) es k"
proof (induction rule: informer_run.induct)
  case (informer_run_snoc s es s' D e s'')
  have "informer_inv kf s'" by (rule informer_run_inv [OF informer_run_snoc(1,4)])
  from pending_outcome_step [OF informer_run_snoc(2) this _ informer_run_snoc(5), of "foldl (server kf) (pending_outcome s) es"]
    informer_run_snoc(3) [OF informer_run_snoc(4)]
  show ?case by simp
qed simp

definition started :: "'o keyFunc \<Rightarrow> 'o dobj indexers \<Rightarrow> nat \<Rightarrow> 'o sharedIndexInformer" where
  "started kf idxs n = si_Run kf ((si_AddEventHandler [] ^^ n) (NewSharedIndexInformer kf idxs))"

lemma added_handlers:
  "(si_AddEventHandler [] ^^ n) (NewSharedIndexInformer kf idxs)
     = (NewSharedIndexInformer kf idxs)\<lparr>si_listeners := replicate n newProcessListener\<rparr>"
  by (induction n)
    (simp_all add: si_AddEventHandler_def si_started_def NewSharedIndexInformer_def replicate_append_same)

lemma started_parts:
  "si_queue (started kf idxs n) = Some (NewDeltaFIFO kf None)"
  "si_listeners (started kf idxs n) = replicate n newProcessListener"
  "cache_items (si_indexer (started kf idxs n)) = Map.empty"
  "cache_keyFunc (si_indexer (started kf idxs n)) = object_key kf"
  unfolding started_def added_handlers
  by (simp_all add: si_Run_def NewSharedIndexInformer_def NewIndexer_def NewThreadSafeStore_def)

lemma informer_inv_started: "informer_inv kf (started kf idxs n)"
  by (simp add: informer_inv_def indexer_inv_def started_parts queue_inv_New keyed_empty)

lemma outcome_New: "outcome (NewDeltaFIFO kf c) m = m"
  by (simp add: outcome_def deltas_of_def NewDeltaFIFO_def fun_eq_iff)

subsection \<open>What the listeners are told\<close>

fun notif_apply :: "'o keyFunc \<Rightarrow> (key \<rightharpoonup> 'o dobj) \<Rightarrow> 'o notification \<Rightarrow> (key \<rightharpoonup> 'o dobj)" where
  "notif_apply kf m (addNotification new) = m(projr (object_key kf new) \<mapsto> new)"
| "notif_apply kf m (updateNotification old new) = m(projr (object_key kf new) \<mapsto> new)"
| "notif_apply kf m (deleteNotification old) = m(projr (object_key kf old) := None)"

fun notif_ok :: "'o keyFunc \<Rightarrow> (key \<rightharpoonup> 'o dobj) \<Rightarrow> 'o notification \<Rightarrow> bool" where
  "notif_ok kf m (addNotification new) \<longleftrightarrow> m (projr (object_key kf new)) = None"
| "notif_ok kf m (updateNotification old new) \<longleftrightarrow> m (projr (object_key kf new)) = Some old"
| "notif_ok kf m (deleteNotification old) \<longleftrightarrow> True"

fun notifs_ok :: "'o keyFunc \<Rightarrow> (key \<rightharpoonup> 'o dobj) \<Rightarrow> 'o notification list \<Rightarrow> bool" where
  "notifs_ok kf m [] = True"
| "notifs_ok kf m (n # ns) \<longleftrightarrow> notif_ok kf m n \<and> notifs_ok kf (notif_apply kf m n) ns"

lemma notifs_ok_append:
  "notifs_ok kf m (ns @ ns') \<longleftrightarrow> notifs_ok kf m ns \<and> notifs_ok kf (foldl (notif_apply kf) m ns) ns'"
  by (induction ns arbitrary: m) auto

definition all_notifs :: "'o processorListener \<Rightarrow> 'o notification list" where
  "all_notifs l = handled l @ (case nextCh l of None \<Rightarrow> [] | Some n \<Rightarrow> [n]) @ pendingNotifications l"

definition listener_ok :: "'o keyFunc \<Rightarrow> (key \<rightharpoonup> 'o dobj) \<Rightarrow> 'o processorListener \<Rightarrow> bool" where
  "listener_ok kf m l \<longleftrightarrow> notifs_ok kf Map.empty (all_notifs l)
     \<and> foldl (notif_apply kf) Map.empty (all_notifs l) = m"

lemma notif_seq_ok:
  assumes "deltas_keyed kf k ds"
  shows "notifs_ok kf m (notif_seq ds (m k)) \<and> foldl (notif_apply kf) m (notif_seq ds (m k)) = m(k := final ds (m k))"
  using assms
proof (induction ds arbitrary: m)
  case (Cons d ds)
  have d: "projr (object_key kf (Object d)) = k" and ds: "deltas_keyed kf k ds"
    using Cons.prems by (simp_all add: deltas_keyed_def)
  show ?case
  proof (cases "Type d = Deleted")
    case True
    then show ?thesis using Cons.IH [OF ds, of "m(k := None)", unfolded fun_upd_same fun_upd_upd] d
      by (simp add: final_Cons del: fun_upd_apply)
  next
    case False
    then show ?thesis using Cons.IH [OF ds, of "m(k \<mapsto> Object d)", unfolded fun_upd_same fun_upd_upd] d
      by (cases "m k") (simp_all add: final_Cons del: fun_upd_apply)
  qed
qed (simp add: final_def)

lemma listener_ok_notify:
  "listener_ok kf m l \<Longrightarrow> notifs_ok kf m ns \<Longrightarrow> foldl (notif_apply kf) m ns = m' \<Longrightarrow>
     listener_ok kf m' (l\<lparr>pendingNotifications := pendingNotifications l @ ns\<rparr>)"
  by (auto simp: listener_ok_def all_notifs_def notifs_ok_append)

lemma all_notifs_moves:
  "listener_pop l = Some l' \<Longrightarrow> all_notifs l' = all_notifs l"
  "listener_run l = Some l' \<Longrightarrow> all_notifs l' = all_notifs l"
  by (auto simp: listener_pop_def listener_run_def all_notifs_def split: option.splits list.splits)

lemma synthetic_adds:
  assumes "keyed (object_key kf) m" and "distinct ks" and "\<forall>k \<in> set ks. m0 k = None \<and> m k \<noteq> None"
  shows "notifs_ok kf m0 (map addNotification (List.map_filter m ks))
    \<and> foldl (notif_apply kf) m0 (map addNotification (List.map_filter m ks)) = m0 ++ (m |` set ks)"
  using assms(2,3)
proof (induction ks arbitrary: m0)
  case (Cons k ks)
  then obtain x where x: "m k = Some x" by auto
  then have key: "projr (object_key kf x) = k" using assms(1) by (auto simp: keyed_def)
  have "m0 ++ (m |` set (k # ks)) = m0(k \<mapsto> x) ++ (m |` set ks)"
    using x Cons.prems by (auto simp: fun_eq_iff map_add_def restrict_map_def split: option.splits)
  moreover have "\<forall>j \<in> set ks. (m0(k \<mapsto> x)) j = None \<and> m j \<noteq> None" and "distinct ks"
    using Cons.prems by auto
  then have "notifs_ok kf (m0(k \<mapsto> x)) (map addNotification (List.map_filter m ks))"
    "foldl (notif_apply kf) (m0(k \<mapsto> x)) (map addNotification (List.map_filter m ks)) = m0(k \<mapsto> x) ++ (m |` set ks)"
    using Cons.IH by blast+
  ultimately show ?case using Cons.prems x key by (simp add: List.map_filter_simps)
qed (simp add: List.map_filter_simps)

lemma fold_listener_add:
  "foldl (\<lambda>l x. listener_add (addNotification x) l) l xs
     = l\<lparr>pendingNotifications := pendingNotifications l @ map addNotification xs\<rparr>"
  by (induction xs arbitrary: l) (simp_all add: listener_add_def)

lemma listener_ok_new: "listener_ok kf Map.empty newProcessListener"
  by (simp add: listener_ok_def all_notifs_def newProcessListener_def)

lemma listener_ok_joined:
  assumes "keyed (object_key kf) m" and "iter_order m ks"
  shows "listener_ok kf m (newProcessListener\<lparr>pendingNotifications := map addNotification (List.map_filter m ks)\<rparr>)"
proof -
  have "\<forall>k \<in> set ks. Map.empty k = None \<and> m k \<noteq> None" "distinct ks" "m |` set ks = m"
    using assms(2) by (auto simp: iter_order_def restrict_map_def fun_eq_iff split: if_splits)
  with synthetic_adds [OF assms(1), of ks Map.empty]
  show ?thesis by (simp add: listener_ok_def all_notifs_def newProcessListener_def)
qed

lemma listeners_ok_step:
  assumes "informer_step s e s'" and "informer_inv kf s"
    and "\<forall>l \<in> set (si_listeners s). listener_ok kf (cache_items (si_indexer s)) l"
  shows "\<forall>l \<in> set (si_listeners s'). listener_ok kf (cache_items (si_indexer s')) l"
  using assms
proof (induction rule: informer_step.induct)
  case (inf_process s f rs s')
  let ?m = "cache_items (si_indexer s)"
  from processLoop_effect [OF inf_process(3,1,2)] show ?case
  proof (elim disjE exE conjE)
    fix k rest ds c f1
    assume ds: "deltas_keyed kf k ds" and c: "cache_items c = ?m(k := final ds (?m k))"
      and s': "s' = s\<lparr>si_indexer := c, si_queue := Some f1,
        si_listeners := notify_all (notif_seq ds (?m k)) (si_listeners s)\<rparr>"
    have "listener_ok kf (cache_items c) (l\<lparr>pendingNotifications := pendingNotifications l @ notif_seq ds (?m k)\<rparr>)"
      if "l \<in> set (si_listeners s)" for l
      using listener_ok_notify [of kf ?m l] notif_seq_ok [OF ds, of ?m] inf_process(4) that c by simp
    then show ?thesis using s' by (simp add: notify_all_def)
  qed (use inf_process(4) in simp)
next
  case (inf_pop i s l)
  then have "listener_ok kf (cache_items (si_indexer s)) l"
    using all_notifs_moves(1) [of "si_listeners s ! i" l] nth_mem by (fastforce simp: listener_ok_def)
  then show ?case using inf_pop(4) by (auto dest: subsetD [OF set_update_subset_insert])
next
  case (inf_run i s l)
  then have "listener_ok kf (cache_items (si_indexer s)) l"
    using all_notifs_moves(2) [of "si_listeners s ! i" l] nth_mem by (fastforce simp: listener_ok_def)
  then show ?case using inf_run(4) by (auto dest: subsetD [OF set_update_subset_insert])
next
  case (inf_join s ks)
  have m: "keyed (object_key kf) (cache_items (si_indexer s))" and "si_started s"
    using inf_join(2) by (auto simp: informer_inv_def indexer_inv_def si_started_def)
  then show ?case using inf_join(3) listener_ok_joined [OF m inf_join(1)]
    by (simp add: si_AddEventHandler_def Let_def fold_listener_add cache_List_def tsm_List_def newProcessListener_def)
qed simp_all

lemma informer_run_listeners:
  "informer_run kf s es s' D \<Longrightarrow> informer_inv kf s \<Longrightarrow>
     \<forall>l \<in> set (si_listeners s). listener_ok kf (cache_items (si_indexer s)) l \<Longrightarrow>
     \<forall>l \<in> set (si_listeners s'). listener_ok kf (cache_items (si_indexer s')) l"
proof (induction rule: informer_run.induct)
  case (informer_run_snoc s es s' D e s'')
  then show ?case using listeners_ok_step [OF informer_run_snoc(2)] informer_run_inv by blast
qed

subsection \<open>The two handlers\<close>

definition agree ::
  "'o notification list \<Rightarrow> 'o processorListener \<Rightarrow> 'o dobj key_error option \<times> 'o sharedIndexInformer
     \<Rightarrow> 'o dobj key_error option \<times> 'o dobj cache \<times> 'o notification list \<Rightarrow> bool" where
  "agree calls l r1 r2 \<longleftrightarrow> fst r1 = fst r2 \<and> si_indexer (snd r1) = fst (snd r2)
     \<and> (\<exists>ns. snd (snd r2) = calls @ ns
          \<and> si_listeners (snd r1) = [l\<lparr>pendingNotifications := pendingNotifications l @ ns\<rparr>])"

lemma agree_more: "agree (calls @ [n]) (listener_add n l) r1 r2 \<Longrightarrow> agree calls l r1 r2"
  by (auto simp: agree_def listener_add_def)

lemma agree_stop: "si_listeners s = [l] \<Longrightarrow> agree calls l (err, s) (err, si_indexer s, calls)"
  by (simp add: agree_def)

lemma HandleDeltas_Process:
  "si_listeners s = [l] \<Longrightarrow> agree calls l (HandleDeltas rs ds s) (informer_Process rs ds (si_indexer s, calls))"
proof (induction ds arbitrary: rs s l calls)
  case Nil
  then show ?case by (simp add: agree_stop)
next
  case (Cons d ds)
  have go: "agree calls l (HandleDeltas (\<lambda>n. rs (Suc n)) ds (s\<lparr>si_indexer := c, si_listeners := [listener_add n l]\<rparr>))
    (informer_Process (\<lambda>n. rs (Suc n)) ds (c, calls @ [n]))" for c n
    using Cons.IH [of "s\<lparr>si_indexer := c, si_listeners := [listener_add n l]\<rparr>" "listener_add n l" "calls @ [n]"]
    by (auto intro: agree_more [where n = n])
  note stop = agree_stop [OF Cons.prems, of calls]
  let ?i = "si_indexer s" and ?od = "ro_delete (rs 0)" and ?ou = "ro_update (rs 0)"
  have add: ?case if "Type d \<noteq> Deleted" and "\<And>old. cache_Get (Object d) ?i \<noteq> Inr (Some old)"
    using that Cons.prems stop go
    by (cases "cache_Get (Object d) ?i"; cases "projr (cache_Get (Object d) ?i)"; cases "cache_Add ?od ?ou (Object d) ?i")
      (simp_all add: distribute_def)
  show ?case
  proof (cases "Type d = Deleted")
    case True
    then show ?thesis using Cons.prems stop go
      by (cases "cache_Delete ?od (Object d) ?i") (simp_all add: distribute_def)
  next
    case False
    show ?thesis
    proof (cases "\<exists>old. cache_Get (Object d) ?i = Inr (Some old)")
      case True
      then obtain old where "cache_Get (Object d) ?i = Inr (Some old)" ..
      then show ?thesis using False Cons.prems stop go
        by (cases "cache_Update ?od ?ou (Object d) ?i") (simp_all add: distribute_def)
    qed (use add False in blast)
  qed
qed

subsection \<open>What the watch loop stores\<close>

fun ends_watch :: "'o watch_input \<Rightarrow> bool" where
  "ends_watch (Event (WatchError e)) = True"
| "ends_watch (Event _) = False"
| "ends_watch _ = True"

definition accepted ::
  "('o \<Rightarrow> bool) \<Rightarrow> ('o \<Rightarrow> string + string) \<Rightarrow> ('o knownObjects option \<times> 'o watch_input) list
     \<Rightarrow> ('o knownObjects option \<times> 'o watch_event \<times> string) list" where
  "accepted expected rvOf is = List.map_filter (\<lambda>(known, i).
     case i of Event ev \<Rightarrow>
       (case event_object ev of Some x \<Rightarrow>
          (if expected x then case rvOf x of Inr rv \<Rightarrow> Some (known, ev, rv) | Inl _ \<Rightarrow> None else None)
        | None \<Rightarrow> None)
     | _ \<Rightarrow> None) (takeWhile (\<lambda>(known, i). \<not> ends_watch i) is)"

lemma accepted_Nil: "accepted expected rvOf [] = []"
  by (simp add: accepted_def List.map_filter_simps)

lemma accepted_stop: "ends_watch i \<Longrightarrow> accepted expected rvOf ((known, i) # is) = []"
  by (simp add: accepted_def List.map_filter_simps)

lemma accepted_event:
  "event_object ev = Some x \<Longrightarrow> accepted expected rvOf ((known, Event ev) # is) =
     (if expected x then (case rvOf x of Inr rv \<Rightarrow> [(known, ev, rv)] | Inl _ \<Rightarrow> []) else [])
     @ accepted expected rvOf is"
  by (cases ev) (simp_all add: accepted_def List.map_filter_simps split: sum.splits)

fun watch_outcome :: "bool \<Rightarrow> nat \<Rightarrow> 'o watch_input list \<Rightarrow> watch_result option" where
  "watch_outcome short n [] = None"
| "watch_outcome short n (StopRequested # _) = Some ErrorStopRequested"
| "watch_outcome short n (ResyncFailed err # _) = Some (ErrorResync err)"
| "watch_outcome short n (WatchClosed # _) = Some (if short \<and> n = 0 then VeryShortWatch else WatchDone)"
| "watch_outcome short n (Event (WatchError e) # _) = Some (ErrorFromObject e)"
| "watch_outcome short n (Event _ # is) = watch_outcome short n is"

lemma watchHandler_accepted:
  "watchHandler expected rvOf short is n (rv, f) =
     (watch_outcome short (n + length (accepted expected rvOf is)) (dropWhile (\<lambda>i. \<not> ends_watch i) (map snd is)),
      last (rv # map (snd \<circ> snd) (accepted expected rvOf is)),
      foldl (\<lambda>f (known, ev, rv). store_event known ev f) f (accepted expected rvOf is))"
proof (induction "is" arbitrary: n rv f)
  case Nil
  then show ?case by (simp add: accepted_Nil)
next
  case (Cons ki "is")
  obtain known i where ki: "ki = (known, i)" by (cases ki)
  show ?case
  proof (cases "ends_watch i")
    case True
    then show ?thesis by (cases i rule: ends_watch.cases) (simp_all add: ki accepted_stop)
  next
    case False
    then obtain ev x where "i = Event ev" "event_object ev = Some x"
      by (cases i rule: ends_watch.cases) auto
    then show ?thesis using Cons False
      by (cases "rvOf x") (simp_all add: ki accepted_event)
  qed
qed

subsection \<open>Properties\<close>



text \<open>
  C15. Every handler sees a consistent story: in any run, with any re-lists, the notifications
  sent to a handler, delivered, in flight and pending in this order, start from the empty store
  and lead to exactly the indexer's contents; an addition is announced only for a key the handler
  does not hold, and an update carries the object the handler holds. This includes handlers that
  join a running informer.
\<close>

theorem informer_notifications:
  assumes "informer_run kf (started kf idxs n) es s D" and "l \<in> set (si_listeners s)"
  shows "notifs_ok kf Map.empty (all_notifs l)
    \<and> foldl (notif_apply kf) Map.empty (all_notifs l) = cache_items (si_indexer s)"
proof -
  have "\<forall>l \<in> set (si_listeners (started kf idxs n)). listener_ok kf (cache_items (si_indexer (started kf idxs n))) l"
    by (simp add: started_parts listener_ok_new)
  from informer_run_listeners [OF assms(1) informer_inv_started this] assms(2)
  show ?thesis by (simp add: listener_ok_def)
qed

theorem informer_notifications_witness:
  "\<exists>s :: string sharedIndexInformer. informer_run Inr (started Inr Map.empty 0) ([] @ [EvInternal]) s {}
     \<and> length (si_listeners s) = 1 \<and> foldl (notif_apply Inr) Map.empty (all_notifs (hd (si_listeners s))) = Map.empty"
proof -
  let ?s0 = "started Inr Map.empty 0 :: string sharedIndexInformer" and ?t = "si_AddEventHandler [] (started Inr Map.empty 0)"
  have "informer_step ?s0 EvInternal ?t" by (rule inf_join) (simp add: started_parts iter_order_def)
  then have run: "informer_run Inr ?s0 ([] @ [EvInternal]) ?t {}"
    using informer_run_snoc [OF informer_run_nil, of ?s0 EvInternal ?t Inr] by simp
  have len: "length (si_listeners ?t) = 1" by (simp add: si_AddEventHandler_def started_parts Let_def)
  then have "hd (si_listeners ?t) \<in> set (si_listeners ?t)" by (cases "si_listeners ?t") auto
  from informer_notifications [OF run this] run len show ?thesis
    by (intro exI [of _ ?t]) (simp add: started_parts)
qed

text \<open>
  The dedicated informers do what the shared one does: the processing function of
  \<^verbatim>\<open>NewInformer\<close> and \<^verbatim>\<open>NewIndexerInformer\<close> returns the same error, leaves the same store and
  makes the same calls in the same order as \<^verbatim>\<open>HandleDeltas\<close> sends to its only listener.
\<close>

theorem dedicated_equals_shared:
  assumes "si_listeners s = [newProcessListener]"
    and "HandleDeltas rs ds s = (err, s')" and "informer_Process rs ds (si_indexer s, []) = (err', c, calls)"
  shows "err' = err \<and> c = si_indexer s' \<and> si_listeners s' = [newProcessListener\<lparr>pendingNotifications := calls\<rparr>]"
  using HandleDeltas_Process [OF assms(1), of "[]" rs ds] assms(2,3)
  by (auto simp: agree_def newProcessListener_def)

theorem dedicated_equals_shared_witness:
  "\<exists>rs. snd (snd (informer_Process rs [Delta Added (Obj ''a'')] (NewIndexer (object_key Inr) Map.empty, [])))
     = [addNotification (Obj ''a'')]"
proof -
  let ?rs = "\<lambda>_. \<lparr>ro_delete = [], ro_update = [], ro_index = (\<lambda>_. []), ro_keys = []\<rparr>"
  let ?s = "started Inr Map.empty 1 :: string sharedIndexInformer" and ?ds = "[Delta Added (Obj ''a'')]"
  have one: "si_listeners ?s = [newProcessListener]" by (simp add: started_parts)
  obtain err s' where h: "HandleDeltas ?rs ?ds ?s = (err, s')" by fastforce
  obtain err' c calls where p: "informer_Process ?rs ?ds (si_indexer ?s, []) = (err', c, calls)" by (metis prod_cases3)
  have idx: "si_indexer ?s = NewIndexer (object_key Inr) Map.empty"
    by (simp add: started_def si_AddEventHandler_def si_started_def si_Run_def NewSharedIndexInformer_def)
  have "deltas_keyed Inr ''a'' ?ds" by (simp add: deltas_keyed_def)
  from HandleDeltas_effect [OF started_parts(4) [of Inr Map.empty 1] this, of ?rs] h one
  have "si_listeners s' = [newProcessListener\<lparr>pendingNotifications := [addNotification (Obj ''a'')]\<rparr>]"
    by (auto simp: started_parts notify_all_def newProcessListener_def)
  with dedicated_equals_shared [OF one h p] have "calls = [addNotification (Obj ''a'')]"
    by (simp add: newProcessListener_def)
  then have "snd (snd (informer_Process ?rs ?ds (NewIndexer (object_key Inr) Map.empty, [])))
    = [addNotification (Obj ''a'')]"
    unfolding idx [symmetric] p snd_conv .
  then show ?thesis by (rule exI [of _ ?rs])
qed

text \<open>
  The watch loop loses no event: however the watch ends (a stop request, a failed resync, an
  error event, a closed channel), the queue has stored exactly the events received before, in
  order, except those of another type or with unreadable metadata; the resource version a restarted
  watch continues from is that of the last event stored; and a watch that ends within a second
  without a stored event is reported as an error.
\<close>

theorem watch_stores_accepted:
  "watchHandler expected rvOf short is 0 (rv, f) =
     (watch_outcome short (length (accepted expected rvOf is)) (dropWhile (\<lambda>i. \<not> ends_watch i) (map snd is)),
      last (rv # map (snd \<circ> snd) (accepted expected rvOf is)),
      foldl (\<lambda>f (known, ev, rv). store_event known ev f) f (accepted expected rvOf is))"
  by (simp add: watchHandler_accepted)

end
