(* ===== verification/Validation.thy ===== *)
theory Validation
  imports Go_Prelude
begin

section \<open>Validation of names and values (\<^verbatim>\<open>pkg/util/validation/validation.go\<close>)\<close>

text \<open>
  The formats of names, labels, ports and identifiers that the API accepts. The source gives them as
  regular expressions matched against the whole value; here a regular expression is a term, its
  language is defined as usual, and the functions use an executable matcher that is proved to decide
  the language. An error message is a constructor with the data of the message.
\<close>

subsection \<open>Regular expressions\<close>

datatype rexp = Never | Empty | Chars "char \<Rightarrow> bool" | Alt rexp rexp | Cat rexp rexp | Rep rexp

definition Opt :: "rexp \<Rightarrow> rexp" where
  "Opt r = Alt Empty r"

definition Rep1 :: "rexp \<Rightarrow> rexp" where
  "Rep1 r = Cat r (Rep r)"

inductive matches :: "rexp \<Rightarrow> string \<Rightarrow> bool" where
  match_empty: "matches Empty []"
| match_chars: "P c \<Longrightarrow> matches (Chars P) [c]"
| match_left: "matches r s \<Longrightarrow> matches (Alt r r') s"
| match_right: "matches r' s \<Longrightarrow> matches (Alt r r') s"
| match_cat: "matches r s \<Longrightarrow> matches r' s' \<Longrightarrow> matches (Cat r r') (s @ s')"
| match_rep0: "matches (Rep r) []"
| match_rep: "matches r s \<Longrightarrow> matches (Rep r) s' \<Longrightarrow> matches (Rep r) (s @ s')"

inductive_simps matches_Never [simp]: "matches Never s"
inductive_simps matches_Empty [simp]: "matches Empty s"
inductive_simps matches_Chars [simp]: "matches (Chars P) s"
inductive_simps matches_Alt [simp]: "matches (Alt r r') s"
inductive_simps matches_Cat: "matches (Cat r r') s"
inductive_cases matches_RepE: "matches (Rep r) s"

text \<open>The executable matcher: whether a term accepts the empty string, and its derivative by a character.\<close>

fun nullable :: "rexp \<Rightarrow> bool" where
  "nullable Never = False"
| "nullable Empty = True"
| "nullable (Chars P) = False"
| "nullable (Alt r r') = (nullable r \<or> nullable r')"
| "nullable (Cat r r') = (nullable r \<and> nullable r')"
| "nullable (Rep r) = True"

fun deriv :: "char \<Rightarrow> rexp \<Rightarrow> rexp" where
  "deriv c Never = Never"
| "deriv c Empty = Never"
| "deriv c (Chars P) = (if P c then Empty else Never)"
| "deriv c (Alt r r') = Alt (deriv c r) (deriv c r')"
| "deriv c (Cat r r') = (if nullable r then Alt (Cat (deriv c r) r') (deriv c r') else Cat (deriv c r) r')"
| "deriv c (Rep r) = Cat (deriv c r) (Rep r)"

fun MatchString :: "rexp \<Rightarrow> string \<Rightarrow> bool" where
  "MatchString r [] = nullable r"
| "MatchString r (c # s) = MatchString (deriv c r) s"

lemma nullable_matches: "nullable r \<longleftrightarrow> matches r []"
  by (induction r) (auto simp: matches_Cat intro: match_rep0)

lemma matches_Rep_Cons: "matches (Rep r) (c # s) \<longleftrightarrow> (\<exists>s1 s2. s = s1 @ s2 \<and> matches r (c # s1) \<and> matches (Rep r) s2)"
proof
  have "matches q t \<Longrightarrow> q = Rep r \<Longrightarrow> t = c # s \<Longrightarrow> \<exists>s1 s2. s = s1 @ s2 \<and> matches r (c # s1) \<and> matches (Rep r) s2" for q t
  proof (induction arbitrary: s rule: matches.induct)
    case (match_rep r' u u')
    then show ?case by (cases u) auto
  qed simp_all
  then show "matches (Rep r) (c # s) \<Longrightarrow> \<exists>s1 s2. s = s1 @ s2 \<and> matches r (c # s1) \<and> matches (Rep r) s2" by blast
qed (auto intro: match_rep [of r "c # _", simplified])

lemma matches_Cat_Cons:
  "matches (Cat r r') (c # s) \<longleftrightarrow>
     (\<exists>s1 s2. s = s1 @ s2 \<and> matches r (c # s1) \<and> matches r' s2) \<or> matches r [] \<and> matches r' (c # s)"
  unfolding matches_Cat by (auto simp: Cons_eq_append_conv)

lemma deriv_matches: "matches (deriv c r) s \<longleftrightarrow> matches r (c # s)"
proof (induction r arbitrary: s)
  case (Cat r r')
  then show ?case unfolding matches_Cat_Cons by (auto simp: matches_Cat [of "deriv c r"] nullable_matches)
next
  case (Rep r)
  then show ?case unfolding matches_Rep_Cons by (auto simp: matches_Cat [of "deriv c r"])
qed auto

lemma MatchString_matches: "MatchString r s \<longleftrightarrow> matches r s"
  by (induction r s rule: MatchString.induct) (simp_all add: nullable_matches deriv_matches)

subsection \<open>Character classes\<close>

definition between :: "char \<Rightarrow> char \<Rightarrow> char \<Rightarrow> bool" where
  "between a b c \<longleftrightarrow> of_char a \<le> (of_char c :: nat) \<and> of_char c \<le> (of_char b :: nat)"

definition is_upper :: "char \<Rightarrow> bool" where "is_upper = between (CHR ''A'') (CHR ''Z'')"
definition is_lower :: "char \<Rightarrow> bool" where "is_lower = between (CHR ''a'') (CHR ''z'')"
definition is_digit :: "char \<Rightarrow> bool" where "is_digit = between (CHR ''0'') (CHR ''9'')"

definition qnameChar :: "char \<Rightarrow> bool" where
  "qnameChar c \<longleftrightarrow> is_upper c \<or> is_lower c \<or> is_digit c"

definition qnameExtChar :: "char \<Rightarrow> bool" where
  "qnameExtChar c \<longleftrightarrow> qnameChar c \<or> c = CHR ''-'' \<or> c = CHR ''_'' \<or> c = CHR ''.''"

definition dnsChar :: "char \<Rightarrow> bool" where
  "dnsChar c \<longleftrightarrow> is_lower c \<or> is_digit c"

definition dnsExtChar :: "char \<Rightarrow> bool" where
  "dnsExtChar c \<longleftrightarrow> dnsChar c \<or> c = CHR ''-''"

subsection \<open>The formats\<close>

definition qualifiedNameFmt :: rexp where
  "qualifiedNameFmt = Cat (Opt (Cat (Chars qnameChar) (Rep (Chars qnameExtChar)))) (Chars qnameChar)"

definition labelValueFmt :: rexp where
  "labelValueFmt = Opt qualifiedNameFmt"

definition dns1123LabelFmt :: rexp where
  "dns1123LabelFmt = Cat (Chars dnsChar) (Opt (Cat (Rep (Chars dnsExtChar)) (Chars dnsChar)))"

definition dns1123SubdomainFmt :: rexp where
  "dns1123SubdomainFmt = Cat dns1123LabelFmt (Rep (Cat (Chars (\<lambda>c. c = CHR ''.'')) dns1123LabelFmt))"

definition dns1035LabelFmt :: rexp where
  "dns1035LabelFmt = Cat (Chars is_lower) (Opt (Cat (Rep (Chars dnsExtChar)) (Chars dnsChar)))"

definition wildcardDNS1123SubdomainFmt :: rexp where
  "wildcardDNS1123SubdomainFmt =
     Cat (Chars (\<lambda>c. c = CHR ''*'')) (Cat (Chars (\<lambda>c. c = CHR ''.'')) dns1123SubdomainFmt)"

definition cIdentifierFmt :: rexp where
  "cIdentifierFmt = Cat (Chars (\<lambda>c. is_upper c \<or> is_lower c \<or> c = CHR ''_''))
     (Rep (Chars (\<lambda>c. qnameChar c \<or> c = CHR ''_'')))"

definition portNameCharset :: rexp where
  "portNameCharset = Rep1 (Chars dnsExtChar)"

definition percentFmt :: rexp where
  "percentFmt = Cat (Rep1 (Chars is_digit)) (Chars (\<lambda>c. c = CHR ''%''))"

definition httpHeaderNameFmt :: rexp where
  "httpHeaderNameFmt = Rep1 (Chars (\<lambda>c. qnameChar c \<or> c = CHR ''-''))"

definition configMapKeyFmt :: rexp where
  "configMapKeyFmt = Rep1 (Chars qnameExtChar)"

subsection \<open>The functions\<close>

datatype verror =
    MaxLenError nat | RegexError rexp | EmptyError | InclusiveRangeError int int
  | PrefixPart verror | NamePart verror | BadQualifiedName | MustNotBe string | MustNotStartWith string | VMsg string

definition check_regex :: "rexp \<Rightarrow> string \<Rightarrow> verror list" where
  "check_regex r value = (if MatchString r value then [] else [RegexError r])"

definition check_length :: "nat \<Rightarrow> string \<Rightarrow> verror list" where
  "check_length n value = (if length value > n then [MaxLenError n] else [])"

definition IsDNS1123Subdomain :: "string \<Rightarrow> verror list" where
  "IsDNS1123Subdomain value = check_length 253 value @ check_regex dns1123SubdomainFmt value"

definition check_prefix_part :: "string \<Rightarrow> verror list" where
  "check_prefix_part prefix =
     (if length prefix = 0 then [PrefixPart EmptyError] else map PrefixPart (IsDNS1123Subdomain prefix))"

definition check_name_part :: "string \<Rightarrow> verror list" where
  "check_name_part name =
     (if length name = 0 then [NamePart EmptyError]
      else if length name > 63 then [NamePart (MaxLenError 63)] else [])
     @ (if MatchString qualifiedNameFmt name then [] else [NamePart (RegexError qualifiedNameFmt)])"

definition IsQualifiedName :: "string \<Rightarrow> verror list" where
  "IsQualifiedName value =
     (case strings_Split (CHR ''/'') value of
        [name] \<Rightarrow> check_name_part name
      | [prefix, name] \<Rightarrow> check_prefix_part prefix @ check_name_part name
      | _ \<Rightarrow> [BadQualifiedName])"

definition IsValidLabelValue :: "string \<Rightarrow> verror list" where
  "IsValidLabelValue value = check_length 63 value @ check_regex labelValueFmt value"

definition IsDNS1123Label :: "string \<Rightarrow> verror list" where
  "IsDNS1123Label value = check_length 63 value @ check_regex dns1123LabelFmt value"

definition IsDNS1035Label :: "string \<Rightarrow> verror list" where
  "IsDNS1035Label value = check_length 63 value @ check_regex dns1035LabelFmt value"

definition IsWildcardDNS1123Subdomain :: "string \<Rightarrow> verror list" where
  "IsWildcardDNS1123Subdomain value = check_length 253 value @ check_regex wildcardDNS1123SubdomainFmt value"

definition IsCIdentifier :: "string \<Rightarrow> verror list" where
  "IsCIdentifier value = check_regex cIdentifierFmt value"

definition IsValidPortNum :: "int \<Rightarrow> verror list" where
  "IsValidPortNum port = (if 1 \<le> port \<and> port \<le> 65535 then [] else [InclusiveRangeError 1 65535])"

definition IsValidGroupId :: "int \<Rightarrow> verror list" where
  "IsValidGroupId gid = (if 0 \<le> gid \<and> gid \<le> MaxInt32 then [] else [InclusiveRangeError 0 MaxInt32])"

definition IsValidUserId :: "int \<Rightarrow> verror list" where
  "IsValidUserId uid = (if 0 \<le> uid \<and> uid \<le> MaxInt32 then [] else [InclusiveRangeError 0 MaxInt32])"

text \<open>\<^verbatim>\<open>strings.Contains\<close> of two adjacent hyphens.\<close>

fun double_hyphen :: "string \<Rightarrow> bool" where
  "double_hyphen (a # b # s) = (a = CHR ''-'' \<and> b = CHR ''-'' \<or> double_hyphen (b # s))"
| "double_hyphen _ = False"

definition IsValidPortName :: "string \<Rightarrow> verror list" where
  "IsValidPortName port =
     check_length 15 port
     @ (if MatchString portNameCharset port then []
        else [VMsg ''must contain only alpha-numeric characters (a-z, 0-9), and hyphens (-)''])
     @ (if list_ex is_lower port then []
        else [VMsg ''must contain at least one letter or number (a-z, 0-9)''])
     @ (if double_hyphen port then [VMsg ''must not contain consecutive hyphens''] else [])
     @ (if length port > 0 \<and> (hd port = CHR ''-'' \<or> last port = CHR ''-'')
        then [VMsg ''must not begin or end with a hyphen''] else [])"

definition IsValidPercent :: "string \<Rightarrow> verror list" where
  "IsValidPercent percent = check_regex percentFmt percent"

definition IsHTTPHeaderName :: "string \<Rightarrow> verror list" where
  "IsHTTPHeaderName value = check_regex httpHeaderNameFmt value"

definition IsConfigMapKey :: "string \<Rightarrow> verror list" where
  "IsConfigMapKey value =
     check_length 253 value @ check_regex configMapKeyFmt value
     @ (if value = ''.'' then [MustNotBe ''.'']
        else if value = ''..'' then [MustNotBe ''..'']
        else if take 2 value = ''..'' then [MustNotStartWith ''..''] else [])"

subsection \<open>What the formats accept\<close>

lemma matches_Rep_Chars: "matches (Rep (Chars P)) s \<longleftrightarrow> (\<forall>c \<in> set s. P c)"
proof (induction s)
  case Nil
  then show ?case by (simp add: match_rep0)
next
  case (Cons c s)
  then show ?case by (auto simp: matches_Rep_Cons)
qed

lemma matches_Cat_Chars: "matches (Cat (Chars P) r) s \<longleftrightarrow> (\<exists>c t. s = c # t \<and> P c \<and> matches r t)"
  by (cases s) (auto simp: matches_Cat_Cons matches_Cat [of _ _ "[]"])

lemma matches_Opt [simp]: "matches (Opt r) s \<longleftrightarrow> s = [] \<or> matches r s"
  by (auto simp: Opt_def)

lemma matches_Rep1_Chars: "matches (Rep1 (Chars P)) s \<longleftrightarrow> s \<noteq> [] \<and> (\<forall>c \<in> set s. P c)"
  by (cases s) (auto simp: Rep1_def matches_Cat_Chars matches_Rep_Chars)

text \<open>First and last character of one class, the others of a larger one.\<close>

definition framed :: "(char \<Rightarrow> bool) \<Rightarrow> (char \<Rightarrow> bool) \<Rightarrow> string \<Rightarrow> bool" where
  "framed P Q s \<longleftrightarrow> s \<noteq> [] \<and> P (hd s) \<and> P (last s) \<and> (\<forall>c \<in> set s. Q c)"

lemma framed_split:
  assumes "\<And>c. P c \<Longrightarrow> Q c"
  shows "framed P Q s \<longleftrightarrow> (\<exists>c. s = [c] \<and> P c) \<or> (\<exists>a m z. s = a # m @ [z] \<and> P a \<and> P z \<and> (\<forall>c \<in> set m. Q c))"
proof (cases s)
  case (Cons a t)
  then show ?thesis using assms by (cases t rule: rev_cases) (auto simp: framed_def)
qed (simp add: framed_def)

lemma qualifiedNameFmt_matches: "matches qualifiedNameFmt s \<longleftrightarrow> framed qnameChar qnameExtChar s"
proof -
  have "matches qualifiedNameFmt s \<longleftrightarrow> (\<exists>u z. s = u @ [z] \<and> qnameChar z
      \<and> (u = [] \<or> (\<exists>a m. u = a # m \<and> qnameChar a \<and> (\<forall>c \<in> set m. qnameExtChar c))))"
    unfolding qualifiedNameFmt_def matches_Cat [of "Opt _"] matches_Opt matches_Cat_Chars matches_Rep_Chars
      matches_Chars by blast
  also have "\<dots> \<longleftrightarrow> (\<exists>c. s = [c] \<and> qnameChar c)
      \<or> (\<exists>a m z. s = a # m @ [z] \<and> qnameChar a \<and> qnameChar z \<and> (\<forall>c \<in> set m. qnameExtChar c))"
    by (metis append_Cons append_Nil)
  finally show ?thesis by (simp add: framed_split [of qnameChar qnameExtChar] qnameExtChar_def)
qed

lemma dns1123LabelFmt_matches: "matches dns1123LabelFmt s \<longleftrightarrow> framed dnsChar dnsExtChar s"
proof -
  have "matches dns1123LabelFmt s \<longleftrightarrow> (\<exists>a t. s = a # t \<and> dnsChar a
      \<and> (t = [] \<or> (\<exists>m u. t = m @ u \<and> (\<forall>c \<in> set m. dnsExtChar c) \<and> (\<exists>z. u = [z] \<and> dnsChar z))))"
    unfolding dns1123LabelFmt_def matches_Cat_Chars matches_Opt matches_Cat [of "Rep _"] matches_Rep_Chars
      matches_Chars by blast
  also have "\<dots> \<longleftrightarrow> (\<exists>c. s = [c] \<and> dnsChar c)
      \<or> (\<exists>a m z. s = a # m @ [z] \<and> dnsChar a \<and> dnsChar z \<and> (\<forall>c \<in> set m. dnsExtChar c))"
    by blast
  finally show ?thesis by (simp add: framed_split [of dnsChar dnsExtChar] dnsExtChar_def)
qed

lemma not_dot: "dnsExtChar c \<Longrightarrow> c \<noteq> CHR ''.''"
  by (auto simp: dnsExtChar_def dnsChar_def is_lower_def is_digit_def between_def)

lemma not_slash: "qnameExtChar c \<Longrightarrow> c \<noteq> CHR ''/''"
  by (auto simp: qnameExtChar_def qnameChar_def is_upper_def is_lower_def is_digit_def between_def)

lemma strings_Split_nonempty [simp]: "strings_Split c s \<noteq> []"
  by (induction s) (auto split: list.splits)

lemma strings_Split_cases:
  "c \<notin> set s \<and> strings_Split c s = [s] \<or> (\<exists>u t. s = u @ c # t \<and> c \<notin> set u \<and> strings_Split c s = u # strings_Split c t)"
proof (cases "c \<in> set s")
  case True
  then obtain u t where "s = u @ c # t" "c \<notin> set u" using split_list_first by fast
  then show ?thesis using strings_Split_once by blast
qed (simp add: strings_Split_plain)

lemma split_first_unique: "u @ c # t = u' @ c # t' \<Longrightarrow> c \<notin> set u \<Longrightarrow> c \<notin> set u' \<Longrightarrow> u = u' \<and> t = t'"
proof (induction u arbitrary: u')
  case Nil
  then show ?case by (cases u') auto
next
  case (Cons x u)
  then show ?case by (cases u') auto
qed

lemma dns1123SubdomainFmt_matches:
  "matches dns1123SubdomainFmt s \<longleftrightarrow> list_all (framed dnsChar dnsExtChar) (strings_Split (CHR ''.'') s)"
proof (induction "length s" arbitrary: s rule: less_induct)
  case less
  let ?dot = "CHR ''.''" and ?label = "framed dnsChar dnsExtChar"
  let ?more = "Rep (Cat (Chars (\<lambda>c. c = CHR ''.'')) dns1123LabelFmt)"
  have more: "matches ?more v \<longleftrightarrow> v = [] \<or> (\<exists>t. v = ?dot # t \<and> matches dns1123SubdomainFmt t)" for v
  proof (cases v)
    case (Cons c t)
    then show ?thesis
      by (auto simp: matches_Rep_Cons dns1123SubdomainFmt_def matches_Cat Cons_eq_append_conv)
  qed (simp add: match_rep0)
  have label: "?dot \<notin> set u" if "?label u" for u using that not_dot by (auto simp: framed_def)
  have unfold: "matches dns1123SubdomainFmt s \<longleftrightarrow>
    ?label s \<or> (\<exists>u t. s = u @ ?dot # t \<and> ?label u \<and> matches dns1123SubdomainFmt t)"
  proof -
    have "matches dns1123SubdomainFmt s \<longleftrightarrow> (\<exists>u v. s = u @ v \<and> ?label u \<and> matches ?more v)"
      unfolding dns1123SubdomainFmt_def matches_Cat [of dns1123LabelFmt _ s] dns1123LabelFmt_matches ..
    then show ?thesis unfolding more by (metis append.right_neutral)
  qed
  from strings_Split_cases [of ?dot s] show ?case
  proof (elim disjE conjE exE)
    assume "?dot \<notin> set s" "strings_Split ?dot s = [s]"
    then show ?thesis using unfold by auto
  next
    fix u t
    assume s: "s = u @ ?dot # t" "?dot \<notin> set u" "strings_Split ?dot s = u # strings_Split ?dot t"
    have "u' = u \<and> t' = t" if "s = u' @ ?dot # t'" "?label u'" for u' t'
      using split_first_unique [of u' ?dot t' u t] that s(1,2) label [OF that(2)] by simp
    then have "matches dns1123SubdomainFmt s \<longleftrightarrow> ?label u \<and> matches dns1123SubdomainFmt t"
      using unfold s(1) label [of s] by auto
    then show ?thesis using less [of t] s by simp
  qed
qed

definition valid_name :: "string \<Rightarrow> bool" where
  "valid_name n \<longleftrightarrow> length n \<le> 63 \<and> framed qnameChar qnameExtChar n"

lemma IsQualifiedName_accepts:
  "IsQualifiedName value = [] \<longleftrightarrow>
     (case strings_Split (CHR ''/'') value of
        [name] \<Rightarrow> valid_name name
      | [prefix, name] \<Rightarrow> valid_name name \<and> length prefix \<le> 253
          \<and> list_all (framed dnsChar dnsExtChar) (strings_Split (CHR ''.'') prefix)
      | _ \<Rightarrow> False)"
proof -
  have name: "check_name_part n = [] \<longleftrightarrow> valid_name n" for n
    by (auto simp: check_name_part_def MatchString_matches qualifiedNameFmt_matches valid_name_def framed_def)
  have prefix: "check_prefix_part p = [] \<longleftrightarrow>
      length p \<le> 253 \<and> list_all (framed dnsChar dnsExtChar) (strings_Split (CHR ''.'') p)" for p
    by (cases p) (auto simp: check_prefix_part_def IsDNS1123Subdomain_def check_length_def check_regex_def
        MatchString_matches dns1123SubdomainFmt_matches framed_def)
  show ?thesis unfolding IsQualifiedName_def by (auto simp: name prefix split: list.splits)
qed

lemma IsValidLabelValue_accepts:
  "IsValidLabelValue value = [] \<longleftrightarrow> length value \<le> 63 \<and> (value = [] \<or> framed qnameChar qnameExtChar value)"
  by (simp add: IsValidLabelValue_def check_length_def check_regex_def MatchString_matches labelValueFmt_def
      qualifiedNameFmt_matches)

subsection \<open>Properties\<close>


end
