(* ===== verification/Labels.thy ===== *)
theory Labels
  imports Validation "HOL-Library.Char_ord" "HOL-Library.List_Lexorder" "HOL-Library.Multiset"
begin

section \<open>Label selectors (\<^verbatim>\<open>pkg/labels/selector.go\<close>, \<^verbatim>\<open>pkg/labels/labels.go\<close>)\<close>

text \<open>
  Sets of labels, requirements on them, and the language in which they are written. The lexer works on
  the rest of the input, the parser on the rest of the scanned items. Reading an item that is not
  there is a panic of the Go code (\<open>Panic\<close>). The sorting of the requirements by key, which
  \<^verbatim>\<open>sort.Sort\<close> leaves open for equal keys, is a parameter \<open>srt\<close>.
\<close>

subsection \<open>Sets of labels\<close>

type_synonym labels = "string \<rightharpoonup> string"

definition labels_Has :: "labels \<Rightarrow> string \<Rightarrow> bool" where
  "labels_Has ls label = (ls label \<noteq> None)"

definition labels_Get :: "labels \<Rightarrow> string \<Rightarrow> string" where
  "labels_Get ls label = (case ls label of None \<Rightarrow> '''' | Some v \<Rightarrow> v)"

fun strings_Join :: "string \<Rightarrow> string list \<Rightarrow> string" where
  "strings_Join sep [] = ''''"
| "strings_Join sep [x] = x"
| "strings_Join sep (x # y # ys) = x @ sep @ strings_Join sep (y # ys)"

definition Set_String :: "string list \<Rightarrow> labels \<Rightarrow> string" where
  "Set_String ks ls = strings_Join '','' (sort (map (\<lambda>k. k @ ''='' @ labels_Get ls k) ks))"

definition FormatLabels :: "string list \<Rightarrow> labels \<Rightarrow> string" where
  "FormatLabels ks ls = (let l = Set_String ks ls in if l = '''' then ''<none>'' else l)"

text \<open>The loop over the smaller map, in the order \<open>ks\<close>.\<close>

fun conflict_loop :: "string list \<Rightarrow> labels \<Rightarrow> labels \<Rightarrow> bool" where
  "conflict_loop [] small big = False"
| "conflict_loop (k # ks) small big =
     (case big k of
        Some val \<Rightarrow> if Some val \<noteq> small k then True else conflict_loop ks small big
      | None \<Rightarrow> conflict_loop ks small big)"

definition Conflicts :: "string list \<Rightarrow> string list \<Rightarrow> labels \<Rightarrow> labels \<Rightarrow> bool" where
  "Conflicts ks1 ks2 labels1 labels2 =
     (if card (dom labels2) < card (dom labels1) then conflict_loop ks2 labels2 labels1
      else conflict_loop ks1 labels1 labels2)"

definition put_all :: "string list \<Rightarrow> labels \<Rightarrow> labels \<Rightarrow> labels" where
  "put_all ks ls m = foldl (\<lambda>m k. m(k := ls k)) m ks"

definition Merge :: "string list \<Rightarrow> string list \<Rightarrow> labels \<Rightarrow> labels \<Rightarrow> labels" where
  "Merge ks1 ks2 labels1 labels2 = put_all ks2 labels2 (put_all ks1 labels1 Map.empty)"

definition all_in :: "string list \<Rightarrow> labels \<Rightarrow> labels \<Rightarrow> bool" where
  "all_in ks ls ls' = list_all (\<lambda>k. ls' k \<noteq> None \<and> ls' k = ls k) ks"

definition labels_Equals :: "string list \<Rightarrow> labels \<Rightarrow> labels \<Rightarrow> bool" where
  "labels_Equals ks labels1 labels2 =
     (if card (dom labels1) \<noteq> card (dom labels2) then False else all_in ks labels1 labels2)"

definition AreLabelsInWhiteList :: "string list \<Rightarrow> labels \<Rightarrow> labels \<Rightarrow> bool" where
  "AreLabelsInWhiteList ks ls whitelist =
     (if card (dom whitelist) = 0 then True else all_in ks ls whitelist)"

subsection \<open>Requirements\<close>

datatype Operator =
    DoesNotExist | Equals | DoubleEquals | In | NotEquals | NotIn | Exists | GreaterThan | LessThan
  | OtherOperator string

datatype label_error =
    InvalidLabelKey string "verror list" | InvalidLabelValue string "verror list"
  | SetNeedsValues | ExactNeedsOneValue | ExistsTakesNoValue | CompareNeedsOneValue | CompareNeedsInteger
  | OperatorNotRecognized Operator | UnableToParse label_error | Found string string | InvalidSelector "string list"

record requirement =
  r_key :: string
  r_operator :: Operator
  r_strValues :: "string list"

definition validateLabelKey :: "string \<Rightarrow> label_error option" where
  "validateLabelKey k = (let errs = IsQualifiedName k in if errs \<noteq> [] then Some (InvalidLabelKey k errs) else None)"

definition validateLabelValue :: "string \<Rightarrow> label_error option" where
  "validateLabelValue v =
     (let errs = IsValidLabelValue v in if errs \<noteq> [] then Some (InvalidLabelValue v errs) else None)"

text \<open>\<^verbatim>\<open>strconv.ParseInt(s, 10, 64)\<close>.\<close>

definition digit_value :: "char \<Rightarrow> int" where
  "digit_value c = of_char c - of_char (CHR ''0'')"

definition decimal :: "string \<Rightarrow> int" where
  "decimal ds = foldl (\<lambda>n c. 10 * n + digit_value c) 0 ds"

definition ParseInt64 :: "string \<Rightarrow> int option" where
  "ParseInt64 s =
     (let (neg, ds) = (case s of
            c # t \<Rightarrow> if c = CHR ''-'' then (True, t) else if c = CHR ''+'' then (False, t) else (False, s)
          | [] \<Rightarrow> (False, s));
          n = (if neg then - decimal ds else decimal ds)
      in if ds = [] \<or> \<not> list_all is_digit ds \<or> \<not> is_int64 n then None else Some n)"

fun first_error :: "('a \<Rightarrow> 'e option) \<Rightarrow> 'a list \<Rightarrow> 'e option" where
  "first_error f [] = None"
| "first_error f (x # xs) = (case f x of Some e \<Rightarrow> Some e | None \<Rightarrow> first_error f xs)"

definition check_values :: "Operator \<Rightarrow> string list \<Rightarrow> label_error option" where
  "check_values op vals =
     (case op of
        In \<Rightarrow> if length vals = 0 then Some SetNeedsValues else None
      | NotIn \<Rightarrow> if length vals = 0 then Some SetNeedsValues else None
      | Equals \<Rightarrow> if length vals \<noteq> 1 then Some ExactNeedsOneValue else None
      | DoubleEquals \<Rightarrow> if length vals \<noteq> 1 then Some ExactNeedsOneValue else None
      | NotEquals \<Rightarrow> if length vals \<noteq> 1 then Some ExactNeedsOneValue else None
      | Exists \<Rightarrow> if length vals \<noteq> 0 then Some ExistsTakesNoValue else None
      | DoesNotExist \<Rightarrow> if length vals \<noteq> 0 then Some ExistsTakesNoValue else None
      | OtherOperator _ \<Rightarrow> Some (OperatorNotRecognized op)
      | _ \<Rightarrow> if length vals \<noteq> 1 then Some CompareNeedsOneValue
             else first_error (\<lambda>v. if ParseInt64 v = None then Some CompareNeedsInteger else None) vals)"

definition NewRequirement :: "string \<Rightarrow> Operator \<Rightarrow> string list \<Rightarrow> label_error + requirement" where
  "NewRequirement key op vals =
     (case validateLabelKey key of
        Some err \<Rightarrow> Inl err
      | None \<Rightarrow>
          (case check_values op vals of
             Some err \<Rightarrow> Inl err
           | None \<Rightarrow>
               (case first_error validateLabelValue vals of
                  Some err \<Rightarrow> Inl err
                | None \<Rightarrow> Inr \<lparr>r_key = key, r_operator = op, r_strValues = sort vals\<rparr>)))"

definition hasValue :: "requirement \<Rightarrow> string \<Rightarrow> bool" where
  "hasValue r value = list_ex (\<lambda>v. v = value) (r_strValues r)"

definition requirement_Values :: "requirement \<Rightarrow> string set" where
  "requirement_Values r = foldl (\<lambda>ret v. insert v ret) {} (r_strValues r)"

definition requirement_Matches :: "requirement \<Rightarrow> labels \<Rightarrow> bool" where
  "requirement_Matches r ls =
     (let has = labels_Has ls (r_key r); val = labels_Get ls (r_key r)
      in case r_operator r of
           In \<Rightarrow> if \<not> has then False else hasValue r val
         | Equals \<Rightarrow> if \<not> has then False else hasValue r val
         | DoubleEquals \<Rightarrow> if \<not> has then False else hasValue r val
         | NotIn \<Rightarrow> if \<not> has then True else \<not> hasValue r val
         | NotEquals \<Rightarrow> if \<not> has then True else \<not> hasValue r val
         | Exists \<Rightarrow> has
         | DoesNotExist \<Rightarrow> \<not> has
         | OtherOperator _ \<Rightarrow> False
         | op \<Rightarrow>
             if \<not> has then False
             else case ParseInt64 val of
                    None \<Rightarrow> False
                  | Some lsValue \<Rightarrow>
                      (case r_strValues r of
                         [v] \<Rightarrow>
                           (case ParseInt64 v of
                              None \<Rightarrow> False
                            | Some rValue \<Rightarrow> op = GreaterThan \<and> lsValue > rValue \<or> op = LessThan \<and> lsValue < rValue)
                       | _ \<Rightarrow> False))"

definition operator_text :: "Operator \<Rightarrow> string" where
  "operator_text op =
     (case op of Equals \<Rightarrow> ''='' | DoubleEquals \<Rightarrow> ''=='' | NotEquals \<Rightarrow> ''!='' | In \<Rightarrow> '' in ''
      | NotIn \<Rightarrow> '' notin '' | GreaterThan \<Rightarrow> ''>'' | LessThan \<Rightarrow> ''<'' | _ \<Rightarrow> '''')"

definition requirement_String :: "requirement \<Rightarrow> string" where
  "requirement_String r =
     (let op = r_operator r;
          buffer = (if op = DoesNotExist then ''!'' else '''') @ r_key r;
          values = (if length (r_strValues r) = 1 then hd (r_strValues r) else strings_Join '','' (r_strValues r))
      in if op = Exists \<or> op = DoesNotExist then buffer
         else buffer @ operator_text op
              @ (if op = In \<or> op = NotIn then ''('' @ values @ '')'' else values))"

subsection \<open>Selectors\<close>

datatype selector = NothingSelector | InternalSelector "requirement list"

definition by_key_sorter :: "(requirement list \<Rightarrow> requirement list) \<Rightarrow> bool" where
  "by_key_sorter srt \<longleftrightarrow> (\<forall>rs. mset (srt rs) = mset rs \<and> sorted (map r_key (srt rs)))"

fun selector_Matches :: "selector \<Rightarrow> labels \<Rightarrow> bool" where
  "selector_Matches NothingSelector l = False"
| "selector_Matches (InternalSelector lsel) l = list_all (\<lambda>r. requirement_Matches r l) lsel"

fun selector_Empty :: "selector \<Rightarrow> bool" where
  "selector_Empty NothingSelector = False"
| "selector_Empty (InternalSelector lsel) = (length lsel = 0)"

fun selector_Add :: "(requirement list \<Rightarrow> requirement list) \<Rightarrow> requirement list \<Rightarrow> selector \<Rightarrow> selector" where
  "selector_Add srt reqs NothingSelector = NothingSelector"
| "selector_Add srt reqs (InternalSelector lsel) = InternalSelector (srt (lsel @ reqs))"

fun selector_String :: "selector \<Rightarrow> string" where
  "selector_String NothingSelector = ''<null>''"
| "selector_String (InternalSelector lsel) = strings_Join '','' (map requirement_String lsel)"

definition Everything :: selector where
  "Everything = InternalSelector []"

definition Nothing :: selector where
  "Nothing = NothingSelector"

fun selector_Requirements :: "selector \<Rightarrow> requirement list \<times> bool" where
  "selector_Requirements NothingSelector = ([], False)"
| "selector_Requirements (InternalSelector lsel) = (lsel, True)"

text \<open>The labels in the order \<open>ks\<close> of the range; the first invalid one ends the loop.\<close>

fun set_requirements :: "string list \<Rightarrow> labels \<Rightarrow> requirement list \<Rightarrow> requirement list option" where
  "set_requirements [] ls reqs = Some reqs"
| "set_requirements (label # ks) ls reqs =
     (case NewRequirement label Equals [labels_Get ls label] of
        Inl err \<Rightarrow> None
      | Inr r \<Rightarrow> set_requirements ks ls (reqs @ [r]))"

definition SelectorFromSet :: "(requirement list \<Rightarrow> requirement list) \<Rightarrow> string list \<Rightarrow> labels \<Rightarrow> selector" where
  "SelectorFromSet srt ks ls =
     (case set_requirements ks ls [] of
        None \<Rightarrow> InternalSelector []
      | Some reqs \<Rightarrow> InternalSelector (srt reqs))"

definition SelectorFromValidatedSet :: "(requirement list \<Rightarrow> requirement list) \<Rightarrow> string list \<Rightarrow> labels \<Rightarrow> selector" where
  "SelectorFromValidatedSet srt ks ls =
     InternalSelector (srt (map (\<lambda>label.
       \<lparr>r_key = label, r_operator = Equals, r_strValues = [labels_Get ls label]\<rparr>) ks))"

subsection \<open>The lexer\<close>

datatype Token =
    ErrorToken | EndOfStringToken | ClosedParToken | CommaToken | DoesNotExistToken | DoubleEqualsToken
  | EqualsToken | GreaterThanToken | IdentifierToken | InToken | LessThanToken | NotEqualsToken
  | NotInToken | OpenParToken

type_synonym ScannedItem = "Token \<times> string"

definition string2token :: "string \<rightharpoonup> Token" where
  "string2token = map_of
     [('')'', ClosedParToken), ('','', CommaToken), (''!'', DoesNotExistToken), (''=='', DoubleEqualsToken),
      (''='', EqualsToken), (''>'', GreaterThanToken), (''in'', InToken), (''<'', LessThanToken),
      (''!='', NotEqualsToken), (''notin'', NotInToken), (''('', OpenParToken)]"

definition isWhitespace :: "char \<Rightarrow> bool" where
  "isWhitespace ch \<longleftrightarrow> ch = CHR '' '' \<or> ch = CHR 0x09 \<or> ch = CHR 0x0D \<or> ch = CHR 0x0A"

definition isSpecialSymbol :: "char \<Rightarrow> bool" where
  "isSpecialSymbol ch \<longleftrightarrow> ch \<in> set ''=!(),><''"

text \<open>\<^verbatim>\<open>read\<close>: the character 0 stands for the end of the input; a character 0 of the input is consumed.\<close>

fun lexer_read :: "string \<Rightarrow> char \<times> string" where
  "lexer_read [] = (CHR 0x00, [])"
| "lexer_read (b # s) = (b, s)"

fun scan_id_loop :: "string \<Rightarrow> string \<Rightarrow> string \<times> string" where
  "scan_id_loop buffer [] = (buffer, [])"
| "scan_id_loop buffer (ch # s) =
     (if ch = CHR 0x00 then (buffer, s)
      else if isSpecialSymbol ch \<or> isWhitespace ch then (buffer, ch # s)
      else scan_id_loop (buffer @ [ch]) s)"

definition scanIdOrKeyword :: "string \<Rightarrow> ScannedItem \<times> string" where
  "scanIdOrKeyword l =
     (let (s, l') = scan_id_loop [] l
      in case string2token s of
           Some val \<Rightarrow> ((val, s), l')
         | None \<Rightarrow> ((IdentifierToken, s), l'))"

fun scan_special_loop :: "ScannedItem \<Rightarrow> string \<Rightarrow> string \<Rightarrow> ScannedItem \<times> string \<times> string" where
  "scan_special_loop item buffer [] = (item, buffer, [])"
| "scan_special_loop item buffer (ch # s) =
     (if ch = CHR 0x00 then (item, buffer, s)
      else if isSpecialSymbol ch then
        (let buffer' = buffer @ [ch]
         in case string2token buffer' of
              Some token \<Rightarrow> scan_special_loop (token, buffer') buffer' s
            | None \<Rightarrow>
                if fst item \<noteq> ErrorToken then (item, buffer', ch # s)
                else scan_special_loop item buffer' s)
      else (item, buffer, ch # s))"

definition scanSpecialSymbol :: "string \<Rightarrow> ScannedItem \<times> string" where
  "scanSpecialSymbol l =
     (let (item, buffer, l') = scan_special_loop (ErrorToken, '''') [] l
      in if fst item = ErrorToken
         then ((ErrorToken, ''error expected: keyword found '' @ [CHR 0x27] @ buffer @ [CHR 0x27]), l')
         else (item, l'))"

fun skipWhiteSpaces :: "string \<Rightarrow> string" where
  "skipWhiteSpaces [] = []"
| "skipWhiteSpaces (ch # s) = (if isWhitespace ch then skipWhiteSpaces s else ch # s)"

definition Lex :: "string \<Rightarrow> ScannedItem \<times> string" where
  "Lex l =
     (let l' = skipWhiteSpaces l; (ch, l'') = lexer_read l'
      in if ch = CHR 0x00 then ((EndOfStringToken, ''''), l'')
         else if isSpecialSymbol ch then scanSpecialSymbol l'
         else scanIdOrKeyword l')"

lemma scan_id_loop_length: "length (snd (scan_id_loop buffer s)) \<le> length s"
  by (induction buffer s rule: scan_id_loop.induct) auto

lemma scan_special_loop_length: "length (snd (snd (scan_special_loop item buffer s))) \<le> length s"
  by (induction s arbitrary: item buffer) (auto simp: Let_def intro: le_SucI split: option.splits)

lemma skipWhiteSpaces_length: "length (skipWhiteSpaces s) \<le> length s"
  by (induction s) auto

lemma skipWhiteSpaces_head: "skipWhiteSpaces s = c # t \<Longrightarrow> \<not> isWhitespace c"
  by (induction s) (auto split: if_splits)

lemma string2token_special: "isSpecialSymbol c \<Longrightarrow> \<exists>t. string2token [c] = Some t"
  by (auto simp: isSpecialSymbol_def string2token_def)

lemma string2token_item:
  "string2token w = Some t \<Longrightarrow> t \<notin> {ErrorToken, EndOfStringToken, IdentifierToken}"
  by (auto simp: string2token_def split: if_splits)

lemma scanIdOrKeyword_length:
  "c \<noteq> CHR 0x00 \<Longrightarrow> \<not> isSpecialSymbol c \<Longrightarrow> \<not> isWhitespace c \<Longrightarrow> length (snd (scanIdOrKeyword (c # s))) \<le> length s"
  using scan_id_loop_length [of "[c]" s] by (auto simp: scanIdOrKeyword_def Let_def split: prod.splits option.splits)

lemma scanSpecialSymbol_length:
  "c \<noteq> CHR 0x00 \<Longrightarrow> isSpecialSymbol c \<Longrightarrow> length (snd (scanSpecialSymbol (c # s))) \<le> length s"
  using string2token_special [of c] string2token_item [of "[c]"]
    scan_special_loop_length [of "(the (string2token [c]), [c])" "[c]" s]
  by (auto simp: scanSpecialSymbol_def Let_def split: prod.splits)

lemma Lex_length:
  assumes "Lex l = ((tok, lit), l')" "tok \<noteq> EndOfStringToken"
  shows "length l' < length l"
proof (cases "skipWhiteSpaces l")
  case Nil
  then show ?thesis using assms by (simp add: Lex_def)
next
  case (Cons c s)
  then show ?thesis
    using assms skipWhiteSpaces_length [of l] skipWhiteSpaces_head [OF Cons]
      scanIdOrKeyword_length [of c s] scanSpecialSymbol_length [of c s]
    by (auto simp: Lex_def Let_def split: if_splits)
qed

function scan :: "string \<Rightarrow> ScannedItem list" where
  "scan l =
     (if fst (fst (Lex l)) = EndOfStringToken then [fst (Lex l)] else fst (Lex l) # scan (snd (Lex l)))"
  by auto
termination
  by (relation "measure length") (auto intro: Lex_length simp: prod_eq_iff)

declare scan.simps [simp del]

subsection \<open>The parser\<close>

datatype ParserContext = KeyAndOperator | Values

datatype 'a presult = Panic | Failed label_error | Parsed 'a "ScannedItem list"

definition in_context :: "ParserContext \<Rightarrow> ScannedItem \<Rightarrow> ScannedItem" where
  "in_context cx item =
     (if cx = Values \<and> fst item \<in> {InToken, NotInToken} then (IdentifierToken, snd item) else item)"

fun lookahead :: "ParserContext \<Rightarrow> ScannedItem list \<Rightarrow> ScannedItem option" where
  "lookahead cx [] = None"
| "lookahead cx (item # p) = Some (in_context cx item)"

fun parser_consume :: "ParserContext \<Rightarrow> ScannedItem list \<Rightarrow> ScannedItem presult" where
  "parser_consume cx [] = Panic"
| "parser_consume cx (item # p) = Parsed (in_context cx item) p"

fun presult_bind :: "'a presult \<Rightarrow> ('a \<Rightarrow> ScannedItem list \<Rightarrow> 'b presult) \<Rightarrow> 'b presult" where
  "presult_bind Panic f = Panic"
| "presult_bind (Failed e) f = Failed e"
| "presult_bind (Parsed a p) f = f a p"

definition looking :: "ParserContext \<Rightarrow> ScannedItem list \<Rightarrow> (ScannedItem \<Rightarrow> 'b presult) \<Rightarrow> 'b presult" where
  "looking cx p f = (case lookahead cx p of None \<Rightarrow> Panic | Some item \<Rightarrow> f item)"

definition infer_operator :: "Operator \<Rightarrow> ScannedItem \<Rightarrow> ScannedItem list \<Rightarrow> (string \<times> Operator) presult" where
  "infer_operator op item p =
     (if fst item \<noteq> IdentifierToken then Failed (Found (snd item) ''identifier'')
      else case validateLabelKey (snd item) of
             Some err \<Rightarrow> Failed err
           | None \<Rightarrow>
               looking Values p (\<lambda>(t, _).
                 Parsed (snd item,
                   if (t = EndOfStringToken \<or> t = CommaToken) \<and> op \<noteq> DoesNotExist then Exists else op) p))"

definition parseKeyAndInferOperator :: "ScannedItem list \<Rightarrow> (string \<times> Operator) presult" where
  "parseKeyAndInferOperator p =
     presult_bind (parser_consume Values p) (\<lambda>item p1.
       if fst item = DoesNotExistToken
       then presult_bind (parser_consume Values p1) (\<lambda>item2 p2. infer_operator DoesNotExist item2 p2)
       else infer_operator (OtherOperator '''') item p1)"

definition token_operator :: "Token \<Rightarrow> Operator option" where
  "token_operator tok =
     (case tok of
        InToken \<Rightarrow> Some In | EqualsToken \<Rightarrow> Some Equals | DoubleEqualsToken \<Rightarrow> Some DoubleEquals
      | GreaterThanToken \<Rightarrow> Some GreaterThan | LessThanToken \<Rightarrow> Some LessThan | NotInToken \<Rightarrow> Some NotIn
      | NotEqualsToken \<Rightarrow> Some NotEquals | _ \<Rightarrow> None)"

definition parseOperator :: "ScannedItem list \<Rightarrow> Operator presult" where
  "parseOperator p =
     presult_bind (parser_consume KeyAndOperator p) (\<lambda>(tok, lit) p1.
       case token_operator tok of
         Some op \<Rightarrow> Parsed op p1
       | None \<Rightarrow> Failed (Found lit ''an operator''))"

function parseIdentifiersList :: "string set \<Rightarrow> ScannedItem list \<Rightarrow> string set presult" where
  "parseIdentifiersList s [] = Panic"
| "parseIdentifiersList s (item # p) =
     (let (tok, lit) = in_context Values item
      in if tok = IdentifierToken then
           looking Values p (\<lambda>(tok2, lit2).
             if tok2 = CommaToken then parseIdentifiersList (insert lit s) p
             else if tok2 = ClosedParToken then Parsed (insert lit s) p
             else Failed (Found lit2 '', or )''))
         else if tok = CommaToken then
           (let s1 = (if s = {} then insert '''' s else s)
            in looking Values p (\<lambda>(tok2, _).
                 if tok2 = ClosedParToken then Parsed (insert '''' s1) p
                 else if tok2 = CommaToken then parseIdentifiersList (insert '''' s1) (tl p)
                 else parseIdentifiersList s1 p))
         else Failed (Found lit '', or identifier''))"
  by pat_completeness auto
termination
  by (relation "measure (\<lambda>(s, p). length p)") auto

declare parseIdentifiersList.simps(2) [simp del]

definition parseValues :: "ScannedItem list \<Rightarrow> string set presult" where
  "parseValues p =
     presult_bind (parser_consume Values p) (\<lambda>(tok, lit) p1.
       if tok \<noteq> OpenParToken then Failed (Found lit ''('')
       else looking Values p1 (\<lambda>(tok, lit).
         if tok = IdentifierToken \<or> tok = CommaToken then
           presult_bind (parseIdentifiersList {} p1) (\<lambda>s p2.
             presult_bind (parser_consume Values p2) (\<lambda>(tok, _) p3.
               if tok \<noteq> ClosedParToken then Failed (Found lit '')'') else Parsed s p3))
         else if tok = ClosedParToken then
           presult_bind (parser_consume Values p1) (\<lambda>_ p2. Parsed {''''} p2)
         else Failed (Found lit '', or ) or identifier'')))"

definition parseExactValue :: "ScannedItem list \<Rightarrow> string set presult" where
  "parseExactValue p =
     looking Values p (\<lambda>(tok, lit).
       if tok = EndOfStringToken \<or> tok = CommaToken then Parsed {''''} p
       else presult_bind (parser_consume Values p) (\<lambda>(tok, lit) p1.
         if tok = IdentifierToken then Parsed {lit} p1 else Failed (Found lit ''identifier'')))"

text \<open>\<^verbatim>\<open>values.List()\<close> is sorted; a requirement or the error of \<^verbatim>\<open>NewRequirement\<close>.\<close>

definition made :: "string \<Rightarrow> Operator \<Rightarrow> string set \<Rightarrow> ScannedItem list \<Rightarrow> requirement presult" where
  "made key op vals p =
     (case NewRequirement key op (sorted_list_of_set vals) of Inl err \<Rightarrow> Failed err | Inr r \<Rightarrow> Parsed r p)"

definition parseRequirement :: "ScannedItem list \<Rightarrow> requirement presult" where
  "parseRequirement p =
     presult_bind (parseKeyAndInferOperator p) (\<lambda>(key, operator) p1.
       if operator = Exists \<or> operator = DoesNotExist then made key operator {} p1
       else presult_bind (parseOperator p1) (\<lambda>op p2.
         presult_bind (if op = In \<or> op = NotIn then parseValues p2 else parseExactValue p2)
           (\<lambda>vals p3. made key op vals p3)))"

subsection \<open>The parser makes progress\<close>

text \<open>Every list of scanned items ends with its only end-of-string item.\<close>

fun terminated :: "ScannedItem list \<Rightarrow> bool" where
  "terminated [] = False"
| "terminated (item # p) = (if fst item = EndOfStringToken then p = [] else terminated p)"

text \<open>
  A step of the parser does not panic on such a list, what it leaves is such a list, and what it
  leaves is never longer than what it was given.
\<close>

definition keeps :: "ScannedItem list \<Rightarrow> 'a presult \<Rightarrow> bool" where
  "keeps p res =
     (case res of
        Panic \<Rightarrow> \<not> terminated p
      | Failed _ \<Rightarrow> True
      | Parsed _ p' \<Rightarrow> length p' \<le> length p \<and> (terminated p \<longrightarrow> terminated p'))"

lemma keeps_simps [simp]:
  "keeps p (Failed e)"
  "keeps p Panic \<longleftrightarrow> \<not> terminated p"
  "keeps p (Parsed a p') \<longleftrightarrow> length p' \<le> length p \<and> (terminated p \<longrightarrow> terminated p')"
  by (simp_all add: keeps_def)

lemma in_context_simps [simp]:
  "fst (in_context cx item) = EndOfStringToken \<longleftrightarrow> fst item = EndOfStringToken"
  "fst (in_context cx item) = CommaToken \<longleftrightarrow> fst item = CommaToken"
  "fst (in_context cx item) = ClosedParToken \<longleftrightarrow> fst item = ClosedParToken"
  "fst (in_context cx item) = OpenParToken \<longleftrightarrow> fst item = OpenParToken"
  "fst (in_context cx item) = DoesNotExistToken \<longleftrightarrow> fst item = DoesNotExistToken"
  "in_context KeyAndOperator item = item"
  "snd (in_context cx item) = snd item"
  by (auto simp: in_context_def)

lemma in_context_end: "fst item = EndOfStringToken \<Longrightarrow> in_context cx item = item"
  by (simp add: in_context_def)

lemma keeps_bind:
  "keeps p res \<Longrightarrow> (\<And>a p'. keeps p' (f a p')) \<Longrightarrow> keeps p (presult_bind res f)"
  by (cases res) (fastforce simp: keeps_def split: presult.splits)+

lemma keeps_looking:
  "(\<And>item p'. p = item # p' \<Longrightarrow> keeps p (f (in_context cx item))) \<Longrightarrow> keeps p (looking cx p f)"
  by (cases p) (auto simp: looking_def)

lemma keeps_consume:
  assumes "\<And>item p'. fst item \<noteq> EndOfStringToken \<Longrightarrow> keeps p' (f (in_context cx item) p')"
    and "\<And>item p'. fst item = EndOfStringToken \<Longrightarrow> \<exists>e. f item p' = Failed e"
  shows "keeps p (presult_bind (parser_consume cx p) f)"
proof (cases p)
  case (Cons item p')
  show ?thesis
  proof (cases "fst item = EndOfStringToken")
    case True
    then show ?thesis using Cons assms(2) [of item p'] by (auto simp: in_context_end)
  next
    case False
    then show ?thesis using Cons assms(1) [of item p']
      by (cases "f (in_context cx item) p'") auto
  qed
qed simp

lemma keeps_infer_operator: "keeps p (infer_operator op item p)"
  by (auto simp: infer_operator_def case_prod_beta split: option.splits intro!: keeps_looking)

lemma infer_operator_end: "fst item = EndOfStringToken \<Longrightarrow> \<exists>e. infer_operator op item p = Failed e"
  by (simp add: infer_operator_def)

lemma keeps_parseKeyAndInferOperator: "keeps p (parseKeyAndInferOperator p)"
  unfolding parseKeyAndInferOperator_def
  by (rule keeps_consume) (auto intro!: keeps_consume keeps_infer_operator infer_operator_end)

lemma keeps_parseOperator: "keeps p (parseOperator p)"
  unfolding parseOperator_def
  by (rule keeps_consume) (auto simp: token_operator_def case_prod_beta split: option.splits)

lemma keeps_parseIdentifiersList: "keeps p (parseIdentifiersList s p)"
proof (induction p arbitrary: s rule: length_induct)
  case (1 p)
  show ?case
  proof (cases p)
    case (Cons item p')
    have IH: "keeps p (parseIdentifiersList s' q)" if "q = p' \<or> q = tl p'" "terminated p \<longrightarrow> terminated q" for s' q
    proof -
      have "keeps q (parseIdentifiersList s' q)" "length q \<le> length p" using 1 Cons that(1) by auto
      then show ?thesis using that(2) by (cases "parseIdentifiersList s' q") auto
    qed
    show ?thesis
    proof (cases p')
      case Nil
      then show ?thesis using Cons by (auto simp: parseIdentifiersList.simps(2) looking_def case_prod_beta in_context_end)
    next
      case (Cons item2 p2)
      then have p: "p = item # item2 # p2" using \<open>p = item # p'\<close> by simp
      have "fst item \<noteq> EndOfStringToken \<Longrightarrow> keeps p (parseIdentifiersList s' p')" for s'
        using IH [of p'] p Cons by (simp add: p)
      moreover have "fst item \<noteq> EndOfStringToken \<Longrightarrow> fst item2 \<noteq> EndOfStringToken \<Longrightarrow>
          keeps p (parseIdentifiersList s' p2)" for s'
        using IH [of p2] p Cons by simp
      moreover have "fst item = EndOfStringToken \<Longrightarrow> \<exists>e. parseIdentifiersList s p = Failed e"
        by (simp add: p parseIdentifiersList.simps(2) in_context_end case_prod_beta)
      ultimately show ?thesis
        unfolding \<open>p = item # p'\<close> parseIdentifiersList.simps(2) Let_def
        by (auto simp: Cons looking_def case_prod_beta)
    qed
  qed simp
qed

lemma keeps_closing:
  "keeps p (presult_bind (parseIdentifiersList s p) (\<lambda>s p2.
     presult_bind (parser_consume Values p2) (\<lambda>(tok, _) p3.
       if tok \<noteq> ClosedParToken then Failed e else Parsed s p3)))"
  by (rule keeps_bind [OF keeps_parseIdentifiersList], rule keeps_consume) (auto simp: case_prod_beta)

lemma keeps_parseValues: "keeps p (parseValues p)"
  unfolding parseValues_def
  by (rule keeps_consume) (auto simp: case_prod_beta intro!: keeps_looking keeps_closing [simplified case_prod_beta])

lemma keeps_parseExactValue: "keeps p (parseExactValue p)"
  unfolding parseExactValue_def
  by (rule keeps_looking) (auto simp: case_prod_beta)

lemma keeps_made: "keeps p (made key op vals p)"
  by (auto simp: made_def split: sum.splits)

lemma keeps_parseRequirement: "keeps p (parseRequirement p)"
  unfolding parseRequirement_def
  by (auto simp: case_prod_beta intro!: keeps_bind keeps_parseKeyAndInferOperator keeps_parseOperator keeps_made
      keeps_parseValues keeps_parseExactValue)

lemma parseRequirement_length: "parseRequirement p = Parsed r p' \<Longrightarrow> length p' \<le> length p"
  using keeps_parseRequirement [of p] by simp

lemma presult_bind_cong [fundef_cong]:
  "r = r' \<Longrightarrow> (\<And>a p. r' = Parsed a p \<Longrightarrow> f a p = f' a p) \<Longrightarrow> presult_bind r f = presult_bind r' f'"
  by (cases r') auto

lemma looking_cong [fundef_cong]:
  "p = p' \<Longrightarrow> (\<And>item t. p' = item # t \<Longrightarrow> f (in_context cx item) = f' (in_context cx item)) \<Longrightarrow>
     looking cx p f = looking cx p' f'"
  by (cases p') (auto simp: looking_def)

subsection \<open>Parsing a selector\<close>

text \<open>The loop of \<^verbatim>\<open>Parser.parse\<close>: what has been parsed so far, and the items that are left.\<close>

function parse_loop :: "requirement list \<Rightarrow> ScannedItem list \<Rightarrow> requirement list presult" where
  "parse_loop requirements p =
     looking Values p (\<lambda>item.
       if fst item = IdentifierToken \<or> fst item = DoesNotExistToken then
         (case parseRequirement p of
            Panic \<Rightarrow> Panic
          | Failed err \<Rightarrow> Failed (UnableToParse err)
          | Parsed r p1 \<Rightarrow>
              presult_bind (parser_consume Values p1) (\<lambda>t p2.
                if fst t = EndOfStringToken then Parsed (requirements @ [r]) p2
                else if fst t = CommaToken then
                  looking Values p2 (\<lambda>t2.
                    if fst t2 \<noteq> IdentifierToken \<and> fst t2 \<noteq> DoesNotExistToken
                    then Failed (Found (snd t2) ''identifier after ,'')
                    else parse_loop (requirements @ [r]) p2)
                else Failed (Found (snd t) '', or end of string'')))
       else if fst item = EndOfStringToken then Parsed requirements p
       else Failed (Found (snd item) ''!, identifier, or end of string''))"
  by auto
termination
  by (relation "measure (\<lambda>(requirements, p). length p)")
    (auto dest!: parseRequirement_length elim!: parser_consume.elims)

declare parse_loop.simps [simp del]

text \<open>\<^verbatim>\<open>parse\<close>; the panic of an index out of range would be \<open>None\<close>.\<close>

definition selector_parse ::
    "(requirement list \<Rightarrow> requirement list) \<Rightarrow> string \<Rightarrow> (label_error + requirement list) option" where
  "selector_parse srt selector =
     (case parse_loop [] (scan selector) of
        Panic \<Rightarrow> None
      | Failed err \<Rightarrow> Some (Inl err)
      | Parsed items _ \<Rightarrow> Some (Inr (srt items)))"

definition Parse :: "(requirement list \<Rightarrow> requirement list) \<Rightarrow> string \<Rightarrow> (label_error + selector) option" where
  "Parse srt selector = map_option (map_sum id InternalSelector) (selector_parse srt selector)"

definition ParseToRequirements ::
    "(requirement list \<Rightarrow> requirement list) \<Rightarrow> string \<Rightarrow> (label_error + requirement list) option" where
  "ParseToRequirements srt selector = selector_parse srt selector"

text \<open>\<^verbatim>\<open>strings.TrimSpace\<close>: the UTF-8 encodings of the white space characters of Unicode.\<close>

definition white_space :: "string list" where
  "white_space =
     [[CHR 0x09], [CHR 0x0A], [CHR 0x0B], [CHR 0x0C], [CHR 0x0D], [CHR 0x20],
      [CHR 0xC2, CHR 0x85], [CHR 0xC2, CHR 0xA0], [CHR 0xE1, CHR 0x9A, CHR 0x80]]
     @ map (\<lambda>c. [CHR 0xE2, CHR 0x80, c])
         [CHR 0x80, CHR 0x81, CHR 0x82, CHR 0x83, CHR 0x84, CHR 0x85, CHR 0x86, CHR 0x87, CHR 0x88, CHR 0x89,
          CHR 0x8A, CHR 0xA8, CHR 0xA9, CHR 0xAF]
     @ [[CHR 0xE2, CHR 0x81, CHR 0x9F], [CHR 0xE3, CHR 0x80, CHR 0x80]]"

text \<open>Drops, from the front, every encoding of the list \<open>ws\<close>, at most \<open>n\<close> times.\<close>

fun drop_spaces :: "nat \<Rightarrow> string list \<Rightarrow> string \<Rightarrow> string" where
  "drop_spaces 0 ws s = s"
| "drop_spaces (Suc n) ws s =
     (case List.find (\<lambda>w. take (length w) s = w) ws of
        None \<Rightarrow> s
      | Some w \<Rightarrow> drop_spaces n ws (drop (length w) s))"

definition TrimSpace :: "string \<Rightarrow> string" where
  "TrimSpace s =
     (let t = drop_spaces (length s) white_space s
      in rev (drop_spaces (length t) (map rev white_space) (rev t)))"

fun convert_loop :: "string list \<Rightarrow> labels \<Rightarrow> label_error option \<times> labels" where
  "convert_loop [] labelsMap = (None, labelsMap)"
| "convert_loop (label # rest) labelsMap =
     (case strings_Split (CHR ''='') label of
        [k, v] \<Rightarrow>
          (case validateLabelKey (TrimSpace k) of
             Some err \<Rightarrow> (Some err, labelsMap)
           | None \<Rightarrow>
               (case validateLabelValue (TrimSpace v) of
                  Some err \<Rightarrow> (Some err, labelsMap)
                | None \<Rightarrow> convert_loop rest (labelsMap(TrimSpace k \<mapsto> TrimSpace v))))
      | l \<Rightarrow> (Some (InvalidSelector l), labelsMap))"

definition ConvertSelectorToLabelsMap :: "string \<Rightarrow> label_error option \<times> labels" where
  "ConvertSelectorToLabelsMap selector =
     (if length selector = 0 then (None, Map.empty)
      else convert_loop (strings_Split (CHR '','') selector) Map.empty)"

subsection \<open>The parser is total\<close>

lemma scan_terminated: "terminated (scan l)"
  by (induction l rule: scan.induct) (simp add: scan.simps)

lemma parse_loop_total: "terminated p \<Longrightarrow> parse_loop requirements p \<noteq> Panic"
proof (induction p arbitrary: requirements rule: length_induct)
  case (1 p)
  obtain item p' where p: "p = item # p'" using 1(2) by (cases p) auto
  show ?case
  proof (cases "parseRequirement p")
    case (Parsed r p1)
    then have p1: "terminated p1" "length p1 \<le> length p" using keeps_parseRequirement [of p] 1(2) by simp_all
    then obtain i1 p2 where i1: "p1 = i1 # p2" by (cases p1) auto
    have IH: "fst i1 \<noteq> EndOfStringToken \<Longrightarrow> parse_loop reqs p2 \<noteq> Panic" for reqs using 1(1) p1 i1 by simp
    have "fst i1 \<noteq> EndOfStringToken \<Longrightarrow> \<exists>i2 p3. p2 = i2 # p3" using p1 i1 by (cases p2) simp_all
    then show ?thesis using p Parsed i1 IH
      by (subst parse_loop.simps) (auto simp: looking_def split: if_splits)
  next
    case Panic
    then show ?thesis using keeps_parseRequirement [of p] 1(2) by simp
  qed (subst parse_loop.simps, simp add: p looking_def)
qed

end
