(* ===== verification/LabelSyntax.thy ===== *)
theory LabelSyntax
  imports Labels
begin

section \<open>Printing and parsing selectors\<close>

text \<open>
  What \<^verbatim>\<open>String\<close> prints, the lexer splits into the items of the requirement, and the parser
  reads the requirement back from these items.
\<close>

subsection \<open>Words\<close>

definition word_char :: "char \<Rightarrow> bool" where
  "word_char c \<longleftrightarrow> c \<noteq> CHR 0x00 \<and> \<not> isSpecialSymbol c \<and> \<not> isWhitespace c"

definition word :: "string \<Rightarrow> bool" where
  "word w \<longleftrightarrow> w \<noteq> [] \<and> list_all word_char w"

text \<open>What may follow a word, and what may follow a symbol.\<close>

definition stops :: "string \<Rightarrow> bool" where
  "stops rest \<longleftrightarrow> rest = [] \<or> isSpecialSymbol (hd rest) \<or> isWhitespace (hd rest)"

definition no_nul :: "string \<Rightarrow> bool" where
  "no_nul rest \<longleftrightarrow> rest = [] \<or> hd rest \<noteq> CHR 0x00"

lemma special_not_nul: "isSpecialSymbol c \<or> isWhitespace c \<Longrightarrow> c \<noteq> CHR 0x00"
  by (auto simp: isSpecialSymbol_def isWhitespace_def)

lemma stops_no_nul: "stops rest \<Longrightarrow> no_nul rest"
  using special_not_nul by (auto simp: stops_def no_nul_def)

lemma no_nul_append: "no_nul s \<Longrightarrow> no_nul rest \<Longrightarrow> no_nul (s @ rest)"
  by (cases s) (auto simp: no_nul_def)

lemma word_no_nul: "word w \<Longrightarrow> no_nul w"
  by (cases w) (auto simp: word_def word_char_def no_nul_def)

lemma alnum_word_char: "qnameExtChar c \<or> dnsExtChar c \<or> c = CHR ''.'' \<or> c = CHR ''/'' \<Longrightarrow> word_char c"
  by (auto simp: word_char_def isSpecialSymbol_def isWhitespace_def qnameExtChar_def qnameChar_def dnsExtChar_def
      dnsChar_def is_upper_def is_lower_def is_digit_def between_def)

lemma strings_Split_chars: "x \<in> set s \<Longrightarrow> x = c \<or> (\<exists>u \<in> set (strings_Split c s). x \<in> set u)"
proof (induction s)
  case (Cons y s)
  then show ?case by (cases "strings_Split c s") (auto split: if_splits)
qed simp

lemma framed_chars: "framed P Q s \<Longrightarrow> c \<in> set s \<Longrightarrow> P c \<or> Q c"
  by (auto simp: framed_def list_all_iff)

lemma validateLabelKey_word:
  assumes "validateLabelKey k = None"
  shows "word k"
proof -
  have "IsQualifiedName k = []" using assms by (simp add: validateLabelKey_def Let_def split: if_splits)
  note ok = this [unfolded IsQualifiedName_accepts]
  have "word_char c" if "c \<in> set k" for c
  proof -
    have prefix: "word_char x"
      if "list_all (framed dnsChar dnsExtChar) (strings_Split (CHR ''.'') p)" "x \<in> set p" for p x
      using strings_Split_chars [of x p "CHR ''.''"] that framed_chars [of dnsChar dnsExtChar _ x] alnum_word_char
      by (auto simp: list_all_iff dnsExtChar_def)
    have name: "word_char x" if "valid_name n" "x \<in> set n" for n x
      using framed_chars [of qnameChar qnameExtChar n x] that alnum_word_char [of x]
      by (auto simp: valid_name_def qnameExtChar_def)
    show ?thesis
      using strings_Split_chars [OF that, of "CHR ''/''"] ok alnum_word_char [of c]
      by (auto split: list.splits intro: prefix name)
  qed
  moreover have "k \<noteq> []" using ok by (auto simp: valid_name_def framed_def)
  ultimately show ?thesis by (simp add: word_def list_all_iff)
qed

lemma validateLabelValue_word: "validateLabelValue v = None \<Longrightarrow> v = [] \<or> word v"
  using framed_chars [of qnameChar qnameExtChar v] alnum_word_char
  by (auto simp: validateLabelValue_def Let_def IsValidLabelValue_accepts word_def list_all_iff qnameExtChar_def
      split: if_splits)

subsection \<open>Scanning what is printed\<close>

definition word_item :: "string \<Rightarrow> ScannedItem" where
  "word_item w = (case string2token w of Some t \<Rightarrow> (t, w) | None \<Rightarrow> (IdentifierToken, w))"

lemma word_token: "word w \<Longrightarrow> string2token w = Some t \<Longrightarrow> t = InToken \<or> t = NotInToken"
  by (auto simp: string2token_def word_def word_char_def isSpecialSymbol_def split: if_splits)

lemma word_item_value [simp]: "word w \<Longrightarrow> in_context Values (word_item w) = (IdentifierToken, w)"
  using word_token [of w] by (auto simp: word_item_def in_context_def split: option.splits)

lemma scan_id_loop_word:
  "list_all word_char w \<Longrightarrow> stops rest \<Longrightarrow> scan_id_loop buffer (w @ rest) = (buffer @ w, rest)"
proof (induction w arbitrary: buffer)
  case Nil
  then show ?case using special_not_nul by (cases rest) (auto simp: stops_def)
qed (simp add: word_char_def)

lemma scan_word:
  assumes "word w" "stops rest"
  shows "scan (w @ rest) = word_item w # scan rest"
proof -
  obtain c s where w: "w = c # s" "word_char c" using assms(1) by (cases w) (auto simp: word_def)
  then have skip: "skipWhiteSpaces (w @ rest) = w @ rest" by (simp add: word_char_def)
  have "scanIdOrKeyword (w @ rest) = (word_item w, rest)"
    using scan_id_loop_word [of w rest "[]"] assms
    by (auto simp: scanIdOrKeyword_def word_item_def word_def split: option.splits)
  then have "Lex (w @ rest) = (word_item w, rest)"
    using w by (simp add: Lex_def skip word_char_def)
  moreover have "fst (word_item w) \<noteq> EndOfStringToken"
    using word_token [OF assms(1)] by (auto simp: word_item_def split: option.splits)
  ultimately show ?thesis by (simp add: scan.simps [of "w @ rest"])
qed

lemma scan_space: "scan (CHR '' '' # rest) = scan rest"
  by (simp add: scan.simps [of "CHR '' '' # rest"] scan.simps [of rest] Lex_def isWhitespace_def)

text \<open>One or two symbols are scanned when no longer symbol begins with them.\<close>

lemma scan_symbol:
  assumes "no_nul rest" "string2token [c] = Some t" "isSpecialSymbol c"
    and "rest \<noteq> [] \<Longrightarrow> string2token [c, hd rest] = None"
  shows "scan (c # rest) = (t, [c]) # scan rest"
proof -
  have t: "t \<noteq> ErrorToken" "t \<noteq> EndOfStringToken" using string2token_item [OF assms(2)] by auto
  have c: "c \<noteq> CHR 0x00" "\<not> isWhitespace c" using assms(3) by (auto simp: isSpecialSymbol_def isWhitespace_def)
  have "\<exists>b. scan_special_loop (t, [c]) [c] rest = ((t, [c]), b, rest)"
    using assms(1,4) t by (cases rest) (auto simp: no_nul_def Let_def)
  then have "scanSpecialSymbol (c # rest) = ((t, [c]), rest)"
    using assms(2,3) c t by (auto simp: scanSpecialSymbol_def Let_def)
  then have "Lex (c # rest) = ((t, [c]), rest)" using assms(3) c by (simp add: Lex_def)
  then show ?thesis using t by (simp add: scan.simps [of "c # rest"])
qed

lemma scan_symbol2:
  assumes "no_nul rest" "isSpecialSymbol c" "string2token [c, d] = Some t" "isSpecialSymbol d"
  shows "scan (c # d # rest) = (t, [c, d]) # scan rest"
proof -
  have t: "t \<noteq> ErrorToken" "t \<noteq> EndOfStringToken" using string2token_item [OF assms(3)] by auto
  have c: "c \<noteq> CHR 0x00" "\<not> isWhitespace c" "d \<noteq> CHR 0x00"
    using assms(2,4) by (auto simp: isSpecialSymbol_def isWhitespace_def)
  obtain u where u: "string2token [c] = Some u" using string2token_special [OF assms(2)] by auto
  have "string2token [c, d, x] = None" if "isSpecialSymbol d" for x
    using that by (auto simp: string2token_def isSpecialSymbol_def split: if_splits)
  then have "\<exists>b. scan_special_loop (t, [c, d]) [c, d] rest = ((t, [c, d]), b, rest)"
    using assms(1,4) t by (cases rest) (auto simp: no_nul_def Let_def)
  then have "scanSpecialSymbol (c # d # rest) = ((t, [c, d]), rest)"
    using assms c t u by (auto simp: scanSpecialSymbol_def Let_def)
  then have "Lex (c # d # rest) = ((t, [c, d]), rest)" using assms(2) c by (simp add: Lex_def)
  then show ?thesis using t by (simp add: scan.simps [of "c # d # rest"])
qed

subsection \<open>The items of a requirement\<close>

fun list_items :: "string list \<Rightarrow> ScannedItem list" where
  "list_items [] = []"
| "list_items (v # vs) =
     (if v = [] then [] else [word_item v]) @ (if vs = [] then [] else (CommaToken, '','') # list_items vs)"

definition words :: "string list \<Rightarrow> bool" where
  "words vs \<longleftrightarrow> (\<forall>v \<in> set vs. v = [] \<or> word v)"

lemma words_Cons [simp]: "words (v # vs) \<longleftrightarrow> (v = [] \<or> word v) \<and> words vs"
  and words_Nil [simp]: "words []"
  by (auto simp: words_def)

lemma strings_Join_Cons:
  "strings_Join sep (v # vs) = v @ (if vs = [] then [] else sep @ strings_Join sep vs)"
  by (cases vs) auto

lemma join_no_nul: "words vs \<Longrightarrow> no_nul rest \<Longrightarrow> no_nul (strings_Join '','' vs @ rest)"
proof (cases vs)
  case (Cons v us)
  assume "words vs" "no_nul rest"
  then show ?thesis
    using Cons word_no_nul [of v] by (cases v) (auto simp: strings_Join_Cons no_nul_def)
qed simp

lemma scan_comma: "no_nul rest \<Longrightarrow> scan (CHR '','' # rest) = (CommaToken, '','') # scan rest"
  by (rule scan_symbol) (simp_all add: string2token_def isSpecialSymbol_def)

lemma scan_join:
  "words vs \<Longrightarrow> stops rest \<Longrightarrow> scan (strings_Join '','' vs @ rest) = list_items vs @ scan rest"
proof (induction vs)
  case (Cons v vs)
  have comma: "stops (CHR '','' # r)" for r by (simp add: stops_def isSpecialSymbol_def)
  have "scan ((if vs = [] then [] else '','' @ strings_Join '','' vs) @ rest)
      = (if vs = [] then [] else (CommaToken, '','') # list_items vs) @ scan rest"
    using Cons join_no_nul [of vs rest] stops_no_nul by (simp add: scan_comma)
  moreover have "scan (v @ r) = (if v = [] then [] else [word_item v]) @ scan r" if "stops r" for r
    using Cons(2) that scan_word by auto
  ultimately show ?case using Cons(3) comma by (simp add: strings_Join_Cons)
qed simp

definition operator_item :: "Operator \<Rightarrow> ScannedItem" where
  "operator_item op =
     (case op of Equals \<Rightarrow> (EqualsToken, ''='') | DoubleEquals \<Rightarrow> (DoubleEqualsToken, ''=='')
      | NotEquals \<Rightarrow> (NotEqualsToken, ''!='') | In \<Rightarrow> (InToken, ''in'') | NotIn \<Rightarrow> (NotInToken, ''notin'')
      | GreaterThan \<Rightarrow> (GreaterThanToken, ''>'') | LessThan \<Rightarrow> (LessThanToken, ''<'')
      | _ \<Rightarrow> (ErrorToken, ''''))"

definition requirement_items :: "requirement \<Rightarrow> ScannedItem list" where
  "requirement_items r =
     (let op = r_operator r; vs = list_items (r_strValues r); k = word_item (r_key r)
      in if op = Exists then [k]
         else if op = DoesNotExist then [(DoesNotExistToken, ''!''), k]
         else if op = In \<or> op = NotIn then [k, operator_item op, (OpenParToken, ''('')] @ vs @ [(ClosedParToken, '')'')]
         else [k, operator_item op] @ vs)"

text \<open>A requirement as \<^verbatim>\<open>NewRequirement\<close> makes it, from values without duplicates.\<close>

definition made_requirement :: "requirement \<Rightarrow> bool" where
  "made_requirement r \<longleftrightarrow>
     NewRequirement (r_key r) (r_operator r) (r_strValues r) = Inr r \<and> distinct (r_strValues r)"

lemma first_error_None: "first_error f xs = None \<longleftrightarrow> (\<forall>x \<in> set xs. f x = None)"
  by (induction xs) (auto split: option.splits)

lemma NewRequirement_Inr:
  "NewRequirement k op vs = Inr r \<longleftrightarrow>
     validateLabelKey k = None \<and> check_values op vs = None \<and> (\<forall>v \<in> set vs. validateLabelValue v = None)
     \<and> r = \<lparr>r_key = k, r_operator = op, r_strValues = sort vs\<rparr>"
  by (auto simp: NewRequirement_def first_error_None [symmetric] split: option.splits)

lemma made_requirementD:
  assumes "made_requirement r"
  shows "word (r_key r)" "words (r_strValues r)" "sorted (r_strValues r)" "distinct (r_strValues r)"
    "check_values (r_operator r) (r_strValues r) = None" "validateLabelKey (r_key r) = None"
proof -
  have r: "validateLabelKey (r_key r) = None" "check_values (r_operator r) (r_strValues r) = None"
    "\<forall>v \<in> set (r_strValues r). validateLabelValue v = None"
    "r = \<lparr>r_key = r_key r, r_operator = r_operator r, r_strValues = sort (r_strValues r)\<rparr>"
    using assms by (auto simp: made_requirement_def NewRequirement_Inr)
  from r(4) have "r_strValues r = sort (r_strValues r)" by (metis requirement.select_convs(3))
  then show "sorted (r_strValues r)" by (metis sorted_sort)
  show "word (r_key r)" "words (r_strValues r)"
    using r validateLabelKey_word validateLabelValue_word by (auto simp: words_def)
  show "distinct (r_strValues r)" using assms by (simp add: made_requirement_def)
qed (use assms in \<open>auto simp: made_requirement_def NewRequirement_Inr\<close>)

lemma values_text:
  "(if length vs = 1 then hd vs else strings_Join '','' vs) = strings_Join '','' vs"
  by (cases vs) (auto simp: strings_Join_Cons)

lemma scan_operator:
  assumes "no_nul rest" "rest = [] \<or> hd rest \<noteq> CHR ''=''"
    and "op \<in> {Equals, DoubleEquals, NotEquals, GreaterThan, LessThan}"
  shows "scan (operator_text op @ rest) = operator_item op # scan rest"
proof -
  have one: "scan (c # rest) = (t, [c]) # scan rest"
    if "c \<in> set ''=><''" "string2token [c] = Some t" for c t
    by (rule scan_symbol [OF assms(1) that(2)])
      (use assms(2) that(1) in \<open>auto simp: string2token_def isSpecialSymbol_def\<close>)
  have two: "scan (c # CHR ''='' # rest) = (t, [c, CHR ''='']) # scan rest"
    if "c \<in> set ''=!''" "string2token [c, CHR ''=''] = Some t" for c t
    by (rule scan_symbol2 [OF assms(1) _ that(2)]) (use that(1) in \<open>auto simp: isSpecialSymbol_def\<close>)
  show ?thesis
    using assms(3) one [of "CHR ''=''"] one [of "CHR ''>''"] one [of "CHR ''<''"] two [of "CHR ''=''"] two [of "CHR ''!''"]
    by (auto simp: operator_text_def operator_item_def string2token_def)
qed

lemma word_item_in: "word_item ''in'' = (InToken, ''in'')" "word_item ''notin'' = (NotInToken, ''notin'')"
  and word_in: "word ''in''" "word ''notin''"
  by (auto simp: word_item_def string2token_def word_def word_char_def isSpecialSymbol_def isWhitespace_def)

lemma word_head: "word w \<Longrightarrow> word_char (hd w)"
  by (cases w) (auto simp: word_def)

lemma stops_operator: "op \<notin> {Exists, DoesNotExist} \<Longrightarrow> (\<forall>s. op \<noteq> OtherOperator s) \<Longrightarrow> stops (operator_text op @ rest)"
  by (cases op) (auto simp: operator_text_def stops_def isSpecialSymbol_def isWhitespace_def)

lemma scan_set_operator:
  assumes "words vs" "stops rest" "op = In \<or> op = NotIn"
  shows "scan (operator_text op @ ''('' @ strings_Join '','' vs @ '')'' @ rest)
    = [operator_item op, (OpenParToken, ''('')] @ list_items vs @ (ClosedParToken, '')'') # scan rest"
proof -
  have close: "scan (CHR '')'' # rest) = (ClosedParToken, '')'') # scan rest"
    by (rule scan_symbol [OF stops_no_nul [OF assms(2)]]) (simp_all add: string2token_def isSpecialSymbol_def)
  have stop: "stops (CHR '')'' # rest)" by (simp add: stops_def isSpecialSymbol_def)
  then have join: "scan (strings_Join '','' vs @ CHR '')'' # rest) = list_items vs @ (ClosedParToken, '')'') # scan rest"
    using scan_join [OF assms(1)] close by simp
  have open_par: "scan (CHR ''('' # strings_Join '','' vs @ CHR '')'' # rest)
      = (OpenParToken, ''('') # list_items vs @ (ClosedParToken, '')'') # scan rest"
    unfolding join [symmetric]
    by (rule scan_symbol) (simp_all add: string2token_def isSpecialSymbol_def join_no_nul [OF assms(1)]
        stops_no_nul [OF stop])
  have space: "stops (CHR '' '' # r)" for r by (simp add: stops_def isWhitespace_def)
  show ?thesis
    using assms(3) open_par scan_word [OF word_in(1) space] scan_word [OF word_in(2) space]
    by (auto simp: operator_text_def operator_item_def scan_space word_item_in)
qed

lemma scan_exact_operator:
  assumes "words vs" "stops rest" "rest = [] \<or> hd rest \<noteq> CHR ''=''"
    and "op \<in> {Equals, DoubleEquals, NotEquals, GreaterThan, LessThan}"
  shows "scan (operator_text op @ strings_Join '','' vs @ rest) = operator_item op # list_items vs @ scan rest"
proof -
  have "strings_Join '','' vs @ rest = [] \<or> hd (strings_Join '','' vs @ rest) \<noteq> CHR ''=''"
  proof (cases vs)
    case (Cons v us)
    have "v = [] \<or> hd v \<noteq> CHR ''=''"
      using assms(1) Cons word_head [of v] by (auto simp: word_char_def isSpecialSymbol_def)
    then show ?thesis using Cons assms(3) by (cases v) (auto simp: strings_Join_Cons)
  qed (use assms(3) in simp)
  then show ?thesis
    using scan_operator [OF join_no_nul [OF assms(1) stops_no_nul [OF assms(2)]] _ assms(4)] scan_join [OF assms(1,2)]
    by simp
qed

lemma check_values_known: "check_values op vs = None \<Longrightarrow> op \<noteq> OtherOperator s"
  by (auto simp: check_values_def)

lemma scan_requirement:
  assumes "made_requirement r" "stops rest" "rest = [] \<or> hd rest \<noteq> CHR ''=''"
  shows "scan (requirement_String r @ rest) = requirement_items r @ scan rest"
proof -
  note r = made_requirementD [OF assms(1)]
  have known: "\<forall>s. r_operator r \<noteq> OtherOperator s" using check_values_known [OF r(5)] by blast
  consider "r_operator r = Exists" | "r_operator r = DoesNotExist" | "r_operator r = In \<or> r_operator r = NotIn"
    | "r_operator r \<in> {Equals, DoubleEquals, NotEquals, GreaterThan, LessThan}"
    using known by (cases "r_operator r") auto
  then show ?thesis
  proof cases
    case 1
    then show ?thesis using scan_word [OF r(1) assms(2)] by (simp add: requirement_String_def requirement_items_def)
  next
    case 2
    have "r_key r \<noteq> []" "hd (r_key r) \<noteq> CHR ''=''"
      using r(1) word_head [OF r(1)] by (auto simp: word_def word_char_def isSpecialSymbol_def)
    then have "scan (CHR ''!'' # r_key r @ rest) = (DoesNotExistToken, ''!'') # scan (r_key r @ rest)"
      by (intro scan_symbol) (use no_nul_append [OF word_no_nul [OF r(1)] stops_no_nul [OF assms(2)]] in
          \<open>auto simp: string2token_def isSpecialSymbol_def\<close>)
    then show ?thesis
      using 2 scan_word [OF r(1) assms(2)] by (simp add: requirement_String_def requirement_items_def)
  next
    case 3
    have "scan (r_key r @ operator_text (r_operator r) @ s) = word_item (r_key r) # scan (operator_text (r_operator r) @ s)" for s
      by (rule scan_word [OF r(1)]) (use 3 known in \<open>auto intro!: stops_operator\<close>)
    then show ?thesis
      using 3 scan_set_operator [OF r(2) assms(2) 3]
      unfolding requirement_String_def requirement_items_def Let_def values_text by auto
  next
    case 4
    have "scan (r_key r @ operator_text (r_operator r) @ s) = word_item (r_key r) # scan (operator_text (r_operator r) @ s)" for s
      by (rule scan_word [OF r(1)]) (use 4 known in \<open>auto intro!: stops_operator\<close>)
    then show ?thesis
      using 4 scan_exact_operator [OF r(2) assms(2,3) 4]
      unfolding requirement_String_def requirement_items_def Let_def values_text by auto
  qed
qed

subsection \<open>Parsing the items of a requirement\<close>

lemma parseIdentifiersList_items:
  "us \<noteq> [] \<Longrightarrow> (\<forall>u \<in> set us. word u) \<Longrightarrow>
     parseIdentifiersList s (list_items us @ (ClosedParToken, c) # p) = Parsed (s \<union> set us) ((ClosedParToken, c) # p)"
proof (induction us arbitrary: s)
  case (Cons u us)
  have u: "word u" "u \<noteq> []" using Cons(3) by (auto simp: word_def)
  have comma: "in_context Values (CommaToken, l) = (CommaToken, l)" "in_context Values (ClosedParToken, l) = (ClosedParToken, l)" for l
    by (simp_all add: in_context_def)
  show ?case
  proof (cases us)
    case Nil
    then show ?thesis using u by (simp add: parseIdentifiersList.simps(2) looking_def comma)
  next
    case (Cons w ws)
    then have w: "word w" "w \<noteq> []" using \<open>\<forall>u \<in> set (u # us). word u\<close> by (auto simp: word_def)
    have "parseIdentifiersList s (list_items (u # us) @ (ClosedParToken, c) # p)
        = parseIdentifiersList (insert u s) ((CommaToken, '','') # list_items us @ (ClosedParToken, c) # p)"
      using u Cons by (simp add: parseIdentifiersList.simps(2) looking_def comma)
    also have "\<dots> = parseIdentifiersList (insert u s) (list_items us @ (ClosedParToken, c) # p)"
      using w Cons by (simp add: parseIdentifiersList.simps(2) [of _ "(CommaToken, '','')"] looking_def comma)
    also have "\<dots> = Parsed (insert u s \<union> set us) ((ClosedParToken, c) # p)"
      using Cons.IH [of "insert u s"] \<open>us = w # ws\<close> \<open>\<forall>u \<in> set (u # us). word u\<close> by simp
    finally show ?thesis by simp
  qed
qed simp

lemma empty_value_first: "sorted (v # vs) \<Longrightarrow> distinct (v # vs) \<Longrightarrow> [] \<notin> set (vs :: string list)"
  by (cases v) auto

lemma parseValues_items:
  assumes "words vs" "sorted vs" "distinct vs" "vs \<noteq> []"
  shows "parseValues ((OpenParToken, o') # list_items vs @ (ClosedParToken, c) # p) = Parsed (set vs) p"
proof -
  have cx: "in_context Values (t, l) = (t, l)" if "t \<in> {CommaToken, ClosedParToken, OpenParToken}" for t l
    using that by (auto simp: in_context_def)
  obtain v us where vs: "vs = v # us" using assms(4) by (cases vs) auto
  have us: "\<forall>u \<in> set us. word u" using assms(1) empty_value_first [of v us] assms(2,3) by (auto simp: vs words_def)
  show ?thesis
  proof (cases "v = []")
    case False
    then have "parseIdentifiersList {} (list_items vs @ (ClosedParToken, c) # p) = Parsed (set vs) ((ClosedParToken, c) # p)"
      using parseIdentifiersList_items [of vs "{}"] assms(1) us vs by simp
    then show ?thesis using False assms(1) by (simp add: parseValues_def cx looking_def vs)
  next
    case True
    show ?thesis
    proof (cases us)
      case Nil
      then show ?thesis using True by (simp add: parseValues_def cx looking_def vs)
    next
      case (Cons w ws)
      then have w: "word w" "w \<noteq> []" using us by (auto simp: word_def)
      have "parseIdentifiersList {} (list_items vs @ (ClosedParToken, c) # p)
          = parseIdentifiersList {[]} (list_items us @ (ClosedParToken, c) # p)"
        using w Cons True by (simp add: vs parseIdentifiersList.simps(2) [of _ "(CommaToken, '','')"] looking_def cx)
      also have "\<dots> = Parsed (set vs) ((ClosedParToken, c) # p)"
        using parseIdentifiersList_items [of us "{[]}"] us Cons True by (simp add: vs insert_commute)
      finally show ?thesis using True Cons by (simp add: parseValues_def cx looking_def vs)
    qed
  qed
qed

text \<open>A requirement is followed by a comma or the end of the string.\<close>

definition follows :: "ScannedItem \<Rightarrow> bool" where
  "follows t \<longleftrightarrow> fst t = CommaToken \<or> fst t = EndOfStringToken"

lemma follows_context [simp]: "follows t \<Longrightarrow> in_context cx t = t"
  by (auto simp: follows_def in_context_def)

lemma parseExactValue_items:
  "v = [] \<or> word v \<Longrightarrow> follows t \<Longrightarrow> parseExactValue (list_items [v] @ t # p) = Parsed {v} (t # p)"
  by (erule disjE) (auto simp: parseExactValue_def looking_def case_prod_beta follows_def word_def)

lemma made_again:
  assumes "made_requirement r"
  shows "made (r_key r) (r_operator r) (set (r_strValues r)) p = Parsed r p"
  using made_requirementD(3,4) [OF assms] assms
  by (simp add: made_def made_requirement_def sorted_list_of_set.idem_if_sorted_distinct)

lemma made_is_made: "made key op vals p = Parsed r p' \<Longrightarrow> made_requirement r"
  by (auto simp: made_def made_requirement_def NewRequirement_Inr sorted_sort_id split: sum.splits)

lemma presult_bind_Parsed:
  "presult_bind res f = Parsed b p' \<longleftrightarrow> (\<exists>a p. res = Parsed a p \<and> f a p = Parsed b p')"
  by (cases res) auto

lemma parseRequirement_made: "parseRequirement p = Parsed r p' \<Longrightarrow> made_requirement r"
  by (auto simp: parseRequirement_def presult_bind_Parsed case_prod_beta split: if_splits dest: made_is_made)

lemma parseKey_items:
  assumes "validateLabelKey k = None" "follows t"
  shows "parseKeyAndInferOperator (word_item k # t # p) = Parsed (k, Exists) (t # p)"
    "parseKeyAndInferOperator ((DoesNotExistToken, l) # word_item k # t # p) = Parsed (k, DoesNotExist) (t # p)"
  using assms validateLabelKey_word [OF assms(1)]
  by (auto simp: parseKeyAndInferOperator_def infer_operator_def looking_def case_prod_beta follows_def in_context_def [of _ "(DoesNotExistToken, l)"])

lemma parseKey_operator:
  assumes "validateLabelKey k = None" "token_operator (fst t) \<noteq> None"
  shows "parseKeyAndInferOperator (word_item k # t # p) = Parsed (k, OtherOperator '''') (t # p)"
  using assms validateLabelKey_word [OF assms(1)]
  by (auto simp: parseKeyAndInferOperator_def infer_operator_def looking_def case_prod_beta token_operator_def)

lemma parseOperator_item:
  "op \<in> {In, NotIn, Equals, DoubleEquals, NotEquals, GreaterThan, LessThan} \<Longrightarrow>
     parseOperator (operator_item op # p) = Parsed op p \<and> token_operator (fst (operator_item op)) \<noteq> None"
  by (auto simp: parseOperator_def operator_item_def token_operator_def)

lemma check_values_count:
  assumes "check_values op vs = None"
  shows "op = Exists \<or> op = DoesNotExist \<Longrightarrow> vs = []"
    and "op = In \<or> op = NotIn \<Longrightarrow> vs \<noteq> []"
    and "op \<in> {Equals, DoubleEquals, NotEquals, GreaterThan, LessThan} \<Longrightarrow> \<exists>v. vs = [v]"
  using assms by (auto simp: check_values_def length_Suc_conv split: if_splits)

lemma parseRequirement_items:
  assumes "made_requirement r" "follows t"
  shows "parseRequirement (requirement_items r @ t # p) = Parsed r (t # p)"
proof -
  note r = made_requirementD [OF assms(1)] and again = made_again [OF assms(1)] and n = check_values_count [OF made_requirementD(5) [OF assms(1)]]
  have known: "\<forall>s. r_operator r \<noteq> OtherOperator s" using check_values_known [OF r(5)] by blast
  consider "r_operator r = Exists \<or> r_operator r = DoesNotExist" | "r_operator r = In \<or> r_operator r = NotIn"
    | "r_operator r \<in> {Equals, DoubleEquals, NotEquals, GreaterThan, LessThan}"
    using known by (cases "r_operator r") auto
  then show ?thesis
  proof cases
    case 1
    then have "made (r_key r) (r_operator r) {} q = Parsed r q" for q using again [of q] n(1) by simp
    then show ?thesis
      using 1 parseKey_items [OF r(6) assms(2)] by (auto simp: parseRequirement_def requirement_items_def)
  next
    case 2
    then have op: "parseOperator (operator_item (r_operator r) # q) = Parsed (r_operator r) q"
      "token_operator (fst (operator_item (r_operator r))) \<noteq> None" for q
      using parseOperator_item [of "r_operator r"] by auto
    show ?thesis
      using 2 parseKey_operator [OF r(6) op(2)] op(1) parseValues_items [OF r(2,3,4) n(2) [OF 2]] again
      by (auto simp: parseRequirement_def requirement_items_def)
  next
    case 3
    then have op: "parseOperator (operator_item (r_operator r) # q) = Parsed (r_operator r) q"
      "token_operator (fst (operator_item (r_operator r))) \<noteq> None" for q
      using parseOperator_item [of "r_operator r"] by auto
    obtain v where v: "r_strValues r = [v]" using n(3) [OF 3] by blast
    have "parseExactValue (list_items [v] @ t # p) = Parsed {v} (t # p)"
      using parseExactValue_items [of v t p] r(2) v assms(2) by simp
    moreover have "requirement_items r = [word_item (r_key r), operator_item (r_operator r)] @ list_items [v]"
      "\<not> (r_operator r = In \<or> r_operator r = NotIn)"
      using 3 by (auto simp: requirement_items_def v)
    ultimately show ?thesis
      using parseKey_operator [OF r(6) op(2)] op(1) again [of "t # p"] 3
      by (simp add: parseRequirement_def v del: list_items.simps)
  qed
qed

subsection \<open>Parsing a printed selector\<close>

fun selector_items :: "requirement list \<Rightarrow> ScannedItem list" where
  "selector_items [] = [(EndOfStringToken, '''')]"
| "selector_items (r # rs) =
     requirement_items r @ (if rs = [] then [(EndOfStringToken, '''')] else (CommaToken, '','') # selector_items rs)"

lemma scan_empty: "scan [] = [(EndOfStringToken, '''')]"
  by (simp add: scan.simps Lex_def)

lemma requirements_no_nul:
  assumes "made_requirement r"
  shows "no_nul (strings_Join '','' (map requirement_String (r # rs)))"
proof -
  obtain c s where "r_key r = c # s" "c \<noteq> CHR 0x00"
    using made_requirementD(1) [OF assms] by (cases "r_key r") (auto simp: word_def word_char_def)
  then show ?thesis by (auto simp: requirement_String_def no_nul_def Let_def strings_Join_Cons)
qed

lemma scan_selector:
  "(\<forall>r \<in> set rs. made_requirement r) \<Longrightarrow> scan (selector_String (InternalSelector rs)) = selector_items rs"
proof (induction rs)
  case (Cons r rs)
  show ?case
  proof (cases rs)
    case Nil
    then show ?thesis using Cons(2) scan_requirement [of r "[]"] by (simp add: stops_def scan_empty)
  next
    case (Cons r' rs')
    let ?rest = "strings_Join '','' (map requirement_String rs)"
    have "no_nul ?rest" using requirements_no_nul [of r' rs'] Cons.prems Cons by simp
    then have "scan (CHR '','' # ?rest) = (CommaToken, '','') # selector_items rs"
      using Cons.IH Cons.prems by (simp add: scan_comma)
    then show ?thesis
      using scan_requirement [of r "CHR '','' # ?rest"] Cons.prems Cons
      by (simp add: stops_def isSpecialSymbol_def strings_Join_Cons)
  qed
qed (simp add: scan_empty)

lemma parse_loop_items:
  "rs \<noteq> [] \<Longrightarrow> (\<forall>r \<in> set rs. made_requirement r) \<Longrightarrow> parse_loop acc (selector_items rs) = Parsed (acc @ rs) []"
proof (induction rs arbitrary: acc)
  case (Cons r rs)
  have first: "\<exists>i p'. requirement_items r' @ p = i # p' \<and> fst (in_context Values i) \<in> {IdentifierToken, DoesNotExistToken}"
    if "made_requirement r'" for r' p
    using word_item_value [OF made_requirementD(1) [OF that]]
    by (cases "word_item (r_key r')") (auto simp: requirement_items_def Let_def)
  have step: "parse_loop acc (requirement_items r @ t # p) =
      (if fst t = EndOfStringToken then Parsed (acc @ [r]) p
       else looking Values p (\<lambda>t2. if fst t2 \<noteq> IdentifierToken \<and> fst t2 \<noteq> DoesNotExistToken
              then Failed (Found (snd t2) ''identifier after ,'') else parse_loop (acc @ [r]) p))" if "follows t" for t p
  proof -
    obtain i p' where i: "requirement_items r @ t # p = i # p'"
      "fst (in_context Values i) \<in> {IdentifierToken, DoesNotExistToken}"
      using first [of r "t # p"] Cons.prems by auto
    have "parseRequirement (i # p') = Parsed r (t # p)"
      using parseRequirement_items [of r t p] Cons.prems that i(1) by simp
    then show ?thesis
      using i(2) that unfolding i(1)
      by (subst parse_loop.simps) (auto simp: looking_def follows_def)
  qed
  show ?case
  proof (cases rs)
    case Nil
    then show ?thesis using step [of "(EndOfStringToken, '''')" "[]"] by (simp add: follows_def)
  next
    case (Cons r' rs')
    obtain i p' where i: "selector_items rs = i # p'" "fst (in_context Values i) \<in> {IdentifierToken, DoesNotExistToken}"
      using first [of r'] Cons Cons.prems by fastforce
    have "parse_loop (acc @ [r]) (selector_items rs) = Parsed (acc @ r # rs) []"
      using Cons.IH [of "acc @ [r]"] Cons Cons.prems by simp
    then show ?thesis
      using step [of "(CommaToken, '','')" "selector_items rs"] i Cons by (auto simp: follows_def looking_def)
  qed
qed simp

lemma selector_parse_printed:
  assumes "\<forall>r \<in> set rs. made_requirement r"
  shows "Parse srt (selector_String (InternalSelector rs)) = Some (Inr (InternalSelector (srt rs)))"
proof (cases "rs = []")
  case True
  have "parse_loop [] [(EndOfStringToken, '''')] = Parsed [] [(EndOfStringToken, '''')]"
    by (subst parse_loop.simps) (simp add: looking_def in_context_def)
  then show ?thesis by (simp add: True Parse_def selector_parse_def scan_empty)
next
  case False
  then show ?thesis
    using scan_selector [OF assms] parse_loop_items [OF False assms, of "[]"]
    by (simp add: Parse_def selector_parse_def del: selector_String.simps)
qed

lemma parse_loop_made:
  "parse_loop acc p = Parsed rs p' \<Longrightarrow> \<forall>r \<in> set acc. made_requirement r \<Longrightarrow> \<forall>r \<in> set rs. made_requirement r"
proof (induction p arbitrary: acc rule: length_induct)
  case (1 p)
  obtain item q where p: "p = item # q"
    using 1(2) by (cases p) (simp_all add: parse_loop.simps looking_def)
  show ?case
  proof (cases "parseRequirement p")
    case (Parsed r p1)
    have r: "made_requirement r" by (rule parseRequirement_made [OF Parsed])
    have IH: "parse_loop (acc @ [r]) p2 = Parsed rs p' \<Longrightarrow> \<forall>r \<in> set rs. made_requirement r" if "p1 = i # p2" for i p2
      using 1(1) [rule_format, of p2 "acc @ [r]"] 1(3) r parseRequirement_length [OF Parsed] that by auto
    show ?thesis
      using 1(2,3) r Parsed IH unfolding parse_loop.simps [of acc p]
      by (cases p1) (auto simp: p looking_def split: if_splits option.splits)
  qed (use 1(2,3) in \<open>auto simp: parse_loop.simps [of acc "item # q"] p looking_def split: if_splits\<close>)
qed

lemma Parse_made:
  assumes "by_key_sorter srt" "Parse srt s = Some (Inr sel)"
  shows "\<exists>rs. sel = InternalSelector rs \<and> sorted (map r_key rs) \<and> (\<forall>r \<in> set rs. made_requirement r)"
proof (cases "parse_loop [] (scan s)")
  case (Parsed rs p)
  then have sel: "sel = InternalSelector (srt rs)" using assms(2) by (simp add: Parse_def selector_parse_def)
  have "set (srt rs) = set rs" using assms(1) by (metis by_key_sorter_def set_mset_mset)
  then show ?thesis
    using sel assms(1) parse_loop_made [OF Parsed] by (auto simp: by_key_sorter_def)
qed (use assms(2) in \<open>auto simp: Parse_def selector_parse_def\<close>)

lemma sorter_unique:
  assumes "by_key_sorter srt" "mset rs = mset rs'" "sorted (map r_key rs)" "distinct (map r_key rs)"
  shows "srt rs' = rs"
proof -
  have m: "mset (srt rs') = mset rs" "sorted (map r_key (srt rs'))"
    using assms(1,2) by (auto simp: by_key_sorter_def)
  have "set (srt rs') = set rs" using m(1) by (metis set_mset_mset)
  moreover have "distinct (map r_key (srt rs'))"
    using m(1) assms(4) by (metis mset_map mset_eq_imp_distinct_iff)
  ultimately show ?thesis
    using m(2) assms(3,4) by (intro map_sorted_distinct_set_unique [of r_key]) (auto simp: distinct_map)
qed

subsection \<open>Sets of labels as selectors\<close>

definition valid_labels :: "labels \<Rightarrow> bool" where
  "valid_labels ls \<longleftrightarrow> (\<forall>k v. ls k = Some v \<longrightarrow> validateLabelKey k = None \<and> validateLabelValue v = None)"

definition label_requirement :: "labels \<Rightarrow> string \<Rightarrow> requirement" where
  "label_requirement ls k = \<lparr>r_key = k, r_operator = Equals, r_strValues = [labels_Get ls k]\<rparr>"

definition label_text :: "labels \<Rightarrow> string \<Rightarrow> string" where
  "label_text ls k = k @ ''='' @ labels_Get ls k"

lemma NewRequirement_label:
  "NewRequirement k Equals [labels_Get ls k] = Inr r \<longleftrightarrow>
     validateLabelKey k = None \<and> validateLabelValue (labels_Get ls k) = None \<and> r = label_requirement ls k"
  by (auto simp: NewRequirement_Inr check_values_def label_requirement_def)

lemma set_requirements_valid:
  "(\<forall>k \<in> set ks. validateLabelKey k = None \<and> validateLabelValue (labels_Get ls k) = None) \<Longrightarrow>
     set_requirements ks ls reqs = Some (reqs @ map (label_requirement ls) ks)"
proof (induction ks arbitrary: reqs)
  case (Cons k ks)
  then have "NewRequirement k Equals [labels_Get ls k] = Inr (label_requirement ls k)"
    by (simp add: NewRequirement_label)
  then show ?case using Cons by simp
qed simp

lemma set_requirements_invalid:
  "k \<in> set ks \<Longrightarrow> validateLabelKey k \<noteq> None \<or> validateLabelValue (labels_Get ls k) \<noteq> None \<Longrightarrow>
     set_requirements ks ls reqs = None"
  by (induction ks arbitrary: reqs) (auto simp: NewRequirement_label split: sum.splits)

lemma valid_labels_order:
  "valid_labels ls \<Longrightarrow> iter_order ls ks \<Longrightarrow>
     \<forall>k \<in> set ks. validateLabelKey k = None \<and> validateLabelValue (labels_Get ls k) = None"
  by (auto simp: valid_labels_def iter_order_def labels_Get_def split: option.splits)

lemma SelectorFromSet_valid:
  "valid_labels ls \<Longrightarrow> iter_order ls ks \<Longrightarrow>
     SelectorFromSet srt ks ls = InternalSelector (srt (map (label_requirement ls) ks))"
  by (simp add: SelectorFromSet_def set_requirements_valid [OF valid_labels_order])

lemma label_requirement_Matches:
  "ls k = Some v \<Longrightarrow> requirement_Matches (label_requirement ls k) l \<longleftrightarrow> l k = Some v"
  by (auto simp: requirement_Matches_def label_requirement_def hasValue_def labels_Has_def labels_Get_def split: option.splits)

lemma sorter_set: "by_key_sorter srt \<Longrightarrow> set (srt rs) = set rs"
  by (metis by_key_sorter_def set_mset_mset)

lemma label_selector_Matches:
  assumes "by_key_sorter srt" "iter_order ls ks"
  shows "selector_Matches (InternalSelector (srt (map (label_requirement ls) ks))) l \<longleftrightarrow> ls \<subseteq>\<^sub>m l"
proof -
  have "selector_Matches (InternalSelector (srt (map (label_requirement ls) ks))) l
      \<longleftrightarrow> (\<forall>k \<in> dom ls. requirement_Matches (label_requirement ls k) l)"
    using assms by (simp add: list_all_iff sorter_set iter_order_def)
  also have "\<dots> \<longleftrightarrow> ls \<subseteq>\<^sub>m l"
    unfolding map_le_def by (rule ball_cong) (auto simp: label_requirement_Matches)
  finally show ?thesis .
qed

lemma label_requirement_made:
  "validateLabelKey k = None \<Longrightarrow> validateLabelValue (labels_Get ls k) = None \<Longrightarrow> made_requirement (label_requirement ls k)"
  by (simp add: made_requirement_def NewRequirement_Inr label_requirement_def check_values_def)

lemma label_requirement_String: "requirement_String (label_requirement ls k) = label_text ls k"
  by (simp add: requirement_String_def label_requirement_def label_text_def operator_text_def)

lemma sort_map: "sort (map f xs) = map f (sort_key f xs)"
  by (rule properties_for_sort) simp_all

lemma sort_key_Nil: "sort_key f xs = [] \<longleftrightarrow> xs = []"
  by (metis length_0_conv length_sort)

lemma Set_String_selector:
  "Set_String ks ls = selector_String (InternalSelector (map (label_requirement ls) (sort_key (label_text ls) ks)))"
proof -
  have "Set_String ks ls = strings_Join '','' (map (label_text ls) (sort_key (label_text ls) ks))"
    unfolding Set_String_def sort_map [symmetric] by (simp add: label_text_def [abs_def])
  then show ?thesis by (simp add: label_requirement_String comp_def)
qed

lemma Set_String_parses:
  assumes "by_key_sorter srt" "valid_labels ls" "iter_order ls ks"
  shows "Parse srt (Set_String ks ls) = Some (Inr (SelectorFromSet srt ks ls))"
proof -
  let ?rs = "map (label_requirement ls) (sort_key (label_text ls) ks)"
  have "\<forall>r \<in> set ?rs. made_requirement r"
    using valid_labels_order [OF assms(2,3)] label_requirement_made by auto
  then have "Parse srt (Set_String ks ls) = Some (Inr (InternalSelector (srt ?rs)))"
    unfolding Set_String_selector by (rule selector_parse_printed)
  moreover have "srt ?rs = srt (map (label_requirement ls) ks)"
  proof (rule sorter_unique [OF assms(1)])
    show "mset (srt (map (label_requirement ls) ks)) = mset ?rs"
      using assms(1) by (simp add: by_key_sorter_def)
    show "sorted (map r_key (srt (map (label_requirement ls) ks)))" using assms(1) by (simp add: by_key_sorter_def)
    have "mset (map r_key (srt (map (label_requirement ls) ks))) = mset (map r_key (map (label_requirement ls) ks))"
      using assms(1) unfolding mset_map by (simp add: by_key_sorter_def)
    also have "map r_key (map (label_requirement ls) ks) = ks" by (simp add: label_requirement_def comp_def)
    finally show "distinct (map r_key (srt (map (label_requirement ls) ks)))"
      using assms(3) by (metis iter_order_def mset_eq_imp_distinct_iff)
  qed
  ultimately show ?thesis by (simp add: SelectorFromSet_valid [OF assms(2,3)])
qed

text \<open>Splitting and trimming a printed set.\<close>

lemma strings_Split_join:
  "xs \<noteq> [] \<Longrightarrow> (\<forall>x \<in> set xs. c \<notin> set x) \<Longrightarrow> strings_Split c (strings_Join [c] xs) = xs"
proof (induction xs)
  case (Cons x xs)
  then show ?case by (cases "xs = []") (simp_all add: strings_Join_Cons strings_Split_plain strings_Split_once)
qed simp

lemma word_chars: "word w \<Longrightarrow> c \<in> set w \<Longrightarrow> word_char c"
  by (auto simp: word_def list_all_iff)

lemma label_text_split:
  assumes "word k" "v = [] \<or> word v"
  shows "strings_Split (CHR ''='') (k @ ''='' @ v) = [k, v]" "CHR '','' \<notin> set (k @ ''='' @ v)"
proof -
  have "word_char c \<Longrightarrow> c \<noteq> CHR ''='' \<and> c \<noteq> CHR '',''" for c by (auto simp: word_char_def isSpecialSymbol_def)
  then have "CHR ''='' \<notin> set k" "CHR '','' \<notin> set k" "CHR ''='' \<notin> set v" "CHR '','' \<notin> set v"
    using assms word_chars by fastforce+
  then show "strings_Split (CHR ''='') (k @ ''='' @ v) = [k, v]" "CHR '','' \<notin> set (k @ ''='' @ v)"
    by (simp_all add: strings_Split_once strings_Split_plain)
qed

lemma drop_spaces_none: "List.find (\<lambda>w. take (length w) s = w) ws = None \<Longrightarrow> drop_spaces n ws s = s"
  by (cases n) simp_all

lemma qnameChar_not_space:
  "qnameChar c \<Longrightarrow> \<forall>w \<in> set white_space. w \<noteq> [] \<and> hd w \<noteq> c \<and> last w \<noteq> c"
  by (auto simp: white_space_def qnameChar_def is_upper_def is_lower_def is_digit_def between_def)

lemma TrimSpace_id:
  assumes "s = [] \<or> qnameChar (hd s) \<and> qnameChar (last s)"
  shows "TrimSpace s = s"
proof (cases "s = []")
  case False
  have one: "List.find (\<lambda>w. take (length w) s = w) ws = None" if "\<forall>w \<in> set ws. w \<noteq> [] \<and> hd w \<noteq> hd s" "s \<noteq> []"
    for ws and s :: string
  proof -
    have "take (length w) s \<noteq> w" if "w \<in> set ws" for w
      using \<open>\<forall>w \<in> set ws. w \<noteq> [] \<and> hd w \<noteq> hd s\<close> that \<open>s \<noteq> []\<close> by (cases w; cases s) auto
    then show ?thesis by (auto simp: find_None_iff)
  qed
  have "List.find (\<lambda>w. take (length w) s = w) white_space = None"
    using qnameChar_not_space [of "hd s"] assms False by (intro one) auto
  moreover have "List.find (\<lambda>w. take (length w) (rev s) = w) (map rev white_space) = None"
    using qnameChar_not_space [of "last s"] assms False by (intro one) (auto simp: hd_rev)
  ultimately show ?thesis by (simp add: TrimSpace_def drop_spaces_none)
qed (simp add: TrimSpace_def)

lemma strings_Split_hd: "strings_Split c s = u # us \<Longrightarrow> u \<noteq> [] \<Longrightarrow> s \<noteq> [] \<and> hd s = hd u"
  by (cases s) (auto split: if_splits list.splits)

lemma strings_Split_one: "strings_Split c s = [n] \<Longrightarrow> s = n"
  using strings_Split_cases [of c s] strings_Split_nonempty [symmetric] by auto

lemma strings_Split_two: "strings_Split c s = [p, n] \<Longrightarrow> s = p @ c # n"
  using strings_Split_cases [of c s] by (auto dest: strings_Split_one [OF sym])

lemma validateLabelKey_ends:
  assumes "validateLabelKey k = None"
  shows "qnameChar (hd k) \<and> qnameChar (last k)"
proof -
  have "IsQualifiedName k = []" using assms by (simp add: validateLabelKey_def Let_def split: if_splits)
  note ok = this [unfolded IsQualifiedName_accepts]
  have dns: "dnsChar c \<Longrightarrow> qnameChar c" for c by (auto simp: dnsChar_def qnameChar_def)
  from ok consider n where "strings_Split (CHR ''/'') k = [n]" "valid_name n"
    | p n where "strings_Split (CHR ''/'') k = [p, n]" "valid_name n"
        "list_all (framed dnsChar dnsExtChar) (strings_Split (CHR ''.'') p)"
    by (auto split: list.splits)
  then show ?thesis
  proof cases
    case (1 n)
    then show ?thesis using strings_Split_one [OF 1(1)] by (auto simp: valid_name_def framed_def)
  next
    case (2 p n)
    obtain u us where u: "strings_Split (CHR ''.'') p = u # us" by (cases "strings_Split (CHR ''.'') p") auto
    have f: "framed dnsChar dnsExtChar u" using 2(3) u by simp
    then have "p \<noteq> []" "hd p = hd u" using strings_Split_hd [OF u] by (auto simp: framed_def)
    then show ?thesis
      using f dns strings_Split_two [OF 2(1)] 2(2) by (auto simp: valid_name_def framed_def)
  qed
qed

lemma validateLabelValue_ends:
  "validateLabelValue v = None \<Longrightarrow> v = [] \<or> qnameChar (hd v) \<and> qnameChar (last v)"
  by (auto simp: validateLabelValue_def Let_def IsValidLabelValue_accepts framed_def split: if_splits)

lemma convert_loop_labels:
  "(\<forall>k \<in> set ks. validateLabelKey k = None \<and> validateLabelValue (labels_Get ls k) = None) \<Longrightarrow>
     convert_loop (map (label_text ls) ks) m = (None, \<lambda>k. if k \<in> set ks then Some (labels_Get ls k) else m k)"
proof (induction ks arbitrary: m)
  case (Cons k ks)
  then have k: "validateLabelKey k = None" "validateLabelValue (labels_Get ls k) = None" by simp_all
  have "TrimSpace k = k" "TrimSpace (labels_Get ls k) = labels_Get ls k"
    using TrimSpace_id validateLabelKey_ends [OF k(1)] validateLabelValue_ends [OF k(2)] by blast+
  moreover have "strings_Split (CHR ''='') (label_text ls k) = [k, labels_Get ls k]"
    unfolding label_text_def
    by (rule label_text_split(1) [OF validateLabelKey_word [OF k(1)] validateLabelValue_word [OF k(2)]])
  ultimately show ?case using Cons k by (auto simp: fun_eq_iff)
qed simp

lemma Set_String_converts:
  assumes "valid_labels ls" "iter_order ls ks"
  shows "ConvertSelectorToLabelsMap (Set_String ks ls) = (None, ls)"
proof (cases "ks = []")
  case True
  then show ?thesis using assms(2)
    by (auto simp: ConvertSelectorToLabelsMap_def Set_String_def iter_order_def fun_eq_iff dom_def)
next
  case False
  let ?ks = "sort_key (label_text ls) ks"
  note ok = valid_labels_order [OF assms]
  have printed: "Set_String ks ls = strings_Join '','' (map (label_text ls) ?ks)"
    unfolding sort_map [symmetric] by (simp add: Set_String_def label_text_def [abs_def])
  have "CHR '','' \<notin> set (label_text ls k)" if "k \<in> set ks" for k
    unfolding label_text_def
    by (rule label_text_split(2) [OF validateLabelKey_word validateLabelValue_word]) (use ok that in auto)
  then have "strings_Split (CHR '','') (Set_String ks ls) = map (label_text ls) ?ks"
    unfolding printed using False by (intro strings_Split_join) (auto simp: sort_key_Nil)
  moreover have "Set_String ks ls \<noteq> []"
  proof -
    obtain k ks' where "?ks = k # ks'" using False sort_key_Nil by (cases ?ks) blast+
    then show ?thesis by (simp add: printed strings_Join_Cons label_text_def)
  qed
  ultimately have "ConvertSelectorToLabelsMap (Set_String ks ls)
      = (None, \<lambda>k. if k \<in> set ks then Some (labels_Get ls k) else None)"
    using convert_loop_labels [of ?ks ls Map.empty] ok by (simp add: ConvertSelectorToLabelsMap_def)
  also have "(\<lambda>k. if k \<in> set ks then Some (labels_Get ls k) else None) = ls"
    using assms(2) by (auto simp: fun_eq_iff iter_order_def labels_Get_def split: option.splits)
  finally show ?thesis .
qed

text \<open>Operations on two sets.\<close>

lemma conflict_loop_iff:
  "conflict_loop ks small big \<longleftrightarrow> (\<exists>k \<in> set ks. \<exists>v. big k = Some v \<and> small k \<noteq> Some v)"
  by (induction ks) (auto split: option.splits)

lemma put_all_apply: "put_all ks ls m = (\<lambda>k. if k \<in> set ks then ls k else m k)"
  by (induction ks arbitrary: m) (auto simp: put_all_def fun_eq_iff)

lemma map_le_card_eq:
  assumes "m \<subseteq>\<^sub>m m'" "card (dom m) = card (dom m')" "finite (dom m')"
  shows "m = m'"
proof -
  have "dom m = dom m'"
    by (rule card_subset_eq [OF assms(3) map_le_implies_dom_le [OF assms(1)] assms(2)])
  then have "m' \<subseteq>\<^sub>m m" using assms(1) by (auto simp: map_le_def)
  then show ?thesis by (rule map_le_antisym [OF assms(1)])
qed

lemma all_in_iff: "iter_order ls ks \<Longrightarrow> all_in ks ls ls' \<longleftrightarrow> ls \<subseteq>\<^sub>m ls'"
  by (auto simp: all_in_def list_all_iff iter_order_def map_le_def dom_def)

subsection \<open>Properties\<close>

text \<open>
  C12. Parsing a selector always ends, with a selector or with an error: no input makes the parser
  read an item that is not there. A parsed selector is sorted by key, and each of its requirements
  is one that \<^verbatim>\<open>NewRequirement\<close> accepts and gives back unchanged, with its values sorted and without
  duplicates.
\<close>

theorem selector_parser_total:
  assumes "by_key_sorter srt"
  shows "\<exists>res. Parse srt selector = Some res
    \<and> (\<forall>sel. res = Inr sel \<longrightarrow> (\<exists>rs. sel = InternalSelector rs \<and> sorted (map r_key rs) \<and> (\<forall>r \<in> set rs.
          NewRequirement (r_key r) (r_operator r) (r_strValues r) = Inr r
          \<and> sorted (r_strValues r) \<and> distinct (r_strValues r))))"
proof -
  obtain res where res: "Parse srt selector = Some res"
    using parse_loop_total [OF scan_terminated, of "[]" selector]
    by (cases "parse_loop [] (scan selector)") (auto simp: Parse_def selector_parse_def)
  moreover have "\<exists>rs. sel = InternalSelector rs \<and> sorted (map r_key rs) \<and> (\<forall>r \<in> set rs.
      NewRequirement (r_key r) (r_operator r) (r_strValues r) = Inr r
      \<and> sorted (r_strValues r) \<and> distinct (r_strValues r))" if "res = Inr sel" for sel
    using Parse_made [OF assms, of selector sel] res that made_requirementD(3) by (fastforce simp: made_requirement_def)
  ultimately show ?thesis by blast
qed

theorem selector_parser_total_witness:
  "by_key_sorter (sort_key r_key) \<and> Parse (sort_key r_key) ''x in (b,,a)'' =
     Some (Inr (InternalSelector [\<lparr>r_key = ''x'', r_operator = In, r_strValues = ['''', ''a'', ''b'']\<rparr>]))
   \<and> (\<exists>e. Parse (sort_key r_key) ''x=(a)'' = Some (Inl e)) \<and> (\<exists>res. Parse (sort_key r_key) '','' = Some res)"
proof (intro conjI)
  show srt: "by_key_sorter (sort_key r_key)" by (simp add: by_key_sorter_def)
  show "Parse (sort_key r_key) ''x in (b,,a)'' =
     Some (Inr (InternalSelector [\<lparr>r_key = ''x'', r_operator = In, r_strValues = ['''', ''a'', ''b'']\<rparr>]))" by code_simp
  have "Parse (sort_key r_key) ''x=(a)'' = Some (Inl (UnableToParse (Found ''('' ''identifier'')))" by code_simp
  then show "\<exists>e. Parse (sort_key r_key) ''x=(a)'' = Some (Inl e)" by blast
  show "\<exists>res. Parse (sort_key r_key) '','' = Some res" using selector_parser_total [OF srt, of "'',''"] by blast
qed

text \<open>
  C11. Printing a parsed selector and parsing the text again gives its requirements back: the same
  ones, and the same selector when no key occurs twice (the order of requirements on one key is the
  one thing that sorting by key does not fix).
\<close>

theorem selector_roundtrip:
  assumes "by_key_sorter srt" "Parse srt text = Some (Inr sel)"
  shows "\<exists>rs rs'. sel = InternalSelector rs
    \<and> Parse srt (selector_String sel) = Some (Inr (InternalSelector rs')) \<and> mset rs' = mset rs
    \<and> (distinct (map r_key rs) \<longrightarrow> rs' = rs)"
proof -
  obtain rs where rs: "sel = InternalSelector rs" "sorted (map r_key rs)" "\<forall>r \<in> set rs. made_requirement r"
    using Parse_made [OF assms] by blast
  have "Parse srt (selector_String sel) = Some (Inr (InternalSelector (srt rs)))"
    unfolding rs(1) by (rule selector_parse_printed [OF rs(3)])
  moreover have "mset (srt rs) = mset rs" using assms(1) by (simp add: by_key_sorter_def)
  moreover have "distinct (map r_key rs) \<longrightarrow> srt rs = rs" using sorter_unique [OF assms(1) refl rs(2)] by blast
  ultimately show ?thesis using rs(1) by blast
qed

theorem selector_roundtrip_witness:
  "\<exists>rs rs'. Parse (sort_key r_key) '' y notin (in,) , !x '' = Some (Inr (InternalSelector rs))
    \<and> selector_String (InternalSelector rs) = ''!x,y notin (,in)''
    \<and> Parse (sort_key r_key) ''!x,y notin (,in)'' = Some (Inr (InternalSelector rs')) \<and> mset rs' = mset rs"
proof -
  let ?rs = "[\<lparr>r_key = ''x'', r_operator = DoesNotExist, r_strValues = []\<rparr>,
    \<lparr>r_key = ''y'', r_operator = NotIn, r_strValues = ['''', ''in'']\<rparr>]"
  have srt: "by_key_sorter (sort_key r_key)" by (simp add: by_key_sorter_def)
  have parsed: "Parse (sort_key r_key) '' y notin (in,) , !x '' = Some (Inr (InternalSelector ?rs))" by code_simp
  have printed: "selector_String (InternalSelector ?rs) = ''!x,y notin (,in)''" by code_simp
  show ?thesis using selector_roundtrip [OF srt parsed] parsed printed by auto
qed

text \<open>
  C31. The text of a valid set of labels means the set: parsing it as a selector gives the selector
  made of the set, and \<^verbatim>\<open>ConvertSelectorToLabelsMap\<close> gives the set itself.
\<close>

theorem set_text_means_set:
  assumes "by_key_sorter srt" "valid_labels ls" "iter_order ls ks"
  shows "Parse srt (Set_String ks ls) = Some (Inr (SelectorFromSet srt ks ls))
    \<and> ConvertSelectorToLabelsMap (Set_String ks ls) = (None, ls)"
  using Set_String_parses [OF assms] Set_String_converts [OF assms(2,3)] by blast

theorem set_text_means_set_witness:
  "valid_labels [''b'' \<mapsto> ''1'', ''x.y/a'' \<mapsto> ''''] \<and> Set_String [''x.y/a'', ''b''] [''b'' \<mapsto> ''1'', ''x.y/a'' \<mapsto> ''''] = ''b=1,x.y/a=''
   \<and> Parse (sort_key r_key) ''b=1,x.y/a='' =
       Some (Inr (SelectorFromSet (sort_key r_key) [''x.y/a'', ''b''] [''b'' \<mapsto> ''1'', ''x.y/a'' \<mapsto> '''']))
   \<and> ConvertSelectorToLabelsMap ''b=1,x.y/a='' = (None, [''b'' \<mapsto> ''1'', ''x.y/a'' \<mapsto> ''''])"
proof -
  let ?ls = "[''b'' \<mapsto> ''1'', ''x.y/a'' \<mapsto> '''']"
  have srt: "by_key_sorter (sort_key r_key)" by (simp add: by_key_sorter_def)
  have keys: "validateLabelKey ''b'' = None" "validateLabelKey ''x.y/a'' = None"
    "validateLabelValue ''1'' = None" "validateLabelValue '''' = None" by code_simp+
  then have valid: "valid_labels ?ls" by (auto simp: valid_labels_def split: if_splits)
  have ord: "iter_order ?ls [''x.y/a'', ''b'']" by (auto simp: iter_order_def)
  have printed: "Set_String [''x.y/a'', ''b''] ?ls = ''b=1,x.y/a=''" by code_simp
  show ?thesis using set_text_means_set [OF srt valid ord] valid unfolding printed by blast
qed

text \<open>
  The selector of a valid set of labels selects the objects that have these labels: the set is
  contained in the labels of the object. The selector built without validation is the same one.
\<close>

theorem set_selector_matches:
  assumes "by_key_sorter srt" "valid_labels ls" "iter_order ls ks"
  shows "(selector_Matches (SelectorFromSet srt ks ls) l \<longleftrightarrow> ls \<subseteq>\<^sub>m l)
    \<and> SelectorFromValidatedSet srt ks ls = SelectorFromSet srt ks ls"
  using label_selector_Matches [OF assms(1,3)]
  by (simp add: SelectorFromSet_valid [OF assms(2,3)] SelectorFromValidatedSet_def label_requirement_def [abs_def])

theorem set_selector_matches_witness:
  "selector_Matches (SelectorFromSet (sort_key r_key) [''app''] [''app'' \<mapsto> ''web'']) [''tier'' \<mapsto> ''1'', ''app'' \<mapsto> ''web'']
   \<and> \<not> selector_Matches (SelectorFromSet (sort_key r_key) [''app''] [''app'' \<mapsto> ''web'']) [''tier'' \<mapsto> ''1'']"
proof -
  have srt: "by_key_sorter (sort_key r_key)" by (simp add: by_key_sorter_def)
  have "validateLabelKey ''app'' = None" "validateLabelValue ''web'' = None" by code_simp+
  then have valid: "valid_labels [''app'' \<mapsto> ''web'']" by (auto simp: valid_labels_def split: if_splits)
  have ord: "iter_order [''app'' \<mapsto> ''web''] [''app'']" by (auto simp: iter_order_def)
  show ?thesis
    using set_selector_matches [OF srt valid ord, of "[''tier'' \<mapsto> ''1'', ''app'' \<mapsto> ''web'']"]
      set_selector_matches [OF srt valid ord, of "[''tier'' \<mapsto> ''1'']"]
    by (simp add: map_le_def)
qed

text \<open>
  C32. One label that is not valid, anywhere in the set, turns the selector made of the set into the
  selector of everything: it matches every object, and not those that have the labels of the set.
\<close>

theorem invalid_set_selects_all:
  assumes "iter_order ls ks" "ls k = Some v" "validateLabelKey k \<noteq> None \<or> validateLabelValue v \<noteq> None"
  shows "SelectorFromSet srt ks ls = Everything \<and> selector_Matches (SelectorFromSet srt ks ls) l"
proof -
  have "k \<in> set ks" "labels_Get ls k = v" using assms(1,2) by (auto simp: iter_order_def labels_Get_def)
  then show ?thesis
    using set_requirements_invalid [of k ks ls "[]"] assms(3) by (simp add: SelectorFromSet_def Everything_def)
qed

theorem invalid_set_selects_all_witness:
  "validateLabelValue ''no spaces'' \<noteq> None \<and> \<not> [''app'' \<mapsto> ''no spaces''] \<subseteq>\<^sub>m Map.empty
   \<and> selector_Matches (SelectorFromSet (sort_key r_key) [''app''] [''app'' \<mapsto> ''no spaces'']) Map.empty"
proof -
  have bad: "validateLabelValue ''no spaces'' \<noteq> None" by code_simp
  have ord: "iter_order [''app'' \<mapsto> ''no spaces''] [''app'']" by (auto simp: iter_order_def)
  show ?thesis
    using invalid_set_selects_all [OF ord, of "''app''" "''no spaces''"] bad by (simp add: map_le_def Everything_def)
qed

text \<open>
  The operations on two sets of labels, whatever the order of the ranges over the maps: there is
  a conflict exactly when some key has two values, and the answer does not depend on which set is
  given first; without conflict the order of a merge does not matter, and the second set always
  wins; equality is equality of the maps; a set is in a white list when the list is empty or
  contains it.
\<close>

theorem label_sets_correct:
  assumes "iter_order a ks" "iter_order b js"
  shows "(Conflicts ks js a b \<longleftrightarrow> (\<exists>k v w. a k = Some v \<and> b k = Some w \<and> v \<noteq> w))
    \<and> Conflicts js ks b a = Conflicts ks js a b \<and> Merge ks js a b = a ++ b
    \<and> (\<not> Conflicts ks js a b \<longrightarrow> Merge js ks b a = Merge ks js a b)
    \<and> (labels_Equals ks a b \<longleftrightarrow> a = b) \<and> (AreLabelsInWhiteList ks a b \<longleftrightarrow> b = Map.empty \<or> a \<subseteq>\<^sub>m b)"
proof -
  have c: "Conflicts ls ms x y \<longleftrightarrow> (\<exists>k v w. x k = Some v \<and> y k = Some w \<and> v \<noteq> w)"
    if "iter_order x ls" "iter_order y ms" for x y ls ms
    using that by (auto simp: Conflicts_def conflict_loop_iff iter_order_def dom_def)
  have m: "Merge ls ms x y = x ++ y" if "iter_order x ls" "iter_order y ms" for x y ls ms
    using that by (auto simp: Merge_def put_all_apply fun_eq_iff iter_order_def map_add_def split: option.splits)
  have fin: "finite (dom b)" using assms(2) by (rule iter_order_finite)
  have "labels_Equals ks a b \<longleftrightarrow> a = b"
    using all_in_iff [OF assms(1), of b] map_le_card_eq [of a b] fin by (auto simp: labels_Equals_def)
  moreover have "AreLabelsInWhiteList ks a b \<longleftrightarrow> b = Map.empty \<or> a \<subseteq>\<^sub>m b"
    using all_in_iff [OF assms(1), of b] fin by (auto simp: AreLabelsInWhiteList_def)
  moreover have "a ++ b = b ++ a" if "\<not> (\<exists>k v w. a k = Some v \<and> b k = Some w \<and> v \<noteq> w)"
    using that by (auto simp: map_add_def fun_eq_iff split: option.splits)
  ultimately show ?thesis using c [OF assms] c [OF assms(2,1)] m [OF assms] m [OF assms(2,1)] by (simp, metis)
qed

theorem label_sets_correct_witness:
  "Conflicts [''a''] [''b'', ''a''] [''a'' \<mapsto> ''1''] [''a'' \<mapsto> ''2'', ''b'' \<mapsto> ''3'']
   \<and> Merge [''a''] [''b'', ''a''] [''a'' \<mapsto> ''1''] [''a'' \<mapsto> ''2'', ''b'' \<mapsto> ''3''] = [''a'' \<mapsto> ''2'', ''b'' \<mapsto> ''3'']"
proof -
  have ord: "iter_order [''a'' \<mapsto> ''1''] [''a'']" "iter_order [''a'' \<mapsto> ''2'', ''b'' \<mapsto> ''3''] [''b'', ''a'']"
    by (auto simp: iter_order_def)
  show ?thesis using label_sets_correct [OF ord] by (auto simp: fun_eq_iff map_add_def)
qed

end
