(* ===== verification/NodeInfo.thy ===== *)
theory NodeInfo
  imports Store Labels
begin

section \<open>What the scheduler keeps of a node (\<^verbatim>\<open>plugin/pkg/scheduler/schedulercache/node_info.go\<close>)\<close>

text \<open>
  The pods of a node and the sums of their resource requests. The Go code keeps the sums behind
  pointers: a \<open>NodeInfo\<close> holds addresses into a store of \<open>Resource\<close> objects, which is the list
  \<open>h\<close> of all the objects allocated so far. Amounts are 64 bit words, as \<^verbatim>\<open>int64\<close> is. A quantity
  is what its two methods return, and a resource list is given in the order a range visits it. The
  annotations that the code decodes from JSON are given decoded.
\<close>

type_synonym int64 = "64 word"

subsection \<open>Pods and nodes\<close>

record quantity =
  q_Value :: int64
  q_MilliValue :: int64

type_synonym resource_list = "(string \<times> quantity) list"

record pod =
  p_Namespace :: string
  p_Name :: string
  p_NodeName :: string
  p_Labels :: labels
  p_Containers :: "resource_list list"
  p_InitContainers :: "resource_list list"
  p_Affinity :: "(bool \<times> bool) option"

record v1_node =
  v_Name :: string
  v_Allocatable :: resource_list
  v_Taints :: "string list \<times> string option"
  v_Conditions :: "(string \<times> string) list"

definition ResourceCPU :: string where "ResourceCPU = ''cpu''"
definition ResourceMemory :: string where "ResourceMemory = ''memory''"
definition ResourcePods :: string where "ResourcePods = ''pods''"
definition ResourceNvidiaGPU :: string where "ResourceNvidiaGPU = ''alpha.kubernetes.io/nvidia-gpu''"
definition ResourceOpaqueIntPrefix :: string where
  "ResourceOpaqueIntPrefix = ''pod.alpha.kubernetes.io/opaque-int-resource-''"

definition IsOpaqueIntResourceName :: "string \<Rightarrow> bool" where
  "IsOpaqueIntResourceName n = (take (length ResourceOpaqueIntPrefix) n = ResourceOpaqueIntPrefix)"

definition getPodKey :: "pod \<Rightarrow> string + key" where
  "getPodKey p = MetaNamespaceKeyFunc (\<lambda>p. Inr (p_Namespace p, p_Name p)) (ApiObject p)"

definition hasPodAffinityConstraints :: "pod \<Rightarrow> bool" where
  "hasPodAffinityConstraints p = (case p_Affinity p of None \<Rightarrow> False | Some (affinity, anti) \<Rightarrow> affinity \<or> anti)"

subsection \<open>Resources\<close>

record Resource =
  MilliCPU :: int64
  Memory :: int64
  NvidiaGPU :: int64
  OpaqueIntResources :: "string \<rightharpoonup> int64"

definition emptyResource :: Resource where
  "emptyResource = \<lparr>MilliCPU = 0, Memory = 0, NvidiaGPU = 0, OpaqueIntResources = Map.empty\<rparr>"

text \<open>Reading a Go map of numbers: 0 where there is no entry.\<close>

definition opaque :: "Resource \<Rightarrow> string \<Rightarrow> int64" where
  "opaque r name = (case OpaqueIntResources r name of None \<Rightarrow> 0 | Some v \<Rightarrow> v)"

definition add_request :: "Resource \<Rightarrow> string \<times> quantity \<Rightarrow> Resource" where
  "add_request res e =
     (let (rName, rQuant) = e
      in if rName = ResourceCPU then res\<lparr>MilliCPU := MilliCPU res + q_MilliValue rQuant\<rparr>
         else if rName = ResourceMemory then res\<lparr>Memory := Memory res + q_Value rQuant\<rparr>
         else if rName = ResourceNvidiaGPU then res\<lparr>NvidiaGPU := NvidiaGPU res + q_Value rQuant\<rparr>
         else if IsOpaqueIntResourceName rName
         then res\<lparr>OpaqueIntResources := (OpaqueIntResources res)(rName \<mapsto> opaque res rName + q_Value rQuant)\<rparr>
         else res)"

definition DefaultMilliCpuRequest :: int64 where "DefaultMilliCpuRequest = 100"
definition DefaultMemoryRequest :: int64 where "DefaultMemoryRequest = 200 * 1024 * 1024"

definition GetNonzeroRequests :: "resource_list \<Rightarrow> int64 \<times> int64" where
  "GetNonzeroRequests requests =
     (case map_of requests ResourceCPU of None \<Rightarrow> DefaultMilliCpuRequest | Some q \<Rightarrow> q_MilliValue q,
      case map_of requests ResourceMemory of None \<Rightarrow> DefaultMemoryRequest | Some q \<Rightarrow> q_Value q)"

definition add_container :: "Resource \<times> int64 \<times> int64 \<Rightarrow> resource_list \<Rightarrow> Resource \<times> int64 \<times> int64" where
  "add_container acc c =
     (let (res, non0_cpu, non0_mem) = acc; (non0_cpu_req, non0_mem_req) = GetNonzeroRequests c
      in (foldl add_request res c, non0_cpu + non0_cpu_req, non0_mem + non0_mem_req))"

definition calculateResource :: "pod \<Rightarrow> Resource \<times> int64 \<times> int64" where
  "calculateResource p = foldl add_container (emptyResource, 0, 0) (p_Containers p)"

text \<open>The range over the opaque resources of a pod changes each entry once.\<close>

definition change_opaque :: "(int64 \<Rightarrow> int64 \<Rightarrow> int64) \<Rightarrow> Resource \<Rightarrow> Resource \<Rightarrow> string \<rightharpoonup> int64" where
  "change_opaque f r res =
     (\<lambda>rName. case OpaqueIntResources res rName of
                None \<Rightarrow> OpaqueIntResources r rName
              | Some rQuant \<Rightarrow> Some (f (opaque r rName) rQuant))"

definition change_resource :: "(int64 \<Rightarrow> int64 \<Rightarrow> int64) \<Rightarrow> Resource \<Rightarrow> Resource \<Rightarrow> Resource" where
  "change_resource f r res =
     \<lparr>MilliCPU = f (MilliCPU r) (MilliCPU res), Memory = f (Memory r) (Memory res),
      NvidiaGPU = f (NvidiaGPU r) (NvidiaGPU res), OpaqueIntResources = change_opaque f r res\<rparr>"

subsection \<open>Node infos\<close>

type_synonym addr = nat
type_synonym heap = "Resource list"

record NodeInfo =
  ni_node :: "v1_node option"
  ni_pods :: "pod list"
  podsWithAffinity :: "pod list"
  requestedResource :: addr
  nonzeroRequest :: addr
  allocatableResource :: addr
  allowedPodNumber :: int64
  ni_taints :: "string list"
  taintsErr :: "string option"
  memoryPressureCondition :: string
  diskPressureCondition :: string
  generation :: int64

definition ni_addPod :: "pod \<Rightarrow> heap \<Rightarrow> NodeInfo \<Rightarrow> heap \<times> NodeInfo" where
  "ni_addPod p h n =
     (let (res, non0_cpu, non0_mem) = calculateResource p;
          h1 = h[requestedResource n := change_resource (+) (h ! requestedResource n) res];
          non0 = h1 ! nonzeroRequest n;
          h2 = h1[nonzeroRequest n := non0\<lparr>MilliCPU := MilliCPU non0 + non0_cpu, Memory := Memory non0 + non0_mem\<rparr>]
      in (h2, n\<lparr>ni_pods := ni_pods n @ [p],
                podsWithAffinity := podsWithAffinity n @ (if hasPodAffinityConstraints p then [p] else []),
                generation := generation n + 1\<rparr>))"

text \<open>Three new objects for the sums; the pods given are added one after the other.\<close>

definition empty_NodeInfo :: "heap \<Rightarrow> heap \<times> NodeInfo" where
  "empty_NodeInfo h =
     (h @ [emptyResource, emptyResource, emptyResource],
      \<lparr>ni_node = None, ni_pods = [], podsWithAffinity = [], requestedResource = length h,
       nonzeroRequest = length h + 1, allocatableResource = length h + 2, allowedPodNumber = 0, ni_taints = [],
       taintsErr = None, memoryPressureCondition = '''', diskPressureCondition = '''', generation = 0\<rparr>)"

definition NewNodeInfo :: "pod list \<Rightarrow> heap \<Rightarrow> heap \<times> NodeInfo" where
  "NewNodeInfo ps h = foldl (\<lambda>(h, n) p. ni_addPod p h n) (empty_NodeInfo h) ps"

text \<open>A slice loses the first pod with the key: the last element takes its place.\<close>

fun index_of_key :: "key \<Rightarrow> pod list \<Rightarrow> nat option" where
  "index_of_key k [] = None"
| "index_of_key k (p # ps) = (if getPodKey p = Inr k then Some 0 else map_option Suc (index_of_key k ps))"

definition delete_element :: "nat \<Rightarrow> 'a list \<Rightarrow> 'a list" where
  "delete_element i xs = butlast (xs[i := last xs])"

text \<open>
  \<open>None\<close> is the panic of a nil dereference: the error message reads the name of a node that the
  node info may not have.
\<close>

definition ni_removePod :: "pod \<Rightarrow> heap \<Rightarrow> NodeInfo \<Rightarrow> (string option \<times> heap \<times> NodeInfo) option" where
  "ni_removePod p h n =
     (case getPodKey p of
        Inl err \<Rightarrow> Some (Some err, h, n)
      | Inr k1 \<Rightarrow>
          (let n1 = n\<lparr>podsWithAffinity :=
                 (case index_of_key k1 (podsWithAffinity n) of
                    None \<Rightarrow> podsWithAffinity n
                  | Some i \<Rightarrow> delete_element i (podsWithAffinity n))\<rparr>
           in case index_of_key k1 (ni_pods n1) of
                Some i \<Rightarrow>
                  (let (res, non0_cpu, non0_mem) = calculateResource p;
                       h1 = h[requestedResource n := change_resource (-) (h ! requestedResource n) res];
                       non0 = h1 ! nonzeroRequest n;
                       h2 = h1[nonzeroRequest n := non0\<lparr>MilliCPU := MilliCPU non0 - non0_cpu, Memory := Memory non0 - non0_mem\<rparr>]
                   in Some (None, h2, n1\<lparr>ni_pods := delete_element i (ni_pods n1), generation := generation n1 + 1\<rparr>))
              | None \<Rightarrow>
                  (case ni_node n1 of
                     None \<Rightarrow> None
                   | Some node \<Rightarrow> Some (Some (''no corresponding pod '' @ p_Name p @ '' in pods of node '' @ v_Name node), h, n1))))"

definition set_allocatable :: "Resource \<times> int64 \<Rightarrow> string \<times> quantity \<Rightarrow> Resource \<times> int64" where
  "set_allocatable acc e =
     (let (r, allowed) = acc; (rName, rQuant) = e
      in if rName = ResourceCPU then (r\<lparr>MilliCPU := q_MilliValue rQuant\<rparr>, allowed)
         else if rName = ResourceMemory then (r\<lparr>Memory := q_Value rQuant\<rparr>, allowed)
         else if rName = ResourceNvidiaGPU then (r\<lparr>NvidiaGPU := q_Value rQuant\<rparr>, allowed)
         else if rName = ResourcePods then (r, q_Value rQuant)
         else if IsOpaqueIntResourceName rName
         then (r\<lparr>OpaqueIntResources := (OpaqueIntResources r)(rName \<mapsto> q_Value rQuant)\<rparr>, allowed)
         else (r, allowed))"

definition set_condition :: "NodeInfo \<Rightarrow> string \<times> string \<Rightarrow> NodeInfo" where
  "set_condition n cond =
     (if fst cond = ''MemoryPressure'' then n\<lparr>memoryPressureCondition := snd cond\<rparr>
      else if fst cond = ''DiskPressure'' then n\<lparr>diskPressureCondition := snd cond\<rparr>
      else n)"

definition SetNode :: "v1_node \<Rightarrow> heap \<Rightarrow> NodeInfo \<Rightarrow> heap \<times> NodeInfo" where
  "SetNode node h n =
     (let (r, allowed) = foldl set_allocatable (h ! allocatableResource n, allowedPodNumber n) (v_Allocatable node);
          n1 = n\<lparr>ni_node := Some node, allowedPodNumber := allowed, ni_taints := fst (v_Taints node),
                 taintsErr := snd (v_Taints node)\<rparr>;
          n2 = foldl set_condition n1 (v_Conditions node)
      in (h[allocatableResource n := r], n2\<lparr>generation := generation n2 + 1\<rparr>))"

definition ni_RemoveNode :: "heap \<Rightarrow> NodeInfo \<Rightarrow> heap \<times> NodeInfo" where
  "ni_RemoveNode h n =
     (h @ [emptyResource],
      n\<lparr>ni_node := None, allocatableResource := length h, allowedPodNumber := 0, ni_taints := [], taintsErr := None,
        memoryPressureCondition := ''Unknown'', diskPressureCondition := ''Unknown'', generation := generation n + 1\<rparr>)"

text \<open>
  \<^verbatim>\<open>&(*p)\<close> is the pointer \<open>p\<close> itself: the clone has copies of the slices and the addresses of the
  original.
\<close>

definition Clone :: "NodeInfo \<Rightarrow> NodeInfo" where
  "Clone n =
     \<lparr>ni_node = ni_node n, ni_pods = ni_pods n, podsWithAffinity = podsWithAffinity n,
      requestedResource = requestedResource n, nonzeroRequest = nonzeroRequest n,
      allocatableResource = allocatableResource n, allowedPodNumber = allowedPodNumber n, ni_taints = ni_taints n,
      taintsErr = taintsErr n, memoryPressureCondition = memoryPressureCondition n,
      diskPressureCondition = diskPressureCondition n, generation = generation n\<rparr>"

text \<open>The accessors accept a nil pointer.\<close>

definition info_Node :: "NodeInfo option \<Rightarrow> v1_node option" where
  "info_Node n = (case n of None \<Rightarrow> None | Some n \<Rightarrow> ni_node n)"

definition info_Pods :: "NodeInfo option \<Rightarrow> pod list" where
  "info_Pods n = (case n of None \<Rightarrow> [] | Some n \<Rightarrow> ni_pods n)"

definition AllowedPodNumber :: "NodeInfo option \<Rightarrow> int64" where
  "AllowedPodNumber n = (case n of None \<Rightarrow> 0 | Some n \<Rightarrow> allowedPodNumber n)"

definition RequestedResource :: "heap \<Rightarrow> NodeInfo option \<Rightarrow> Resource" where
  "RequestedResource h n = (case n of None \<Rightarrow> emptyResource | Some n \<Rightarrow> h ! requestedResource n)"

definition NonZeroRequest :: "heap \<Rightarrow> NodeInfo option \<Rightarrow> Resource" where
  "NonZeroRequest h n = (case n of None \<Rightarrow> emptyResource | Some n \<Rightarrow> h ! nonzeroRequest n)"

definition AllocatableResource :: "heap \<Rightarrow> NodeInfo option \<Rightarrow> Resource" where
  "AllocatableResource h n = (case n of None \<Rightarrow> emptyResource | Some n \<Rightarrow> h ! allocatableResource n)"

definition info_PodsWithAffinity :: "NodeInfo option \<Rightarrow> pod list" where
  "info_PodsWithAffinity n = (case n of None \<Rightarrow> [] | Some n \<Rightarrow> podsWithAffinity n)"

definition info_Taints :: "NodeInfo option \<Rightarrow> string list \<times> string option" where
  "info_Taints n = (case n of None \<Rightarrow> ([], None) | Some n \<Rightarrow> (ni_taints n, taintsErr n))"

definition MemoryPressureCondition :: "NodeInfo option \<Rightarrow> string" where
  "MemoryPressureCondition n = (case n of None \<Rightarrow> ''Unknown'' | Some n \<Rightarrow> memoryPressureCondition n)"

definition DiskPressureCondition :: "NodeInfo option \<Rightarrow> string" where
  "DiskPressureCondition n = (case n of None \<Rightarrow> ''Unknown'' | Some n \<Rightarrow> diskPressureCondition n)"

subsection \<open>Keys and slices\<close>

definition pod_key :: "pod \<Rightarrow> key" where
  "pod_key p = (if p_Namespace p = [] then p_Name p else p_Namespace p @ ''/'' @ p_Name p)"

lemma getPodKey_eq [simp]: "getPodKey p = Inr (pod_key p)"
  by (simp add: getPodKey_def MetaNamespaceKeyFunc_def pod_key_def)

lemma index_of_key_Some: "index_of_key k ps = Some i \<Longrightarrow> i < length ps \<and> pod_key (ps ! i) = k"
  by (induction ps arbitrary: i) (auto split: if_splits)

lemma index_of_key_None: "index_of_key k ps = None \<longleftrightarrow> k \<notin> pod_key ` set ps"
  by (induction ps) auto

lemma mset_delete_element:
  assumes "i < length xs"
  shows "mset (delete_element i xs) = mset xs - {#xs ! i#}"
proof -
  obtain ys z where xs: "xs = ys @ [z]" using assms by (cases xs rule: rev_cases) auto
  show ?thesis
  proof (cases "i = length ys")
    case False
    then have i: "i < length ys" using assms xs by simp
    have "mset (ys[i := z]) = add_mset z (mset ys - {#ys ! i#})" by (rule mset_update [OF i])
    moreover have "delete_element i xs = ys[i := z]" using i by (simp add: delete_element_def xs list_update_append)
    moreover have "ys ! i \<in># mset ys" using i by simp
    ultimately show ?thesis using i by (simp add: xs nth_append)
  qed (simp add: delete_element_def xs)
qed

lemma keys_delete:
  assumes "distinct (map pod_key ps)" "i < length ps" "mset qs = mset ps - {#ps ! i#}"
  shows "distinct (map pod_key qs)" "pod_key ` set qs = pod_key ` set ps - {pod_key (ps ! i)}" "set qs \<subseteq> set ps"
    "set qs = {q \<in> set ps. pod_key q \<noteq> pod_key (ps ! i)}"
proof -
  have "mset ps = add_mset (ps ! i) (mset qs)" using assms(2,3) by simp
  then have ps: "mset ps = mset (ps ! i # qs)" by simp
  have "mset (map pod_key ps) = mset (map pod_key (ps ! i # qs))" using ps by (metis mset_map)
  then have "distinct (map pod_key (ps ! i # qs))" using assms(1) mset_eq_imp_distinct_iff by blast
  moreover have "set ps = set (ps ! i # qs)" using ps by (metis set_mset_mset)
  ultimately show "distinct (map pod_key qs)" "pod_key ` set qs = pod_key ` set ps - {pod_key (ps ! i)}" "set qs \<subseteq> set ps"
    "set qs = {q \<in> set ps. pod_key q \<noteq> pod_key (ps ! i)}"
    by auto (metis image_eqI)
qed

subsection \<open>The sums of a node\<close>

definition amount :: "Resource \<Rightarrow> string \<Rightarrow> int64" where
  "amount r name =
     (if name = ResourceCPU then MilliCPU r else if name = ResourceMemory then Memory r
      else if name = ResourceNvidiaGPU then NvidiaGPU r else opaque r name)"

lemma amount_change:
  assumes "\<And>x. f x 0 = x"
  shows "amount (change_resource f r res) name = f (amount r name) (amount res name)"
  using assms by (auto simp: amount_def change_resource_def change_opaque_def opaque_def split: option.splits)

lemma amount_empty [simp]: "amount emptyResource name = 0"
  by (simp add: amount_def emptyResource_def opaque_def)

definition request :: "string \<Rightarrow> pod \<Rightarrow> int64" where
  "request name p = amount (fst (calculateResource p)) name"

definition node_sums :: "heap \<Rightarrow> NodeInfo \<Rightarrow> bool" where
  "node_sums h n \<longleftrightarrow>
     (\<forall>name. amount (h ! requestedResource n) name = (\<Sum>p \<in># mset (ni_pods n). request name p))
     \<and> MilliCPU (h ! nonzeroRequest n) = (\<Sum>p \<in># mset (ni_pods n). fst (snd (calculateResource p)))
     \<and> Memory (h ! nonzeroRequest n) = (\<Sum>p \<in># mset (ni_pods n). snd (snd (calculateResource p)))"

text \<open>The objects of a node info.\<close>

definition addrs :: "NodeInfo \<Rightarrow> addr set" where
  "addrs n = {requestedResource n, nonzeroRequest n, allocatableResource n}"

definition addrs_ok :: "heap \<Rightarrow> NodeInfo \<Rightarrow> bool" where
  "addrs_ok h n \<longleftrightarrow> (\<forall>a \<in> addrs n. a < length h) \<and> card (addrs n) = 3"

lemma addrs_ok_distinct:
  assumes "addrs_ok h n"
  shows "requestedResource n < length h" "nonzeroRequest n < length h" "allocatableResource n < length h"
    "requestedResource n \<noteq> nonzeroRequest n" "requestedResource n \<noteq> allocatableResource n"
    "nonzeroRequest n \<noteq> allocatableResource n"
  using assms by (auto simp: addrs_ok_def addrs_def card_insert_if split: if_splits)

text \<open>
  What holds of the node info of the node \<open>nm\<close>: the pods are on the node, each key once, those with
  affinity are listed. With \<open>b\<close>, the sums are also the sums over the pods: this is lost when a pod
  object is removed whose requests are not those of the listed object with its key.
\<close>

definition node_ok :: "bool \<Rightarrow> heap \<Rightarrow> string \<Rightarrow> NodeInfo \<Rightarrow> bool" where
  "node_ok b h nm n \<longleftrightarrow>
     (\<forall>p \<in> set (ni_pods n). p_NodeName p = nm)
     \<and> distinct (map pod_key (ni_pods n))
     \<and> mset (podsWithAffinity n) = filter_mset hasPodAffinityConstraints (mset (ni_pods n))
     \<and> (b \<longrightarrow> node_sums h n)"

lemma node_ok_weaken: "node_ok b h nm n \<Longrightarrow> (b' \<Longrightarrow> b) \<Longrightarrow> node_ok b' h nm n"
  by (simp add: node_ok_def)

lemma node_ok_frame:
  "node_ok b h nm n \<Longrightarrow> h' ! requestedResource n = h ! requestedResource n \<Longrightarrow>
     h' ! nonzeroRequest n = h ! nonzeroRequest n \<Longrightarrow> node_ok b h' nm n"
  by (simp add: node_ok_def node_sums_def)

lemma node_ok_addPod:
  assumes "node_ok b h nm n" "addrs_ok h n" "p_NodeName p = nm"
    and "pod_key p \<notin> pod_key ` set (ni_pods n)" "ni_addPod p h n = (h', n')"
  shows "node_ok b h' nm n'" "addrs n' = addrs n" "length h' = length h" "\<forall>a. a \<notin> addrs n \<longrightarrow> h' ! a = h ! a"
    "ni_pods n' = ni_pods n @ [p]" "ni_node n' = ni_node n"
proof -
  obtain res non0_cpu non0_mem where c: "calculateResource p = (res, non0_cpu, non0_mem)" by (cases "calculateResource p")
  note d = addrs_ok_distinct [OF assms(2)]
  have eq: "h' = (h[requestedResource n := change_resource (+) (h ! requestedResource n) res])
      [nonzeroRequest n := (h ! nonzeroRequest n)\<lparr>MilliCPU := MilliCPU (h ! nonzeroRequest n) + non0_cpu,
         Memory := Memory (h ! nonzeroRequest n) + non0_mem\<rparr>]"
    "n' = n\<lparr>ni_pods := ni_pods n @ [p],
       podsWithAffinity := podsWithAffinity n @ (if hasPodAffinityConstraints p then [p] else []),
       generation := generation n + 1\<rparr>"
    using assms(5) d by (auto simp: ni_addPod_def c Let_def)
  show "ni_pods n' = ni_pods n @ [p]" "ni_node n' = ni_node n" "addrs n' = addrs n" "length h' = length h"
    "\<forall>a. a \<notin> addrs n \<longrightarrow> h' ! a = h ! a"
    by (auto simp: eq addrs_def)
  have "node_sums h' n'" if b
    using assms(1) d that
    by (auto simp: node_ok_def node_sums_def eq amount_change c request_def algebra_simps)
  then show "node_ok b h' nm n'"
    using assms(1,3,4) unfolding node_ok_def by (auto simp: eq)
qed

lemma affinity_subset:
  "node_ok b h nm n \<Longrightarrow> set (podsWithAffinity n) = {p \<in> set (ni_pods n). hasPodAffinityConstraints p}"
  unfolding node_ok_def by (metis set_mset_filter set_mset_mset)

lemma same_key_same_pod:
  "distinct (map pod_key ps) \<Longrightarrow> p \<in> set ps \<Longrightarrow> q \<in> set ps \<Longrightarrow> pod_key p = pod_key q \<Longrightarrow> p = q"
  by (simp add: distinct_map inj_on_def)

text \<open>The affinity list loses the pod with the key, when it has it.\<close>

lemma affinity_delete:
  assumes ok: "node_ok b h nm n" and q: "q \<in> set (ni_pods n)"
    and del: "as = (case index_of_key (pod_key q) (podsWithAffinity n) of
        None \<Rightarrow> podsWithAffinity n | Some i \<Rightarrow> delete_element i (podsWithAffinity n))"
  shows "mset as = filter_mset hasPodAffinityConstraints (mset (ni_pods n) - {#q#})"
proof (cases "index_of_key (pod_key q) (podsWithAffinity n)")
  case None
  then have "q \<notin> set (podsWithAffinity n)" by (auto simp: index_of_key_None)
  then have "\<not> hasPodAffinityConstraints q" using affinity_subset [OF ok] q by simp
  then show ?thesis using ok None by (simp add: node_ok_def del)
next
  case (Some i)
  then have i: "i < length (podsWithAffinity n)" "pod_key (podsWithAffinity n ! i) = pod_key q"
    using index_of_key_Some by blast+
  then have mem: "podsWithAffinity n ! i \<in> set (podsWithAffinity n)" by simp
  then have "podsWithAffinity n ! i = q"
    using same_key_same_pod [of "ni_pods n" _ q] ok q i(2) affinity_subset [OF ok] by (auto simp: node_ok_def)
  then show ?thesis
    using ok Some mset_delete_element [OF i(1)] affinity_subset [OF ok] mem by (auto simp: node_ok_def del)
qed

lemma node_ok_removePod:
  assumes ok: "node_ok b h nm n" and a: "addrs_ok h n" and k: "pod_key p \<in> pod_key ` set (ni_pods n)"
    and c: "b \<longrightarrow> (\<forall>q \<in> set (ni_pods n). pod_key q = pod_key p \<longrightarrow> calculateResource q = calculateResource p)"
  shows "\<exists>h' n'. ni_removePod p h n = Some (None, h', n') \<and> node_ok b h' nm n' \<and> addrs n' = addrs n
    \<and> length h' = length h \<and> (\<forall>a. a \<notin> addrs n \<longrightarrow> h' ! a = h ! a)
    \<and> pod_key ` set (ni_pods n') = pod_key ` set (ni_pods n) - {pod_key p} 
    \<and> set (ni_pods n') = {q \<in> set (ni_pods n). pod_key q \<noteq> pod_key p}
    \<and> ni_node n' = ni_node n"
proof -
  obtain res non0_cpu non0_mem where r: "calculateResource p = (res, non0_cpu, non0_mem)" by (cases "calculateResource p")
  note d = addrs_ok_distinct [OF a]
  obtain i where i: "index_of_key (pod_key p) (ni_pods n) = Some i" using k index_of_key_None by (cases "index_of_key (pod_key p) (ni_pods n)") auto
  define q where "q = ni_pods n ! i"
  have q: "i < length (ni_pods n)" "pod_key q = pod_key p" "q \<in> set (ni_pods n)"
    using index_of_key_Some [OF i] by (auto simp: q_def)
  define as where "as = (case index_of_key (pod_key q) (podsWithAffinity n) of
      None \<Rightarrow> podsWithAffinity n | Some i \<Rightarrow> delete_element i (podsWithAffinity n))"
  define h' where "h' = (h[requestedResource n := change_resource (-) (h ! requestedResource n) res])
      [nonzeroRequest n := (h ! nonzeroRequest n)\<lparr>MilliCPU := MilliCPU (h ! nonzeroRequest n) - non0_cpu,
         Memory := Memory (h ! nonzeroRequest n) - non0_mem\<rparr>]"
  define n' where "n' = n\<lparr>podsWithAffinity := as, ni_pods := delete_element i (ni_pods n), generation := generation n + 1\<rparr>"
  have run: "ni_removePod p h n = Some (None, h', n')"
    using i d by (simp add: ni_removePod_def r Let_def h'_def n'_def as_def q(2))
  have del: "mset (ni_pods n') = mset (ni_pods n) - {#q#}" by (simp add: n'_def mset_delete_element [OF q(1)] q_def)
  have "distinct (map pod_key (ni_pods n))" using ok by (simp add: node_ok_def)
  note keys = keys_delete [OF this q(1) del [unfolded q_def]]
  have cq: "calculateResource q = (res, non0_cpu, non0_mem)" if b using c that q(2,3) r by simp
  have sum: "(\<Sum>p \<in># mset (ni_pods n) - {#q#}. f p) = (\<Sum>p \<in># mset (ni_pods n). f p) - f q" for f :: "pod \<Rightarrow> int64"
  proof -
    have "mset (ni_pods n) = add_mset q (mset (ni_pods n) - {#q#})" using q(3) by simp
    then have "(\<Sum>p \<in># mset (ni_pods n). f p) = f q + (\<Sum>p \<in># mset (ni_pods n) - {#q#}. f p)"
      by (metis image_mset_add_mset sum_mset.insert)
    then show ?thesis by simp
  qed
  have "node_sums h' n'" if b
    using ok d that unfolding node_ok_def node_sums_def del sum
    by (simp add: h'_def n'_def amount_change cq [OF that] request_def)
  moreover have "mset (podsWithAffinity n') = filter_mset hasPodAffinityConstraints (mset (ni_pods n'))"
    using affinity_delete [OF ok q(3) as_def] by (simp only: del) (simp add: n'_def)
  ultimately have "node_ok b h' nm n'" using ok keys(1,3) by (auto simp: node_ok_def)
  moreover have "addrs n' = addrs n \<and> length h' = length h \<and> (\<forall>a. a \<notin> addrs n \<longrightarrow> h' ! a = h ! a) \<and> ni_node n' = ni_node n"
    by (auto simp: n'_def h'_def addrs_def)
  ultimately show ?thesis using run keys(2,4) q(2) unfolding q_def by simp
qed

lemma removePod_absent:
  assumes "node_ok b h nm n" "pod_key p \<notin> pod_key ` set (ni_pods n)"
  shows "ni_removePod p h n = None \<or> (\<exists>err. ni_removePod p h n = Some (Some err, h, n))"
proof -
  have "index_of_key (pod_key p) (ni_pods n) = None" "index_of_key (pod_key p) (podsWithAffinity n) = None"
    using assms affinity_subset [OF assms(1)] by (auto simp: index_of_key_None)
  then show ?thesis by (auto simp: ni_removePod_def split: option.splits)
qed

lemma empty_NodeInfo_ok:
  assumes "empty_NodeInfo h = (h', n)"
  shows "node_ok b h' nm n" "addrs_ok h' n" "addrs n = {length h, length h + 1, length h + 2}" "length h' = length h + 3"
    "\<forall>a < length h. h' ! a = h ! a" "ni_pods n = []" "ni_node n = None"
  using assms
  by (auto simp: empty_NodeInfo_def node_ok_def node_sums_def addrs_ok_def addrs_def nth_append emptyResource_def
      amount_def opaque_def)

lemma foldl_set_condition:
  "\<exists>m d. foldl set_condition n cs = n\<lparr>memoryPressureCondition := m, diskPressureCondition := d\<rparr>"
proof (induction cs arbitrary: n)
  case Nil
  have "n = n\<lparr>memoryPressureCondition := memoryPressureCondition n, diskPressureCondition := diskPressureCondition n\<rparr>" by simp
  then show ?case unfolding foldl_Nil by blast
next
  case (Cons c cs)
  obtain m d where "foldl set_condition (set_condition n c) cs
      = (set_condition n c)\<lparr>memoryPressureCondition := m, diskPressureCondition := d\<rparr>"
    using Cons by blast
  moreover have "(set_condition n c)\<lparr>memoryPressureCondition := m, diskPressureCondition := d\<rparr>
      = n\<lparr>memoryPressureCondition := m, diskPressureCondition := d\<rparr>"
    by (simp add: set_condition_def)
  ultimately show ?case by auto
qed

lemma SetNode_ok:
  assumes "node_ok b h nm n" "addrs_ok h n" "SetNode node h n = (h', n')"
  shows "node_ok b h' nm n'" "addrs n' = addrs n" "length h' = length h" "\<forall>a. a \<notin> addrs n \<longrightarrow> h' ! a = h ! a"
    "ni_pods n' = ni_pods n" "ni_node n' = Some node"
proof -
  note d = addrs_ok_distinct [OF assms(2)]
  obtain r al where f: "foldl set_allocatable (h ! allocatableResource n, allowedPodNumber n) (v_Allocatable node) = (r, al)"
    by (cases "foldl set_allocatable (h ! allocatableResource n, allowedPodNumber n) (v_Allocatable node)")
  obtain m ds where c: "n' = (n\<lparr>ni_node := Some node, allowedPodNumber := al, ni_taints := fst (v_Taints node),
      taintsErr := snd (v_Taints node)\<rparr>)\<lparr>memoryPressureCondition := m, diskPressureCondition := ds, generation := generation n + 1\<rparr>"
    "h' = h[allocatableResource n := r]"
    using assms(3) foldl_set_condition [of "n\<lparr>ni_node := Some node, allowedPodNumber := al, ni_taints := fst (v_Taints node),
      taintsErr := snd (v_Taints node)\<rparr>" "v_Conditions node"]
    by (auto simp: SetNode_def f Let_def)
  show "addrs n' = addrs n" "length h' = length h" "\<forall>a. a \<notin> addrs n \<longrightarrow> h' ! a = h ! a"
    "ni_pods n' = ni_pods n" "ni_node n' = Some node" by (auto simp: c addrs_def)
  show "node_ok b h' nm n'" using assms(1) d by (simp add: node_ok_def node_sums_def c)
qed

lemma ni_RemoveNode_ok:
  assumes "node_ok b h nm n" "addrs_ok h n" "ni_RemoveNode h n = (h', n')"
  shows "node_ok b h' nm n'" "addrs_ok h' n'" "addrs n' \<subseteq> insert (length h) (addrs n)" "length h' = length h + 1"
    "\<forall>a < length h. h' ! a = h ! a" "ni_pods n' = ni_pods n" "ni_node n' = None"
proof -
  note d = addrs_ok_distinct [OF assms(2)]
  have eq: "h' = h @ [emptyResource]" "ni_pods n' = ni_pods n" "ni_node n' = None" "requestedResource n' = requestedResource n"
    "nonzeroRequest n' = nonzeroRequest n" "allocatableResource n' = length h" "podsWithAffinity n' = podsWithAffinity n"
    using assms(3) by (auto simp: ni_RemoveNode_def)
  show "ni_pods n' = ni_pods n" "ni_node n' = None" "length h' = length h + 1" "\<forall>a < length h. h' ! a = h ! a"
    "addrs n' \<subseteq> insert (length h) (addrs n)" by (auto simp: eq addrs_def nth_append)
  show "node_ok b h' nm n'" using assms(1) d by (simp add: node_ok_def node_sums_def eq nth_append)
  show "addrs_ok h' n'" using d by (auto simp: addrs_ok_def addrs_def eq)
qed

end
