(* ===== verification/SchedulerCache.thy ===== *)
theory SchedulerCache
  imports NodeInfo
begin

section \<open>The scheduler's cache (\<^verbatim>\<open>plugin/pkg/scheduler/schedulercache/cache.go\<close>)\<close>

text \<open>
  The pods that are added or assumed and the node infos they are accounted in. Every method holds the
  mutex, so it is one step. \<open>Crash\<close> is the end of the process: a nil dereference, a panic or
  \<^verbatim>\<open>glog.Fatalf\<close>. The clock is an argument of the methods that read it.
\<close>

record podState =
  ps_pod :: pod
  ps_deadline :: "time option"
  ps_bindingFinished :: bool

record schedulerCache =
  ttl :: duration
  assumedPods :: "key set"
  podStates :: "key \<rightharpoonup> podState"
  nodes :: "string \<rightharpoonup> NodeInfo"
  store :: heap

datatype cache_outcome = Crash | Done "string option" schedulerCache

definition newSchedulerCache :: "duration \<Rightarrow> schedulerCache" where
  "newSchedulerCache t = \<lparr>ttl = t, assumedPods = {}, podStates = Map.empty, nodes = Map.empty, store = []\<rparr>"

subsection \<open>Pods in node infos\<close>

definition find_or_new :: "string \<Rightarrow> schedulerCache \<Rightarrow> heap \<times> NodeInfo" where
  "find_or_new nm c = (case nodes c nm of Some n \<Rightarrow> (store c, n) | None \<Rightarrow> NewNodeInfo [] (store c))"

definition cache_addPod :: "pod \<Rightarrow> schedulerCache \<Rightarrow> schedulerCache" where
  "cache_addPod p c =
     (let (h, n) = find_or_new (p_NodeName p) c; (h', n') = ni_addPod p h n
      in c\<lparr>store := h', nodes := (nodes c)(p_NodeName p \<mapsto> n')\<rparr>)"

text \<open>\<open>None\<close>: the node has no node info, or the error message reads the name of a node that is not there.\<close>

definition cache_removePod :: "pod \<Rightarrow> schedulerCache \<Rightarrow> (string option \<times> schedulerCache) option" where
  "cache_removePod p c =
     (case nodes c (p_NodeName p) of
        None \<Rightarrow> (case getPodKey p of Inl err \<Rightarrow> Some (Some err, c) | Inr _ \<Rightarrow> None)
      | Some n \<Rightarrow>
          (case ni_removePod p (store c) n of
             None \<Rightarrow> None
           | Some (Some err, h', n') \<Rightarrow> Some (Some err, c\<lparr>store := h', nodes := (nodes c)(p_NodeName p \<mapsto> n')\<rparr>)
           | Some (None, h', n') \<Rightarrow>
               Some (None, c\<lparr>store := h', nodes :=
                 (if length (ni_pods n') = 0 \<and> ni_node n' = None then (nodes c)(p_NodeName p := None)
                  else (nodes c)(p_NodeName p \<mapsto> n'))\<rparr>)))"

definition cache_updatePod :: "pod \<Rightarrow> pod \<Rightarrow> schedulerCache \<Rightarrow> (string option \<times> schedulerCache) option" where
  "cache_updatePod oldPod newPod c =
     (case cache_removePod oldPod c of
        None \<Rightarrow> None
      | Some (Some err, c') \<Rightarrow> Some (Some err, c')
      | Some (None, c') \<Rightarrow> Some (None, cache_addPod newPod c'))"

subsection \<open>Events\<close>

definition AssumePod :: "pod \<Rightarrow> schedulerCache \<Rightarrow> cache_outcome" where
  "AssumePod p c =
     (case getPodKey p of
        Inl err \<Rightarrow> Done (Some err) c
      | Inr key \<Rightarrow>
          if podStates c key \<noteq> None then Done (Some (''pod '' @ key @ '' state was not initial but get assumed'')) c
          else let c1 = cache_addPod p c
               in Done None (c1\<lparr>podStates := (podStates c1)(key \<mapsto> \<lparr>ps_pod = p, ps_deadline = None, ps_bindingFinished = False\<rparr>),
                                assumedPods := insert key (assumedPods c1)\<rparr>))"

definition finishBinding :: "pod \<Rightarrow> time \<Rightarrow> schedulerCache \<Rightarrow> cache_outcome" where
  "finishBinding p now c =
     (case getPodKey p of
        Inl err \<Rightarrow> Done (Some err) c
      | Inr key \<Rightarrow>
          (case podStates c key of
             Some currState \<Rightarrow>
               if key \<in> assumedPods c
               then Done None (c\<lparr>podStates := (podStates c)(key \<mapsto>
                      currState\<lparr>ps_bindingFinished := True, ps_deadline := Some (now + ttl c)\<rparr>)\<rparr>)
               else Done None c
           | None \<Rightarrow> Done None c))"

definition ForgetPod :: "pod \<Rightarrow> schedulerCache \<Rightarrow> cache_outcome" where
  "ForgetPod p c =
     (case getPodKey p of
        Inl err \<Rightarrow> Done (Some err) c
      | Inr key \<Rightarrow>
          (case podStates c key of
             None \<Rightarrow> Crash
           | Some currState \<Rightarrow>
               if p_NodeName (ps_pod currState) \<noteq> p_NodeName p
               then Done (Some (''pod '' @ key @ '' state was assumed on a different node'')) c
               else if key \<in> assumedPods c then
                 (case cache_removePod p c of
                    None \<Rightarrow> Crash
                  | Some (Some err, c') \<Rightarrow> Done (Some err) c'
                  | Some (None, c') \<Rightarrow>
                      Done None (c'\<lparr>assumedPods := assumedPods c' - {key}, podStates := (podStates c')(key := None)\<rparr>))
               else Done (Some (''pod '' @ key @ '' state was not assumed but get forgotten'')) c))"

definition AddPod :: "pod \<Rightarrow> schedulerCache \<Rightarrow> cache_outcome" where
  "AddPod p c =
     (case getPodKey p of
        Inl err \<Rightarrow> Done (Some err) c
      | Inr key \<Rightarrow>
          (case podStates c key of
             Some currState \<Rightarrow>
               if key \<in> assumedPods c then
                 (case (if p_NodeName (ps_pod currState) \<noteq> p_NodeName p
                        then map_option (\<lambda>(_, c'). cache_addPod p c') (cache_removePod (ps_pod currState) c)
                        else Some c) of
                    None \<Rightarrow> Crash
                  | Some c1 \<Rightarrow>
                      Done None (c1\<lparr>assumedPods := assumedPods c1 - {key},
                                    podStates := (podStates c1)(key \<mapsto> currState\<lparr>ps_deadline := None\<rparr>)\<rparr>))
               else Done (Some (''pod was already in added state. Pod key: '' @ key)) c
           | None \<Rightarrow>
               let c1 = cache_addPod p c
               in Done None (c1\<lparr>podStates := (podStates c1)(key \<mapsto> \<lparr>ps_pod = p, ps_deadline = None, ps_bindingFinished = False\<rparr>)\<rparr>)))"

definition UpdatePod :: "pod \<Rightarrow> pod \<Rightarrow> schedulerCache \<Rightarrow> cache_outcome" where
  "UpdatePod oldPod newPod c =
     (case getPodKey oldPod of
        Inl err \<Rightarrow> Done (Some err) c
      | Inr key \<Rightarrow>
          (case podStates c key of
             Some currState \<Rightarrow>
               if key \<notin> assumedPods c then
                 if p_NodeName (ps_pod currState) \<noteq> p_NodeName newPod then Crash
                 else (case cache_updatePod oldPod newPod c of
                         None \<Rightarrow> Crash
                       | Some (err, c') \<Rightarrow> Done err c')
               else Done (Some (''pod '' @ key @ '' state was not added but get updated'')) c
           | None \<Rightarrow> Done (Some (''pod '' @ key @ '' state was not added but get updated'')) c))"

definition RemovePod :: "pod \<Rightarrow> schedulerCache \<Rightarrow> cache_outcome" where
  "RemovePod p c =
     (case getPodKey p of
        Inl err \<Rightarrow> Done (Some err) c
      | Inr key \<Rightarrow>
          (case podStates c key of
             Some currState \<Rightarrow>
               if key \<notin> assumedPods c then
                 if p_NodeName (ps_pod currState) \<noteq> p_NodeName p then Crash
                 else (case cache_removePod (ps_pod currState) c of
                         None \<Rightarrow> Crash
                       | Some (Some err, c') \<Rightarrow> Done (Some err) c'
                       | Some (None, c') \<Rightarrow> Done None (c'\<lparr>podStates := (podStates c')(key := None)\<rparr>))
               else Done (Some (''pod state was not added but get removed. Pod key: '' @ key)) c
           | None \<Rightarrow> Done (Some (''pod state was not added but get removed. Pod key: '' @ key)) c))"

definition AddNode :: "v1_node \<Rightarrow> schedulerCache \<Rightarrow> cache_outcome" where
  "AddNode node c =
     (let (h, n) = find_or_new (v_Name node) c; (h', n') = SetNode node h n
      in Done None (c\<lparr>store := h', nodes := (nodes c)(v_Name node \<mapsto> n')\<rparr>))"

definition UpdateNode :: "v1_node \<Rightarrow> v1_node \<Rightarrow> schedulerCache \<Rightarrow> cache_outcome" where
  "UpdateNode oldNode newNode c =
     (let (h, n) = find_or_new (v_Name newNode) c; (h', n') = SetNode newNode h n
      in Done None (c\<lparr>store := h', nodes := (nodes c)(v_Name newNode \<mapsto> n')\<rparr>))"

definition RemoveNode :: "v1_node \<Rightarrow> schedulerCache \<Rightarrow> cache_outcome" where
  "RemoveNode node c =
     (case nodes c (v_Name node) of
        None \<Rightarrow> Crash
      | Some n \<Rightarrow>
          (let (h', n') = ni_RemoveNode (store c) n
           in Done None (c\<lparr>store := h', nodes :=
                (if length (ni_pods n') = 0 \<and> ni_node n' = None then (nodes c)(v_Name node := None)
                 else (nodes c)(v_Name node \<mapsto> n'))\<rparr>)))"

definition expirePod :: "key \<Rightarrow> podState \<Rightarrow> schedulerCache \<Rightarrow> (string option \<times> schedulerCache) option" where
  "expirePod key ps c =
     (case cache_removePod (ps_pod ps) c of
        None \<Rightarrow> None
      | Some (Some err, c') \<Rightarrow> Some (Some err, c')
      | Some (None, c') \<Rightarrow>
          Some (None, c'\<lparr>assumedPods := assumedPods c' - {key}, podStates := (podStates c')(key := None)\<rparr>))"

text \<open>The range over the assumed pods in the order \<open>ks\<close>; an error of \<^verbatim>\<open>expirePod\<close> is logged.\<close>

fun cleanup_loop :: "time \<Rightarrow> key list \<Rightarrow> schedulerCache \<Rightarrow> schedulerCache option" where
  "cleanup_loop now [] c = Some c"
| "cleanup_loop now (key # ks) c =
     (case podStates c key of
        None \<Rightarrow> None
      | Some ps \<Rightarrow>
          if \<not> ps_bindingFinished ps then cleanup_loop now ks c
          else (case ps_deadline ps of
                  None \<Rightarrow> None
                | Some deadline \<Rightarrow>
                    if now > deadline
                    then (case expirePod key ps c of
                            None \<Rightarrow> None
                          | Some (_, c') \<Rightarrow> cleanup_loop now ks c')
                    else cleanup_loop now ks c))"

definition cleanupAssumedPods :: "time \<Rightarrow> key list \<Rightarrow> schedulerCache \<Rightarrow> cache_outcome" where
  "cleanupAssumedPods now ks c = (case cleanup_loop now ks c of None \<Rightarrow> Crash | Some c' \<Rightarrow> Done None c')"

subsection \<open>Readers\<close>

definition cache_ListPods :: "string list \<Rightarrow> selector \<Rightarrow> schedulerCache \<Rightarrow> pod list" where
  "cache_ListPods ks sel c =
     concat (map (\<lambda>nm. filter (\<lambda>p. selector_Matches sel (p_Labels p)) (info_Pods (nodes c nm))) ks)"

definition refresh :: "schedulerCache \<Rightarrow> (string \<rightharpoonup> NodeInfo) \<Rightarrow> string \<Rightarrow> (string \<rightharpoonup> NodeInfo)" where
  "refresh c m name =
     (case nodes c name of
        None \<Rightarrow> m
      | Some info \<Rightarrow>
          (case m name of
             Some current \<Rightarrow> if generation current \<noteq> generation info then m(name \<mapsto> Clone info) else m
           | None \<Rightarrow> m(name \<mapsto> Clone info)))"

definition UpdateNodeNameToInfoMap ::
    "string list \<Rightarrow> string list \<Rightarrow> schedulerCache \<Rightarrow> (string \<rightharpoonup> NodeInfo) \<Rightarrow> (string \<rightharpoonup> NodeInfo)" where
  "UpdateNodeNameToInfoMap ks js c m =
     foldl (\<lambda>m name. if nodes c name = None then m(name := None) else m) (foldl (refresh c) m ks) js"

subsection \<open>Invariant of the node infos\<close>

lemma cache_addPod_same [simp]:
  "podStates (cache_addPod p c) = podStates c" "assumedPods (cache_addPod p c) = assumedPods c" "ttl (cache_addPod p c) = ttl c"
  by (simp_all add: cache_addPod_def case_prod_beta)

text \<open>Which pod objects are accounted, and where the pod with a key is.\<close>

definition accounted :: "schedulerCache \<Rightarrow> pod \<Rightarrow> bool" where
  "accounted c q \<longleftrightarrow> (\<exists>n. nodes c (p_NodeName q) = Some n \<and> q \<in> set (ni_pods n))"

definition place :: "schedulerCache \<Rightarrow> key \<Rightarrow> string \<Rightarrow> bool" where
  "place c k nm \<longleftrightarrow> (\<exists>n. nodes c nm = Some n \<and> k \<in> pod_key ` set (ni_pods n))"

text \<open>
  Every node info is right, is not left over without pods and node, and has its objects for itself;
  with \<open>b\<close>, its sums are the sums over its pods.
\<close>

definition nodes_ok :: "bool \<Rightarrow> schedulerCache \<Rightarrow> bool" where
  "nodes_ok b c \<longleftrightarrow>
     (\<forall>nm n. nodes c nm = Some n \<longrightarrow>
        node_ok b (store c) nm n \<and> addrs_ok (store c) n \<and> (ni_node n = None \<longrightarrow> ni_pods n \<noteq> []))
     \<and> (\<forall>nm nm' n n'. nodes c nm = Some n \<longrightarrow> nodes c nm' = Some n' \<longrightarrow> nm \<noteq> nm' \<longrightarrow> addrs n \<inter> addrs n' = {})"

lemma nodes_okD:
  assumes "nodes_ok b c" "nodes c nm = Some n"
  shows "node_ok b (store c) nm n" "addrs_ok (store c) n" "ni_node n = None \<Longrightarrow> ni_pods n \<noteq> []"
  using assms by (auto simp: nodes_ok_def)

lemma nodes_ok_weaken: "nodes_ok b c \<Longrightarrow> (b' \<Longrightarrow> b) \<Longrightarrow> nodes_ok b' c"
  unfolding nodes_ok_def using node_ok_weaken by blast

lemma nodes_ok_sep:
  "nodes_ok b c \<Longrightarrow> nodes c nm = Some n \<Longrightarrow> nodes c nm' = Some n' \<Longrightarrow> nm \<noteq> nm' \<Longrightarrow> addrs n \<inter> addrs n' = {}"
  unfolding nodes_ok_def by blast

lemma nodes_okI:
  assumes "\<And>nm n. nodes c nm = Some n \<Longrightarrow> node_ok b (store c) nm n \<and> addrs_ok (store c) n"
    and "\<And>nm n. nodes c nm = Some n \<Longrightarrow> ni_node n = None \<Longrightarrow> ni_pods n \<noteq> []"
    and "\<And>nm nm' n n'. nodes c nm = Some n \<Longrightarrow> nodes c nm' = Some n' \<Longrightarrow> nm \<noteq> nm' \<Longrightarrow> addrs n \<inter> addrs n' = {}"
  shows "nodes_ok b c"
  unfolding nodes_ok_def using assms by blast

definition own_addrs :: "schedulerCache \<Rightarrow> string \<Rightarrow> addr set" where
  "own_addrs c nm = (case nodes c nm of None \<Rightarrow> {} | Some n \<Rightarrow> addrs n)"

text \<open>A change of one node that touches its own objects, or new ones, leaves the other nodes as they are.\<close>

lemma nodes_ok_others:
  assumes "nodes_ok b c" "length (store c) \<le> length h'"
    and "\<forall>a < length (store c). a \<notin> own_addrs c nm \<longrightarrow> h' ! a = store c ! a"
    and "nodes c nm' = Some m" "nm' \<noteq> nm"
  shows "node_ok b h' nm' m \<and> addrs_ok h' m"
proof -
  have "addrs m \<inter> own_addrs c nm = {}"
    using nodes_ok_sep [OF assms(1,4) _ assms(5)] by (cases "nodes c nm") (simp_all add: own_addrs_def)
  moreover have m: "node_ok b (store c) nm' m" "addrs_ok (store c) m" using nodes_okD [OF assms(1,4)] by auto
  ultimately have "h' ! requestedResource m = store c ! requestedResource m" "h' ! nonzeroRequest m = store c ! nonzeroRequest m"
    using assms(3) addrs_ok_distinct [OF m(2)] by (auto simp: addrs_def)
  moreover have "addrs_ok h' m" using m(2) assms(2) by (auto simp: addrs_ok_def)
  ultimately show ?thesis using node_ok_frame [OF m(1)] by blast
qed

lemma nodes_ok_put:
  assumes "nodes_ok b c" "length (store c) \<le> length h'"
    and "\<forall>a < length (store c). a \<notin> own_addrs c nm \<longrightarrow> h' ! a = store c ! a"
    and "node_ok b h' nm n'" "addrs_ok h' n'" "addrs n' \<subseteq> own_addrs c nm \<union> {length (store c)..}"
    and "ni_node n' = None \<Longrightarrow> ni_pods n' \<noteq> []"
  shows "nodes_ok b (c\<lparr>store := h', nodes := (nodes c)(nm \<mapsto> n')\<rparr>)"
proof -
  have sep: "addrs m \<inter> addrs n' = {}" if "nodes c nm' = Some m" "nm' \<noteq> nm" for nm' m
  proof -
    have "addrs m \<inter> own_addrs c nm = {}"
      using nodes_ok_sep [OF assms(1) that(1) _ that(2)] by (cases "nodes c nm") (simp_all add: own_addrs_def)
    moreover have "\<forall>a \<in> addrs m. a < length (store c)" using nodes_okD(2) [OF assms(1) that(1)] by (simp add: addrs_ok_def)
    ultimately show ?thesis using assms(6) by fastforce
  qed
  show ?thesis
  proof (rule nodes_okI)
    fix nm1 n1 assume n1: "nodes (c\<lparr>store := h', nodes := (nodes c)(nm \<mapsto> n')\<rparr>) nm1 = Some n1"
    show "node_ok b (store (c\<lparr>store := h', nodes := (nodes c)(nm \<mapsto> n')\<rparr>)) nm1 n1
      \<and> addrs_ok (store (c\<lparr>store := h', nodes := (nodes c)(nm \<mapsto> n')\<rparr>)) n1"
      using n1 nodes_ok_others [OF assms(1-3), of nm1 n1] assms(4,5) by (simp split: if_splits)
    show "ni_pods n1 \<noteq> []" if "ni_node n1 = None"
      using n1 that nodes_okD(3) [OF assms(1), of nm1 n1] assms(7) by (simp split: if_splits)
  next
    fix nm1 nm2 n1 n2
    assume "nodes (c\<lparr>store := h', nodes := (nodes c)(nm \<mapsto> n')\<rparr>) nm1 = Some n1"
      "nodes (c\<lparr>store := h', nodes := (nodes c)(nm \<mapsto> n')\<rparr>) nm2 = Some n2" "nm1 \<noteq> nm2"
    then show "addrs n1 \<inter> addrs n2 = {}"
      using sep [of nm1 n1] sep [of nm2 n2] nodes_ok_sep [OF assms(1), of nm1 n1 nm2 n2] by (simp add: Int_commute split: if_splits)
  qed
qed

lemma nodes_ok_drop:
  assumes "nodes_ok b c" "length (store c) \<le> length h'"
    and "\<forall>a < length (store c). a \<notin> own_addrs c nm \<longrightarrow> h' ! a = store c ! a"
  shows "nodes_ok b (c\<lparr>store := h', nodes := (nodes c)(nm := None)\<rparr>)"
  by (rule nodes_okI)
    (use nodes_ok_others [OF assms] nodes_okD(3) [OF assms(1)] nodes_ok_sep [OF assms(1)] in \<open>simp_all split: if_splits\<close>)

lemma nodes_ok_only: "nodes c' = nodes c \<Longrightarrow> store c' = store c \<Longrightarrow> nodes_ok b c' = nodes_ok b c"
  by (simp add: nodes_ok_def)

lemma place_only: "nodes c' = nodes c \<Longrightarrow> place c' = place c" "nodes c' = nodes c \<Longrightarrow> accounted c' = accounted c"
  by (simp_all add: place_def accounted_def fun_eq_iff)

lemma nodes_ok_accounted:
  assumes "nodes_ok b c" "nodes c nm = Some n"
  shows "set (ni_pods n) = {q. accounted c q \<and> p_NodeName q = nm}"
proof -
  have on: "p_NodeName q = nm" if "q \<in> set (ni_pods n)" for q
    using nodes_okD(1) [OF assms] that unfolding node_ok_def by blast
  have "q \<in> set (ni_pods n)" if "accounted c q" "p_NodeName q = nm" for q
    using that assms(2) by (simp add: accounted_def)
  moreover have "accounted c q" if "q \<in> set (ni_pods n)" for q
    using that assms(2) by (simp add: accounted_def on)
  ultimately show ?thesis using on by blast
qed

text \<open>
  Taking a pod object off its node is balanced when the object has the requests of the listed object
  with its key, the one whose requests were added.
\<close>

definition balanced :: "schedulerCache \<Rightarrow> pod \<Rightarrow> bool" where
  "balanced c p \<longleftrightarrow>
     (case nodes c (p_NodeName p) of
        None \<Rightarrow> True
      | Some n \<Rightarrow> \<forall>q \<in> set (ni_pods n). pod_key q = pod_key p \<longrightarrow> calculateResource q = calculateResource p)"

lemma accounted_balanced:
  assumes "nodes_ok b c" "accounted c p"
  shows "balanced c p"
proof -
  obtain n where n: "nodes c (p_NodeName p) = Some n" "p \<in> set (ni_pods n)" using assms(2) by (auto simp: accounted_def)
  have "distinct (map pod_key (ni_pods n))" using nodes_okD(1) [OF assms(1) n(1)] by (simp add: node_ok_def)
  then have "q = p" if "q \<in> set (ni_pods n)" "pod_key q = pod_key p" for q
    using same_key_same_pod [OF _ that(1) n(2) that(2)] by simp
  then show ?thesis by (auto simp: balanced_def n(1))
qed

text \<open>The node info that is there, or a new one.\<close>

lemma find_or_new_ok:
  assumes "nodes_ok b c" "find_or_new nm c = (h, n)"
  shows "node_ok b h nm n" "addrs_ok h n" "length (store c) \<le> length h" "\<forall>a < length (store c). h ! a = store c ! a"
    "addrs n \<subseteq> own_addrs c nm \<union> {length (store c)..}" "pod_key ` set (ni_pods n) = {k. place c k nm}"
    "set (ni_pods n) = {q. accounted c q \<and> p_NodeName q = nm}"
proof -
  have "node_ok b h nm n \<and> addrs_ok h n \<and> length (store c) \<le> length h \<and> (\<forall>a < length (store c). h ! a = store c ! a)
    \<and> addrs n \<subseteq> own_addrs c nm \<union> {length (store c)..} \<and> pod_key ` set (ni_pods n) = {k. place c k nm}
    \<and> set (ni_pods n) = {q. accounted c q \<and> p_NodeName q = nm}"
  proof (cases "nodes c nm")
    case None
    then have "empty_NodeInfo (store c) = (h, n)" using assms(2) by (simp add: find_or_new_def NewNodeInfo_def)
    from empty_NodeInfo_ok [OF this] None show ?thesis by (auto simp: place_def accounted_def)
  next
    case (Some m)
    then have "h = store c" "n = m" using assms(2) by (simp_all add: find_or_new_def)
    then show ?thesis using nodes_okD [OF assms(1) Some] nodes_ok_accounted [OF assms(1) Some]
      by (auto simp only: own_addrs_def place_def Some option.case option.inject simp_thms ex_simps)
  qed
  then show "node_ok b h nm n" "addrs_ok h n" "length (store c) \<le> length h" "\<forall>a < length (store c). h ! a = store c ! a"
    "addrs n \<subseteq> own_addrs c nm \<union> {length (store c)..}" "pod_key ` set (ni_pods n) = {k. place c k nm}"
    "set (ni_pods n) = {q. accounted c q \<and> p_NodeName q = nm}" by blast+
qed

lemma cache_addPod_ok:
  assumes "nodes_ok b c" "\<not> place c (pod_key p) (p_NodeName p)"
  shows "nodes_ok b (cache_addPod p c)"
    "place (cache_addPod p c) k nm \<longleftrightarrow> place c k nm \<or> k = pod_key p \<and> nm = p_NodeName p"
    "assumedPods (cache_addPod p c) = assumedPods c" "podStates (cache_addPod p c) = podStates c"
    "ttl (cache_addPod p c) = ttl c" "accounted (cache_addPod p c) q \<longleftrightarrow> accounted c q \<or> q = p"
proof -
  obtain h n where f: "find_or_new (p_NodeName p) c = (h, n)" by (cases "find_or_new (p_NodeName p) c")
  obtain h' n' where a: "ni_addPod p h n = (h', n')" by (cases "ni_addPod p h n")
  note fo = find_or_new_ok [OF assms(1) f]
  have "pod_key p \<notin> pod_key ` set (ni_pods n)" using fo(6) assms(2) by simp
  note ao = node_ok_addPod [OF fo(1,2) refl this a]
  have c': "cache_addPod p c = c\<lparr>store := h', nodes := (nodes c)(p_NodeName p \<mapsto> n')\<rparr>"
    by (simp add: cache_addPod_def f a)
  have "addrs_ok h' n'" using fo(2) ao(2,3) by (simp add: addrs_ok_def)
  moreover have "\<forall>a < length (store c). a \<notin> own_addrs c (p_NodeName p) \<longrightarrow> h' ! a = store c ! a"
    using fo(4,5) ao(4) by fastforce
  ultimately show "nodes_ok b (cache_addPod p c)"
    unfolding c' using fo(3,5) ao(1,2,3,5) by (intro nodes_ok_put [OF assms(1)]) auto
  have "pod_key ` set (ni_pods n') = insert (pod_key p) {k. place c k (p_NodeName p)}"
    using ao(5) fo(6) by auto
  then show "place (cache_addPod p c) k nm \<longleftrightarrow> place c k nm \<or> k = pod_key p \<and> nm = p_NodeName p"
    unfolding c' place_def by (auto simp: place_def)
  have "set (ni_pods n') = insert p {q. accounted c q \<and> p_NodeName q = p_NodeName p}" using ao(5) fo(7) by simp
  then show "accounted (cache_addPod p c) q \<longleftrightarrow> accounted c q \<or> q = p"
    unfolding c' accounted_def by (auto simp: accounted_def)
  show "assumedPods (cache_addPod p c) = assumedPods c" "podStates (cache_addPod p c) = podStates c"
    "ttl (cache_addPod p c) = ttl c" by (simp_all add: c')
qed

lemma cache_removePod_ok:
  assumes "nodes_ok b c" "b \<longrightarrow> balanced c p" "place c (pod_key p) (p_NodeName p)"
  shows "\<exists>c'. cache_removePod p c = Some (None, c') \<and> nodes_ok b c'
    \<and> (\<forall>k nm. place c' k nm \<longleftrightarrow> place c k nm \<and> \<not> (k = pod_key p \<and> nm = p_NodeName p))
    \<and> (\<forall>q. accounted c' q \<longleftrightarrow> accounted c q \<and> \<not> (pod_key q = pod_key p \<and> p_NodeName q = p_NodeName p))
    \<and> assumedPods c' = assumedPods c \<and> podStates c' = podStates c \<and> ttl c' = ttl c"
proof -
  obtain n where n: "nodes c (p_NodeName p) = Some n" "pod_key p \<in> pod_key ` set (ni_pods n)"
    using assms(3) by (auto simp: place_def)
  note ok = nodes_okD [OF assms(1) n(1)]
  have bal: "b \<longrightarrow> (\<forall>q \<in> set (ni_pods n). pod_key q = pod_key p \<longrightarrow> calculateResource q = calculateResource p)"
    using assms(2) by (simp add: balanced_def n(1))
  obtain h' n' where r: "ni_removePod p (store c) n = Some (None, h', n')" "node_ok b h' (p_NodeName p) n'" "addrs n' = addrs n"
    "length h' = length (store c)" "\<forall>a. a \<notin> addrs n \<longrightarrow> h' ! a = store c ! a"
    "pod_key ` set (ni_pods n') = pod_key ` set (ni_pods n) - {pod_key p}"
    "set (ni_pods n') = {q \<in> set (ni_pods n). pod_key q \<noteq> pod_key p}"
    using node_ok_removePod [OF ok(1,2) n(2) bal] by (elim exE conjE) (rule that)
  have own: "own_addrs c (p_NodeName p) = addrs n" by (simp add: own_addrs_def n(1))
  have frame: "\<forall>a < length (store c). a \<notin> own_addrs c (p_NodeName p) \<longrightarrow> h' ! a = store c ! a"
    using r(5) by (simp add: own)
  have "addrs_ok h' n'" using ok(2) r(3,4) by (simp add: addrs_ok_def)
  define c' where "c' = c\<lparr>store := h', nodes :=
      (if length (ni_pods n') = 0 \<and> ni_node n' = None then (nodes c)(p_NodeName p := None)
       else (nodes c)(p_NodeName p \<mapsto> n'))\<rparr>"
  have "cache_removePod p c = Some (None, c')" by (simp add: cache_removePod_def n(1) r(1) c'_def)
  moreover have "nodes_ok b c'"
    unfolding c'_def using nodes_ok_drop [OF assms(1) _ frame] nodes_ok_put [OF assms(1) _ frame r(2) \<open>addrs_ok h' n'\<close>] r(3,4) own
    by (cases "ni_node n'") simp_all
  moreover have "place c' k nm \<longleftrightarrow> place c k nm \<and> \<not> (k = pod_key p \<and> nm = p_NodeName p)" for k nm
    using r(6) n(1) by (cases "nm = p_NodeName p") (auto simp: place_def c'_def)
  moreover have "accounted c' q \<longleftrightarrow> accounted c q \<and> \<not> (pod_key q = pod_key p \<and> p_NodeName q = p_NodeName p)" for q
  proof (cases "p_NodeName q = p_NodeName p")
    case True
    then have "accounted c' q \<longleftrightarrow> q \<in> set (ni_pods n')" by (simp add: accounted_def c'_def)
    moreover have "accounted c q \<longleftrightarrow> q \<in> set (ni_pods n)" using True n(1) by (simp add: accounted_def)
    ultimately show ?thesis using r(7) True by simp
  qed (simp add: accounted_def c'_def)
  moreover have "assumedPods c' = assumedPods c \<and> podStates c' = podStates c \<and> ttl c' = ttl c" by (simp add: c'_def)
  ultimately show ?thesis by (intro exI [of _ c'] conjI allI) simp_all
qed

lemma cache_removePod_absent:
  assumes "nodes_ok b c" "\<not> place c (pod_key p) (p_NodeName p)"
  shows "cache_removePod p c = None \<or> (\<exists>err. cache_removePod p c = Some (Some err, c))"
proof (cases "nodes c (p_NodeName p)")
  case (Some n)
  then have "pod_key p \<notin> pod_key ` set (ni_pods n)" using assms(2) by (auto simp: place_def)
  from removePod_absent [OF nodes_okD(1) [OF assms(1) Some] this] show ?thesis
    using Some by (auto simp: cache_removePod_def fun_upd_idem)
qed (simp add: cache_removePod_def)

subsection \<open>Invariant of the pod states\<close>

text \<open>
  A pod that is added or assumed is accounted on one node, no other pod is accounted, an assumed
  pod is on the node it was assumed for, and a finished binding has a deadline.
\<close>

definition states_ok :: "(key \<Rightarrow> string \<Rightarrow> bool) \<Rightarrow> key set \<Rightarrow> (key \<rightharpoonup> podState) \<Rightarrow> bool" where
  "states_ok P A S \<longleftrightarrow>
     A \<subseteq> dom S
     \<and> (\<forall>k ps. S k = Some ps \<longrightarrow>
          pod_key (ps_pod ps) = k \<and> (\<exists>nm. P k nm)
          \<and> (k \<in> A \<longrightarrow> P k (p_NodeName (ps_pod ps)) \<and> (ps_bindingFinished ps \<longrightarrow> ps_deadline ps \<noteq> None)))
     \<and> (\<forall>k nm nm'. P k nm \<longrightarrow> P k nm' \<longrightarrow> nm = nm') \<and> (\<forall>k nm. P k nm \<longrightarrow> S k \<noteq> None)"

text \<open>The object of the state of an assumed pod is the listed one: an assumed pod is not updated.\<close>

definition assumed_ok :: "(pod \<Rightarrow> bool) \<Rightarrow> key set \<Rightarrow> (key \<rightharpoonup> podState) \<Rightarrow> bool" where
  "assumed_ok L A S \<longleftrightarrow> (\<forall>k ps. k \<in> A \<longrightarrow> S k = Some ps \<longrightarrow> L (ps_pod ps))"

definition cache_inv :: "bool \<Rightarrow> schedulerCache \<Rightarrow> bool" where
  "cache_inv b c \<longleftrightarrow> nodes_ok b c \<and> states_ok (place c) (assumedPods c) (podStates c)
     \<and> assumed_ok (accounted c) (assumedPods c) (podStates c)"

lemma cache_inv_weaken: "cache_inv b c \<Longrightarrow> (b' \<Longrightarrow> b) \<Longrightarrow> cache_inv b' c"
  unfolding cache_inv_def using nodes_ok_weaken by blast

lemma states_okD:
  assumes "states_ok P A S"
  shows "S k = Some ps \<Longrightarrow> pod_key (ps_pod ps) = k" "S k = Some ps \<Longrightarrow> \<exists>nm. P k nm"
    "S k = Some ps \<Longrightarrow> k \<in> A \<Longrightarrow> P k (p_NodeName (ps_pod ps))"
    "S k = Some ps \<Longrightarrow> k \<in> A \<Longrightarrow> ps_bindingFinished ps \<Longrightarrow> ps_deadline ps \<noteq> None"
    "k \<in> A \<Longrightarrow> S k \<noteq> None" "P k nm \<Longrightarrow> S k \<noteq> None" "P k nm \<Longrightarrow> P k nm' \<Longrightarrow> nm = nm'"
  using assms unfolding states_ok_def by blast+

text \<open>A new pod, a change of a state, a pod that goes.\<close>

lemma states_ok_new:
  assumes "states_ok P A S" "S k = None" "pod_key (ps_pod ps) = k"
    and "\<not> ps_bindingFinished ps" "A' = A \<or> A' = insert k A"
    and "\<forall>k' nm. P' k' nm \<longleftrightarrow> P k' nm \<or> k' = k \<and> nm = p_NodeName (ps_pod ps)"
  shows "states_ok P' A' (S(k \<mapsto> ps))"
proof -
  have "\<not> P k nm" for nm using assms(1,2) states_okD(6) by blast
  then have "P' k' = (if k' = k then (\<lambda>nm. nm = p_NodeName (ps_pod ps)) else P k')" for k'
    using assms(6) by (auto simp: fun_eq_iff)
  then show ?thesis using assms(1-5) unfolding states_ok_def by (auto split: if_splits)
qed

lemma states_ok_gone:
  assumes "states_ok P A S" "P k nm" "\<forall>k' nm'. P' k' nm' \<longleftrightarrow> P k' nm' \<and> \<not> (k' = k \<and> nm' = nm)"
  shows "states_ok P' (A - {k}) (S(k := None))"
proof -
  have "P' k' = (if k' = k then (\<lambda>nm. False) else P k')" for k'
    using assms(2,3) states_okD(7) [OF assms(1)] by (auto simp: fun_eq_iff)
  then show ?thesis using assms(1) unfolding states_ok_def by (auto split: if_splits)
qed

lemma states_ok_moved:
  assumes "states_ok P A S" "P k nm" "k \<notin> A'" "A' \<subseteq> A" "S k = Some ps" "S' = S(k \<mapsto> ps')" "ps_pod ps' = ps_pod ps"
    and "\<forall>k' nm'. P' k' nm' \<longleftrightarrow> P k' nm' \<and> \<not> (k' = k \<and> nm' = nm) \<or> k' = k \<and> nm' = to"
  shows "states_ok P' A' S'"
proof -
  have "P' k' = (if k' = k then (\<lambda>nm. nm = to) else P k')" for k'
    using assms(2,8) states_okD(7) [OF assms(1)] by (auto simp: fun_eq_iff)
  then show ?thesis using assms(1-7) unfolding states_ok_def by (auto split: if_splits)
qed

lemma states_ok_added:
  "states_ok P A S \<Longrightarrow> S k = Some ps \<Longrightarrow> ps_pod ps' = ps_pod ps \<Longrightarrow> states_ok P (A - {k}) (S(k \<mapsto> ps'))"
  unfolding states_ok_def by (auto split: if_splits)

text \<open>The listed objects of the other assumed pods stay when one pod is added, moved or removed.\<close>

lemma assumed_ok_new:
  "assumed_ok L A S \<Longrightarrow> A' = A \<or> A' = insert k A \<Longrightarrow> \<forall>q. L' q \<longleftrightarrow> L q \<or> q = ps_pod ps \<Longrightarrow> assumed_ok L' A' (S(k \<mapsto> ps))"
  by (auto simp: assumed_ok_def)

lemma assumed_ok_other:
  assumes "assumed_ok L A S" "states_ok P A S" "A' \<subseteq> A - {k}" "\<forall>j. j \<noteq> k \<longrightarrow> S' j = S j"
    and "\<forall>q. L q \<longrightarrow> pod_key q \<noteq> k \<longrightarrow> L' q"
  shows "assumed_ok L' A' S'"
  unfolding assumed_ok_def
proof (intro allI impI)
  fix j ps assume "j \<in> A'" "S' j = Some ps"
  then have "j \<in> A" "j \<noteq> k" "S j = Some ps" using assms(3,4) by auto
  then show "L' (ps_pod ps)" using assms(1,5) states_okD(1) [OF assms(2)] by (auto simp: assumed_ok_def)
qed

lemma assumed_balanced:
  assumes "cache_inv b c" "k \<in> assumedPods c" "podStates c k = Some ps"
  shows "balanced c (ps_pod ps)"
  using assms accounted_balanced [of b c "ps_pod ps"] by (auto simp: cache_inv_def assumed_ok_def)

subsection \<open>Every event keeps the invariant\<close>

definition done_inv :: "bool \<Rightarrow> cache_outcome \<Rightarrow> bool" where
  "done_inv b out \<longleftrightarrow> (\<forall>err c. out = Done err c \<longrightarrow> cache_inv b c)"

lemma done_inv_simps [simp]: "done_inv b (Done err c) \<longleftrightarrow> cache_inv b c" "done_inv b Crash"
  by (auto simp: done_inv_def)

lemma cache_inv_intro:
  "nodes_ok b c \<Longrightarrow> nodes c' = nodes c \<Longrightarrow> store c' = store c \<Longrightarrow>
     states_ok (place c) (assumedPods c') (podStates c') \<Longrightarrow>
     assumed_ok (accounted c) (assumedPods c') (podStates c') \<Longrightarrow> cache_inv b c'"
  unfolding cache_inv_def by (metis nodes_ok_only place_only)

lemma cache_inv_cong:
  "cache_inv b (c'\<lparr>assumedPods := A, podStates := S\<rparr>) = (nodes_ok b c' \<and> states_ok (place c') A S \<and> assumed_ok (accounted c') A S)"
  "cache_inv b (c'\<lparr>podStates := S\<rparr>) = (nodes_ok b c' \<and> states_ok (place c') (assumedPods c') S
     \<and> assumed_ok (accounted c') (assumedPods c') S)"
  by (simp_all add: cache_inv_def nodes_ok_def place_def [abs_def] accounted_def [abs_def])

lemma add_new_inv:
  assumes "cache_inv b c" "podStates c (pod_key p) = None"
    and "A' = assumedPods c \<or> A' = insert (pod_key p) (assumedPods c)"
    and "ps = \<lparr>ps_pod = p, ps_deadline = None, ps_bindingFinished = False\<rparr>"
  shows "cache_inv b ((cache_addPod p c)\<lparr>podStates := (podStates c)(pod_key p \<mapsto> ps), assumedPods := A'\<rparr>)"
proof -
  have s: "states_ok (place c) (assumedPods c) (podStates c)" and n: "nodes_ok b c"
    and l: "assumed_ok (accounted c) (assumedPods c) (podStates c)" using assms(1) by (auto simp: cache_inv_def)
  have "\<not> place c (pod_key p) (p_NodeName p)" using states_okD(6) [OF s] assms(2) by blast
  note a = cache_addPod_ok [OF n this]
  show ?thesis
  proof (rule cache_inv_intro [OF a(1)])
    have "states_ok (place (cache_addPod p c)) A' ((podStates c)(pod_key p \<mapsto> ps))"
      by (rule states_ok_new [OF s assms(2)]) (use assms(3,4) a(2) in auto)
    then show "states_ok (place (cache_addPod p c))
        (assumedPods ((cache_addPod p c)\<lparr>podStates := (podStates c)(pod_key p \<mapsto> ps), assumedPods := A'\<rparr>))
        (podStates ((cache_addPod p c)\<lparr>podStates := (podStates c)(pod_key p \<mapsto> ps), assumedPods := A'\<rparr>))" by simp
    have "assumed_ok (accounted (cache_addPod p c)) A' ((podStates c)(pod_key p \<mapsto> ps))"
      by (rule assumed_ok_new [OF l assms(3)]) (use a(6) assms(4) in simp)
    then show "assumed_ok (accounted (cache_addPod p c))
        (assumedPods ((cache_addPod p c)\<lparr>podStates := (podStates c)(pod_key p \<mapsto> ps), assumedPods := A'\<rparr>))
        (podStates ((cache_addPod p c)\<lparr>podStates := (podStates c)(pod_key p \<mapsto> ps), assumedPods := A'\<rparr>))" by simp
  qed simp_all
qed

lemma AssumePod_inv:
  assumes "cache_inv b c"
  shows "done_inv b (AssumePod p c)" "AssumePod p c \<noteq> Crash"
proof -
  have same: "podStates (cache_addPod p c) = podStates c" "assumedPods (cache_addPod p c) = assumedPods c"
    by (simp_all add: cache_addPod_def case_prod_beta)
  show "done_inv b (AssumePod p c)"
    using assms add_new_inv [OF assms _ _ refl, of p "insert (pod_key p) (assumedPods c)"]
    by (auto simp: AssumePod_def Let_def same)
  show "AssumePod p c \<noteq> Crash" by (simp add: AssumePod_def Let_def)
qed

lemma finishBinding_inv:
  assumes "cache_inv b c"
  shows "done_inv b (finishBinding p now c)" "finishBinding p now c \<noteq> Crash"
proof -
  have "cache_inv b (c\<lparr>podStates := (podStates c)(k \<mapsto> ps\<lparr>ps_bindingFinished := True, ps_deadline := Some t\<rparr>)\<rparr>)"
    if "podStates c k = Some ps" for k ps t
    by (rule cache_inv_intro [of b c]) (use assms that in \<open>auto simp: cache_inv_def states_ok_def assumed_ok_def split: if_splits\<close>)
  then show "done_inv b (finishBinding p now c)" "finishBinding p now c \<noteq> Crash"
    using assms by (auto simp: finishBinding_def split: option.splits)
qed

text \<open>Removing the pod of a state, whose node is the one of the state.\<close>

lemma remove_state_inv:
  assumes "cache_inv b c" "b \<longrightarrow> balanced c p" "place c (pod_key p) (p_NodeName p)"
  shows "\<exists>c'. cache_removePod p c = Some (None, c') \<and> assumedPods c' = assumedPods c \<and> podStates c' = podStates c
    \<and> cache_inv b (c'\<lparr>assumedPods := assumedPods c' - {pod_key p}, podStates := (podStates c')(pod_key p := None)\<rparr>)
    \<and> (\<forall>k nm. place c' k nm \<longleftrightarrow> place c k nm \<and> \<not> (k = pod_key p \<and> nm = p_NodeName p)) \<and> nodes_ok b c'
    \<and> (\<forall>q. accounted c' q \<longleftrightarrow> accounted c q \<and> \<not> (pod_key q = pod_key p \<and> p_NodeName q = p_NodeName p))"
proof -
  have s: "states_ok (place c) (assumedPods c) (podStates c)" and n: "nodes_ok b c"
    and l: "assumed_ok (accounted c) (assumedPods c) (podStates c)" using assms(1) by (auto simp: cache_inv_def)
  obtain c' where c': "cache_removePod p c = Some (None, c')" "nodes_ok b c'"
    "\<forall>k nm. place c' k nm \<longleftrightarrow> place c k nm \<and> \<not> (k = pod_key p \<and> nm = p_NodeName p)"
    "assumedPods c' = assumedPods c" "podStates c' = podStates c"
    "\<forall>q. accounted c' q \<longleftrightarrow> accounted c q \<and> \<not> (pod_key q = pod_key p \<and> p_NodeName q = p_NodeName p)"
    using cache_removePod_ok [OF n assms(2,3)] by (elim exE conjE) (rule that)
  have "cache_inv b (c'\<lparr>assumedPods := assumedPods c' - {pod_key p}, podStates := (podStates c')(pod_key p := None)\<rparr>)"
    by (rule cache_inv_intro [OF c'(2)]) (use states_ok_gone [OF s assms(3) c'(3)] c'(4,5)
      assumed_ok_other [OF l s, of "assumedPods c - {pod_key p}" "pod_key p" "(podStates c)(pod_key p := None)" "accounted c'"] c'(6) in simp_all)
  then show ?thesis using c' by (intro exI [of _ c'] conjI) simp_all
qed

lemma remove_known_inv:
  assumes "cache_inv b c" "podStates c k = Some st" "place c k (p_NodeName (ps_pod st))" "b \<longrightarrow> balanced c (ps_pod st)"
  shows "\<exists>c'. cache_removePod (ps_pod st) c = Some (None, c') \<and> assumedPods c' = assumedPods c \<and> podStates c' = podStates c
    \<and> cache_inv b (c'\<lparr>assumedPods := assumedPods c' - {k}, podStates := (podStates c')(k := None)\<rparr>)
    \<and> (\<forall>k' nm. place c' k' nm \<longleftrightarrow> place c k' nm \<and> \<not> (k' = k \<and> nm = p_NodeName (ps_pod st))) \<and> nodes_ok b c'
    \<and> (\<forall>q. accounted c' q \<longleftrightarrow> accounted c q \<and> \<not> (pod_key q = k \<and> p_NodeName q = p_NodeName (ps_pod st)))"
proof -
  have s: "states_ok (place c) (assumedPods c) (podStates c)" using assms(1) by (simp add: cache_inv_def)
  have k: "pod_key (ps_pod st) = k" by (rule states_okD(1) [OF s assms(2)])
  show ?thesis using remove_state_inv [OF assms(1,4)] assms(3) unfolding k by simp
qed

lemma remove_absent_inv:
  assumes "cache_inv b c" "cache_removePod p c = Some (err, c')" "\<not> place c (pod_key p) (p_NodeName p)"
  shows "err \<noteq> None \<and> c' = c"
  using cache_removePod_absent [of b c p] assms by (auto simp: cache_inv_def)

lemma ForgetPod_inv:
  assumes "cache_inv b c" "b \<longrightarrow> balanced c p"
  shows "done_inv b (ForgetPod p c)" "podStates c (pod_key p) \<noteq> None \<Longrightarrow> ForgetPod p c \<noteq> Crash"
proof -
  have s: "states_ok (place c) (assumedPods c) (podStates c)" using assms(1) by (simp add: cache_inv_def)
  have "done_inv b (ForgetPod p c) \<and> (podStates c (pod_key p) \<noteq> None \<longrightarrow> ForgetPod p c \<noteq> Crash)"
  proof (cases "podStates c (pod_key p)")
    case (Some st)
    show ?thesis
    proof (cases "p_NodeName (ps_pod st) = p_NodeName p \<and> pod_key p \<in> assumedPods c")
      case True
      then have "place c (pod_key p) (p_NodeName p)" using states_okD(3) [OF s Some] by simp
      from remove_state_inv [OF assms this] show ?thesis using True Some by (auto simp: ForgetPod_def)
    next
      case False
      then show ?thesis using assms(1) Some by (auto simp: ForgetPod_def)
    qed
  qed (simp add: ForgetPod_def)
  then show "done_inv b (ForgetPod p c)" "podStates c (pod_key p) \<noteq> None \<Longrightarrow> ForgetPod p c \<noteq> Crash" by blast+
qed

lemma AddPod_inv:
  assumes "cache_inv b c"
  shows "done_inv b (AddPod p c)" "AddPod p c \<noteq> Crash"
proof -
  have s: "states_ok (place c) (assumedPods c) (podStates c)" and n: "nodes_ok b c"
    and l: "assumed_ok (accounted c) (assumedPods c) (podStates c)" using assms by (auto simp: cache_inv_def)
  have same: "podStates (cache_addPod q d) = podStates d" "assumedPods (cache_addPod q d) = assumedPods d" for q d
    by (simp_all add: cache_addPod_def case_prod_beta)
  have "done_inv b (AddPod p c) \<and> AddPod p c \<noteq> Crash"
  proof (cases "podStates c (pod_key p)")
    case None
    have "cache_inv b ((cache_addPod p c)\<lparr>podStates := (podStates c)(pod_key p \<mapsto>
        \<lparr>ps_pod = p, ps_deadline = None, ps_bindingFinished = False\<rparr>), assumedPods := assumedPods c\<rparr>)"
      by (rule add_new_inv [OF assms None]) simp_all
    moreover have "(cache_addPod p c)\<lparr>podStates := S, assumedPods := assumedPods c\<rparr> = (cache_addPod p c)\<lparr>podStates := S\<rparr>" for S
      using same(2) [of p c] by simp
    ultimately show ?thesis using None by (simp add: AddPod_def Let_def same)
  next
    case (Some st)
    show ?thesis
    proof (cases "pod_key p \<in> assumedPods c")
      case True
      then have pl: "place c (pod_key p) (p_NodeName (ps_pod st))" by (rule states_okD(3) [OF s Some])
      show ?thesis
      proof (cases "p_NodeName (ps_pod st) = p_NodeName p")
        case same_node: True
        have "cache_inv b (c\<lparr>assumedPods := assumedPods c - {pod_key p}, podStates := (podStates c)(pod_key p \<mapsto> st\<lparr>ps_deadline := None\<rparr>)\<rparr>)"
          by (rule cache_inv_intro [OF n]) (use states_ok_added [OF s Some, of "st\<lparr>ps_deadline := None\<rparr>"]
            assumed_ok_other [OF l s, of _ "pod_key p" _ "accounted c"] in simp_all)
        then show ?thesis using True Some same_node by (simp add: AddPod_def)
      next
        case other: False
        obtain c1 where c1: "cache_removePod (ps_pod st) c = Some (None, c1)" "assumedPods c1 = assumedPods c" "podStates c1 = podStates c"
          "\<forall>k nm. place c1 k nm \<longleftrightarrow> place c k nm \<and> \<not> (k = pod_key p \<and> nm = p_NodeName (ps_pod st))" "nodes_ok b c1"
          "\<forall>q. accounted c1 q \<longleftrightarrow> accounted c q \<and> \<not> (pod_key q = pod_key p \<and> p_NodeName q = p_NodeName (ps_pod st))"
          using remove_known_inv [OF assms Some pl impI [OF assumed_balanced [OF assms True Some]]] by (elim exE conjE) (rule that)
        have "\<not> place c (pod_key p) (p_NodeName p)" using states_okD(7) [OF s pl, of "p_NodeName p"] other by auto
        then have "\<not> place c1 (pod_key p) (p_NodeName p)" using c1(4) by simp
        note a = cache_addPod_ok [OF c1(5) this]
        have "states_ok (place (cache_addPod p c1)) (assumedPods c - {pod_key p}) ((podStates c)(pod_key p \<mapsto> st\<lparr>ps_deadline := None\<rparr>))"
          by (rule states_ok_moved [OF s pl _ _ Some refl, where to = "p_NodeName p"]) (use a(2) c1(4) in simp_all)
        moreover have "assumed_ok (accounted (cache_addPod p c1)) (assumedPods c - {pod_key p}) ((podStates c)(pod_key p \<mapsto> st\<lparr>ps_deadline := None\<rparr>))"
          by (rule assumed_ok_other [OF l s]) (use a(6) c1(6) in auto)
        ultimately have "cache_inv b ((cache_addPod p c1)\<lparr>assumedPods := assumedPods c - {pod_key p},
            podStates := (podStates c)(pod_key p \<mapsto> st\<lparr>ps_deadline := None\<rparr>)\<rparr>)"
          by (intro cache_inv_intro [OF a(1)]) simp_all
        then show ?thesis using True Some other c1 by (simp add: AddPod_def same)
      qed
    qed (use assms Some in \<open>simp add: AddPod_def\<close>)
  qed
  then show "done_inv b (AddPod p c)" "AddPod p c \<noteq> Crash" by blast+
qed

lemma RemovePod_inv:
  assumes "cache_inv b c" "b \<longrightarrow> (\<forall>ps. podStates c (pod_key p) = Some ps \<longrightarrow> balanced c (ps_pod ps))"
  shows "done_inv b (RemovePod p c)"
proof (cases "podStates c (pod_key p)")
  case (Some st)
  have s: "states_ok (place c) (assumedPods c) (podStates c)" using assms(1) by (simp add: cache_inv_def)
  note k = states_okD(1) [OF s Some] states_okD(2) [OF s Some]
  show ?thesis
  proof (cases "place c (pod_key p) (p_NodeName (ps_pod st))")
    case True
    obtain c' where c': "cache_removePod (ps_pod st) c = Some (None, c')" "assumedPods c' = assumedPods c" "podStates c' = podStates c"
      "cache_inv b (c'\<lparr>assumedPods := assumedPods c' - {pod_key p}, podStates := (podStates c')(pod_key p := None)\<rparr>)"
      using remove_known_inv [OF assms(1) Some True] assms(2) Some by (auto intro: that)
    show ?thesis
    proof (cases "pod_key p \<in> assumedPods c")
      case False
      then have "cache_inv b (c'\<lparr>podStates := (podStates c')(pod_key p := None)\<rparr>)"
        using c'(4) unfolding cache_inv_cong(1) unfolding cache_inv_cong(2) by (simp add: c'(2))
      then show ?thesis using Some False c'(1,3) by (simp add: RemovePod_def)
    qed (use Some assms(1) in \<open>simp add: RemovePod_def\<close>)
  next
    case False
    then show ?thesis
      using Some assms(1) remove_absent_inv [OF assms(1), of "ps_pod st"] k
      by (auto simp: RemovePod_def split: option.splits)
  qed
qed (use assms(1) in \<open>simp add: RemovePod_def\<close>)

lemma UpdatePod_inv:
  assumes "cache_inv b c" "b \<longrightarrow> balanced c old" "pod_key new = pod_key old"
  shows "done_inv b (UpdatePod old new c)"
proof (cases "podStates c (pod_key old)")
  case (Some st)
  have s: "states_ok (place c) (assumedPods c) (podStates c)" using assms(1) by (simp add: cache_inv_def)
  have l: "assumed_ok (accounted c) (assumedPods c) (podStates c)" using assms(1) by (simp add: cache_inv_def)
  show ?thesis
  proof (cases "place c (pod_key old) (p_NodeName old)")
    case True
    obtain c' where c': "cache_removePod old c = Some (None, c')" "assumedPods c' = assumedPods c" "podStates c' = podStates c"
      "\<forall>k nm. place c' k nm \<longleftrightarrow> place c k nm \<and> \<not> (k = pod_key old \<and> nm = p_NodeName old)" "nodes_ok b c'"
      "\<forall>q. accounted c' q \<longleftrightarrow> accounted c q \<and> \<not> (pod_key q = pod_key old \<and> p_NodeName q = p_NodeName old)"
      using remove_state_inv [OF assms(1,2) True] by (elim exE conjE) (rule that)
    have "\<not> place c' (pod_key new) (p_NodeName new)"
      using states_okD(7) [OF s True, of "p_NodeName new"] c'(4) assms(3) by auto
    note a = cache_addPod_ok [OF c'(5) this]
    have moved: "states_ok (place (cache_addPod new c')) (assumedPods c) (podStates c)" if "pod_key old \<notin> assumedPods c"
      by (rule states_ok_moved [OF s True that _ Some, where ps' = st and to = "p_NodeName new"])
        (use a(2) c'(4) assms(3) Some in \<open>simp_all add: fun_upd_idem\<close>)
    have l': "assumed_ok (accounted (cache_addPod new c')) (assumedPods c) (podStates c)" if "pod_key old \<notin> assumedPods c"
      by (rule assumed_ok_other [OF l s, where k = "pod_key old"]) (use a(6) c'(6) that in auto)
    have "cache_inv b (cache_addPod new c')" if "pod_key old \<notin> assumedPods c"
      by (rule cache_inv_intro [OF a(1)]) (use moved [OF that] l' [OF that] a(3,4) c'(2,3) in simp_all)
    then show ?thesis using Some assms(1) c'(1) by (simp add: UpdatePod_def cache_updatePod_def)
  next
    case False
    have "cache_removePod old c = None \<or> (\<exists>err. cache_removePod old c = Some (Some err, c))"
      by (rule cache_removePod_absent [of b, OF _ False]) (use assms(1) in \<open>simp add: cache_inv_def\<close>)
    then show ?thesis using Some assms(1) by (auto simp: UpdatePod_def cache_updatePod_def)
  qed
qed (use assms(1) in \<open>simp add: UpdatePod_def\<close>)

lemma node_step_inv:
  assumes "cache_inv b c" "nodes_ok b c'" "\<forall>k nm. place c' k nm = place c k nm" "\<forall>q. accounted c' q = accounted c q"
    and "assumedPods c' = assumedPods c" "podStates c' = podStates c"
  shows "cache_inv b c'"
proof -
  have "place c' = place c" "accounted c' = accounted c" using assms(3,4) by (simp_all add: fun_eq_iff)
  then show ?thesis using assms by (simp add: cache_inv_def)
qed

lemma AddNode_inv:
  assumes "cache_inv b c"
  shows "done_inv b (AddNode node c)" "AddNode node c \<noteq> Crash"
proof -
  have n: "nodes_ok b c" using assms by (simp add: cache_inv_def)
  obtain h m where f: "find_or_new (v_Name node) c = (h, m)" by (cases "find_or_new (v_Name node) c")
  obtain h' m' where a: "SetNode node h m = (h', m')" by (cases "SetNode node h m")
  note fo = find_or_new_ok [OF n f] and so = SetNode_ok [OF find_or_new_ok(1,2) [OF n f] a]
  define c' where "c' = c\<lparr>store := h', nodes := (nodes c)(v_Name node \<mapsto> m')\<rparr>"
  have "addrs_ok h' m'" using fo(2) so(2,3) by (simp add: addrs_ok_def)
  moreover have "\<forall>a < length (store c). a \<notin> own_addrs c (v_Name node) \<longrightarrow> h' ! a = store c ! a"
    using fo(4,5) so(4) by fastforce
  ultimately have "nodes_ok b c'"
    unfolding c'_def using fo(3,5) so(1,2,3,6) by (intro nodes_ok_put [OF n]) simp_all
  moreover have "pod_key ` set (ni_pods m') = {k. place c k (v_Name node)}" using fo(6) so(5) by simp
  then have "\<forall>k nm. place c' k nm = place c k nm" unfolding c'_def place_def by (auto simp: place_def)
  moreover have "set (ni_pods m') = {q. accounted c q \<and> p_NodeName q = v_Name node}" using fo(7) so(5) by simp
  then have "\<forall>q. accounted c' q = accounted c q" unfolding c'_def accounted_def by (auto simp: accounted_def)
  ultimately have "cache_inv b c'" by (rule node_step_inv [OF assms]) (simp_all add: c'_def)
  then show "done_inv b (AddNode node c)" by (simp add: AddNode_def f a c'_def)
  show "AddNode node c \<noteq> Crash" by (simp add: AddNode_def f a)
qed

lemma UpdateNode_is_AddNode: "UpdateNode old new c = AddNode new c"
  by (simp add: UpdateNode_def AddNode_def)

lemma RemoveNode_inv:
  assumes "cache_inv b c"
  shows "done_inv b (RemoveNode node c)"
proof (cases "nodes c (v_Name node)")
  case (Some m)
  have n: "nodes_ok b c" using assms by (simp add: cache_inv_def)
  obtain h' m' where a: "ni_RemoveNode (store c) m = (h', m')" by (cases "ni_RemoveNode (store c) m")
  note ok = nodes_okD [OF n Some] and ro = ni_RemoveNode_ok [OF nodes_okD(1,2) [OF n Some] a]
  define c' where "c' = c\<lparr>store := h', nodes :=
      (if length (ni_pods m') = 0 \<and> ni_node m' = None then (nodes c)(v_Name node := None) else (nodes c)(v_Name node \<mapsto> m'))\<rparr>"
  have frame: "\<forall>a < length (store c). a \<notin> own_addrs c (v_Name node) \<longrightarrow> h' ! a = store c ! a" using ro(5) by simp
  have "addrs m' \<subseteq> own_addrs c (v_Name node) \<union> {length (store c)..}" using ro(3) by (auto simp: own_addrs_def Some)
  then have "nodes_ok b c'"
    unfolding c'_def using nodes_ok_drop [OF n _ frame] nodes_ok_put [OF n _ frame ro(1,2)] ro(4,7) by simp
  moreover have "\<forall>k nm. place c' k nm = place c k nm"
    using ro(6,7) Some by (auto simp: c'_def place_def)
  moreover have "\<forall>q. accounted c' q = accounted c q"
    using ro(6,7) Some by (auto simp: c'_def accounted_def)
  ultimately have "cache_inv b c'" by (rule node_step_inv [OF assms]) (simp_all add: c'_def)
  then show ?thesis by (simp add: RemoveNode_def Some a c'_def)
qed (simp add: RemoveNode_def)

subsection \<open>Expiration\<close>

definition expired :: "time \<Rightarrow> schedulerCache \<Rightarrow> key \<Rightarrow> bool" where
  "expired now c k \<longleftrightarrow>
     (\<exists>ps deadline. podStates c k = Some ps \<and> ps_bindingFinished ps \<and> ps_deadline ps = Some deadline \<and> now > deadline)"

lemma expirePod_inv:
  assumes "cache_inv b c" "k \<in> assumedPods c" "podStates c k = Some ps"
  shows "\<exists>c'. expirePod k ps c = Some (None, c') \<and> cache_inv b c' \<and> assumedPods c' = assumedPods c - {k}
    \<and> podStates c' = (podStates c)(k := None) \<and> (\<forall>k' nm. place c' k' nm \<longleftrightarrow> place c k' nm \<and> k' \<noteq> k)"
proof -
  have s: "states_ok (place c) (assumedPods c) (podStates c)" using assms(1) by (simp add: cache_inv_def)
  have pl: "place c k (p_NodeName (ps_pod ps))" by (rule states_okD(3) [OF s assms(3,2)])
  obtain c1 where c1: "cache_removePod (ps_pod ps) c = Some (None, c1)" "assumedPods c1 = assumedPods c" "podStates c1 = podStates c"
    "cache_inv b (c1\<lparr>assumedPods := assumedPods c1 - {k}, podStates := (podStates c1)(k := None)\<rparr>)"
    "\<forall>k' nm. place c1 k' nm \<longleftrightarrow> place c k' nm \<and> \<not> (k' = k \<and> nm = p_NodeName (ps_pod ps))"
    using remove_known_inv [OF assms(1,3) pl impI [OF assumed_balanced [OF assms]]] by (elim exE conjE) (rule that)
  define c' where "c' = c1\<lparr>assumedPods := assumedPods c1 - {k}, podStates := (podStates c1)(k := None)\<rparr>"
  have "place c' k' nm \<longleftrightarrow> place c k' nm \<and> k' \<noteq> k" for k' nm
    using c1(5) states_okD(7) [OF s pl, of nm] by (auto simp: c'_def place_def)
  moreover have "expirePod k ps c = Some (None, c')" by (simp add: expirePod_def c1(1) c'_def)
  ultimately show ?thesis using c1(2,3,4) by (intro exI [of _ c']) (simp add: c'_def)
qed

text \<open>The loop removes the expired pods among those it visits, and nothing else.\<close>

lemma cleanup_loop_inv:
  assumes "cache_inv b c" "distinct ks" "set ks \<subseteq> assumedPods c"
  shows "\<exists>c'. cleanup_loop now ks c = Some c' \<and> cache_inv b c'
    \<and> assumedPods c' = assumedPods c - {k \<in> set ks. expired now c k}
    \<and> podStates c' = (\<lambda>k. if k \<in> set ks \<and> expired now c k then None else podStates c k)
    \<and> (\<forall>k nm. place c' k nm \<longleftrightarrow> place c k nm \<and> \<not> (k \<in> set ks \<and> expired now c k))"
  using assms
proof (induction ks arbitrary: c)
  case (Cons k ks)
  have s: "states_ok (place c) (assumedPods c) (podStates c)" using Cons.prems(1) by (simp add: cache_inv_def)
  have k: "k \<in> assumedPods c" "k \<notin> set ks" using Cons.prems by auto
  obtain ps where ps: "podStates c k = Some ps" using states_okD(5) [OF s k(1)] by blast
  show ?case
  proof (cases "expired now c k")
    case False
    obtain c' where "cleanup_loop now ks c = Some c'" "cache_inv b c'"
      "assumedPods c' = assumedPods c - {k \<in> set ks. expired now c k}"
      "podStates c' = (\<lambda>k. if k \<in> set ks \<and> expired now c k then None else podStates c k)"
      "\<forall>k nm. place c' k nm \<longleftrightarrow> place c k nm \<and> \<not> (k \<in> set ks \<and> expired now c k)"
      using Cons.IH [OF Cons.prems(1)] Cons.prems by auto
    moreover have "cleanup_loop now (k # ks) c = cleanup_loop now ks c"
      using False ps states_okD(4) [OF s ps k(1)] by (auto simp: expired_def)
    moreover have "{x \<in> set (k # ks). expired now c x} = {x \<in> set ks. expired now c x}"
      and "x \<in> set (k # ks) \<and> expired now c x \<longleftrightarrow> x \<in> set ks \<and> expired now c x" for x using False by auto
    ultimately show ?thesis by (intro exI [of _ c']) simp
  next
    case True
    obtain c1 where c1: "expirePod k ps c = Some (None, c1)" "cache_inv b c1" "assumedPods c1 = assumedPods c - {k}"
      "podStates c1 = (podStates c)(k := None)" "\<forall>k' nm. place c1 k' nm \<longleftrightarrow> place c k' nm \<and> k' \<noteq> k"
      using expirePod_inv [OF Cons.prems(1) k(1) ps] by (elim exE conjE) (rule that)
    have same: "expired now c1 x \<longleftrightarrow> expired now c x" if "x \<in> set ks" for x
      using that k(2) by (auto simp: expired_def c1(4))
    obtain c' where c': "cleanup_loop now ks c1 = Some c'" "cache_inv b c'"
      "assumedPods c' = assumedPods c1 - {k \<in> set ks. expired now c1 k}"
      "podStates c' = (\<lambda>k. if k \<in> set ks \<and> expired now c1 k then None else podStates c1 k)"
      "\<forall>k nm. place c' k nm \<longleftrightarrow> place c1 k nm \<and> \<not> (k \<in> set ks \<and> expired now c1 k)"
      using Cons.IH [OF c1(2)] Cons.prems k c1(3) by auto
    have "cleanup_loop now (k # ks) c = Some c'" using True ps c1(1) c'(1) by (auto simp: expired_def)
    moreover have "assumedPods c' = assumedPods c - {x \<in> set (k # ks). expired now c x}"
      using c'(3) c1(3) True same k(2) by auto
    moreover have "podStates c' = (\<lambda>x. if x \<in> set (k # ks) \<and> expired now c x then None else podStates c x)"
      using c'(4) c1(4) True same k(2) by (auto simp: fun_eq_iff)
    moreover have "\<forall>x nm. place c' x nm \<longleftrightarrow> place c x nm \<and> \<not> (x \<in> set (k # ks) \<and> expired now c x)"
      using c'(5) c1(5) True same k(2) by auto
    ultimately show ?thesis using c'(2) by (intro exI [of _ c'] conjI)
  qed
qed simp

subsection \<open>Sequences of events\<close>

datatype cache_event =
    Assume pod | FinishedBinding pod time | Forget pod | Added pod | Updated pod pod | Removed pod
  | NodeAdded v1_node | NodeUpdated v1_node v1_node | NodeRemoved v1_node | CleanedUp time "key list"

fun cache_event_apply :: "cache_event \<Rightarrow> schedulerCache \<Rightarrow> cache_outcome" where
  "cache_event_apply (Assume p) c = AssumePod p c"
| "cache_event_apply (FinishedBinding p now) c = finishBinding p now c"
| "cache_event_apply (Forget p) c = ForgetPod p c"
| "cache_event_apply (Added p) c = AddPod p c"
| "cache_event_apply (Updated old new) c = UpdatePod old new c"
| "cache_event_apply (Removed p) c = RemovePod p c"
| "cache_event_apply (NodeAdded node) c = AddNode node c"
| "cache_event_apply (NodeUpdated old new) c = UpdateNode old new c"
| "cache_event_apply (NodeRemoved node) c = RemoveNode node c"
| "cache_event_apply (CleanedUp now ks) c = cleanupAssumedPods now ks c"

text \<open>An update is one of the same pod, and the range over the assumed pods visits each of them once.\<close>

fun event_ok :: "schedulerCache \<Rightarrow> cache_event \<Rightarrow> bool" where
  "event_ok c (Updated old new) = (pod_key new = pod_key old)"
| "event_ok c (CleanedUp now ks) = (distinct ks \<and> set ks = assumedPods c)"
| "event_ok c _ = True"

text \<open>
  The pod object an event takes off its node has the requests that were added for it. Forgetting and
  updating take the object of the caller, removing takes the object of the state. Adding an
  assumed pod and cleaning up take the object of an assumed pod, which is the listed one.
\<close>

fun event_balanced :: "schedulerCache \<Rightarrow> cache_event \<Rightarrow> bool" where
  "event_balanced c (Forget p) = balanced c p"
| "event_balanced c (Updated old new) = balanced c old"
| "event_balanced c (Removed p) =
     (case podStates c (pod_key p) of None \<Rightarrow> True | Some ps \<Rightarrow> balanced c (ps_pod ps))"
| "event_balanced c _ = True"

text \<open>The caches after a sequence of events; the flag says that every event was balanced.\<close>

inductive cache_reachable :: "bool \<Rightarrow> schedulerCache \<Rightarrow> bool" where
  new_cache: "cache_reachable True (newSchedulerCache t)"
| event: "cache_reachable b c \<Longrightarrow> event_ok c e \<Longrightarrow> cache_event_apply e c = Done err c' \<Longrightarrow>
    cache_reachable (b \<and> event_balanced c e) c'"

lemma cleanupAssumedPods_inv:
  assumes "cache_inv b c" "distinct ks" "set ks = assumedPods c"
  shows "done_inv b (cleanupAssumedPods now ks c)" "cleanupAssumedPods now ks c \<noteq> Crash"
  using cleanup_loop_inv [of b c ks now] assms by (auto simp: cleanupAssumedPods_def)

lemmas event_invs = AssumePod_inv finishBinding_inv ForgetPod_inv AddPod_inv UpdatePod_inv RemovePod_inv AddNode_inv
  RemoveNode_inv cleanupAssumedPods_inv

lemma event_inv:
  "cache_inv b c \<Longrightarrow> event_ok c e \<Longrightarrow> (b \<Longrightarrow> event_balanced c e) \<Longrightarrow> done_inv b (cache_event_apply e c)"
  by (cases e) (auto intro!: event_invs simp: UpdateNode_is_AddNode)

lemma cache_reachable_inv: "cache_reachable b c \<Longrightarrow> cache_inv b c"
proof (induction rule: cache_reachable.induct)
  case (new_cache t)
  show ?case by (simp add: cache_inv_def nodes_ok_def states_ok_def assumed_ok_def newSchedulerCache_def place_def)
next
  case (event b c e err c')
  have "cache_inv (b \<and> event_balanced c e) c" by (rule cache_inv_weaken [OF event.IH]) simp
  then show ?case using event_inv [of "b \<and> event_balanced c e" c e] event.hyps by simp
qed

text \<open>A pod with one container that asks for CPU, for the examples.\<close>

definition example_pod :: "string \<Rightarrow> string \<Rightarrow> int64 \<Rightarrow> pod" where
  "example_pod name node cpu =
     \<lparr>p_Namespace = '''', p_Name = name, p_NodeName = node, p_Labels = Map.empty,
      p_Containers = [[(ResourceCPU, \<lparr>q_Value = 1, q_MilliValue = cpu\<rparr>)]], p_InitContainers = [], p_Affinity = None\<rparr>"

lemma example_pod_simps [simp]:
  "pod_key (example_pod name node cpu) = name" "p_NodeName (example_pod name node cpu) = node"
  "calculateResource (example_pod name node cpu) = (emptyResource\<lparr>MilliCPU := cpu\<rparr>, cpu, DefaultMemoryRequest)"
  by (simp_all add: example_pod_def pod_key_def calculateResource_def add_container_def add_request_def GetNonzeroRequests_def
      emptyResource_def ResourceCPU_def ResourceMemory_def)

text \<open>The cache after a pod was assumed in a new cache.\<close>

definition example_assumed :: "pod \<Rightarrow> schedulerCache" where
  "example_assumed p = (cache_addPod p (newSchedulerCache 30))\<lparr>
     podStates := [pod_key p \<mapsto> \<lparr>ps_pod = p, ps_deadline = None, ps_bindingFinished = False\<rparr>], assumedPods := {pod_key p}\<rparr>"

lemma example_assumed_step: "AssumePod p (newSchedulerCache 30) = Done None (example_assumed p)"
  by (simp add: AssumePod_def example_assumed_def Let_def newSchedulerCache_def)

lemma example_assumed_reachable: "cache_reachable True (example_assumed p)"
  using cache_reachable.event [OF cache_reachable.new_cache, of 30 "Assume p"] example_assumed_step by simp

lemma example_assumed_nodes:
  "\<exists>n. nodes (example_assumed p) = [p_NodeName p \<mapsto> n] \<and> ni_pods n = [p] \<and> ni_node n = None \<and> generation n = 1"
  by (auto simp: example_assumed_def cache_addPod_def find_or_new_def newSchedulerCache_def NewNodeInfo_def empty_NodeInfo_def
      ni_addPod_def Let_def case_prod_beta)

text \<open>A node with four cores, for the examples, and the cache that has only it.\<close>

definition example_node :: "string list \<Rightarrow> v1_node" where
  "example_node taints =
     \<lparr>v_Name = ''n1'', v_Allocatable = [(ResourceCPU, \<lparr>q_Value = 4, q_MilliValue = 4000\<rparr>), (ResourcePods, \<lparr>q_Value = 110, q_MilliValue = 110000\<rparr>)],
      v_Taints = (taints, None), v_Conditions = []\<rparr>"

definition example_info :: "string list \<Rightarrow> NodeInfo" where
  "example_info taints =
     \<lparr>ni_node = Some (example_node taints), ni_pods = [], podsWithAffinity = [], requestedResource = 0, nonzeroRequest = 1,
      allocatableResource = 2, allowedPodNumber = 110, ni_taints = taints, taintsErr = None, memoryPressureCondition = '''',
      diskPressureCondition = '''', generation = 1\<rparr>"

definition example_cluster :: "string list \<Rightarrow> schedulerCache" where
  "example_cluster taints = (newSchedulerCache 30)\<lparr>nodes := [''n1'' \<mapsto> example_info taints],
     store := [emptyResource, emptyResource, emptyResource\<lparr>MilliCPU := 4000\<rparr>]\<rparr>"

lemma example_cluster_step: "AddNode (example_node taints) (newSchedulerCache 30) = Done None (example_cluster taints)"
  by (simp add: AddNode_def find_or_new_def newSchedulerCache_def NewNodeInfo_def empty_NodeInfo_def SetNode_def example_node_def
      set_allocatable_def example_cluster_def example_info_def Let_def ResourceCPU_def ResourcePods_def ResourceMemory_def
      ResourceNvidiaGPU_def numeral_2_eq_2)

lemma example_cluster_reachable: "cache_reachable True (example_cluster taints)"
  using cache_reachable.event [OF cache_reachable.new_cache, of 30 "NodeAdded (example_node taints)"] example_cluster_step by simp

subsection \<open>What a node requests\<close>

text \<open>What a node requests of a resource, and whether the cache knows the node itself.\<close>

definition requested :: "schedulerCache \<Rightarrow> string \<Rightarrow> string \<Rightarrow> int64" where
  "requested c nm name = amount (RequestedResource (store c) (nodes c nm)) name"

definition has_node :: "schedulerCache \<Rightarrow> string \<Rightarrow> bool" where
  "has_node c nm \<longleftrightarrow> (\<exists>n. nodes c nm = Some n \<and> ni_node n \<noteq> None)"

lemma requested_only:
  "requested (c\<lparr>podStates := S\<rparr>) = requested c" "has_node (c\<lparr>podStates := S\<rparr>) = has_node c"
  by (simp_all add: requested_def has_node_def fun_eq_iff)

lemma cache_addPod_requested:
  assumes "nodes_ok b c" "has_node c (p_NodeName p)"
  shows "requested (cache_addPod p c) (p_NodeName p) name = requested c (p_NodeName p) name + request name p"
    "has_node (cache_addPod p c) (p_NodeName p)"
proof -
  obtain n where n: "nodes c (p_NodeName p) = Some n" "ni_node n \<noteq> None" using assms(2) by (auto simp: has_node_def)
  note d = addrs_ok_distinct [OF nodes_okD(2) [OF assms(1) n(1)]]
  show "requested (cache_addPod p c) (p_NodeName p) name = requested c (p_NodeName p) name + request name p"
    "has_node (cache_addPod p c) (p_NodeName p)"
    using n d by (simp_all add: cache_addPod_def find_or_new_def ni_addPod_def requested_def has_node_def RequestedResource_def
        amount_change request_def Let_def split: prod.splits)
qed

lemma cache_removePod_requested:
  assumes "nodes_ok b c" "has_node c (p_NodeName p)" "cache_removePod p c = Some (None, c')"
  shows "requested c' (p_NodeName p) name = requested c (p_NodeName p) name - request name p" "has_node c' (p_NodeName p)"
proof -
  obtain n where n: "nodes c (p_NodeName p) = Some n" "ni_node n \<noteq> None" using assms(2) by (auto simp: has_node_def)
  note d = addrs_ok_distinct [OF nodes_okD(2) [OF assms(1) n(1)]]
  show "requested c' (p_NodeName p) name = requested c (p_NodeName p) name - request name p" "has_node c' (p_NodeName p)"
    using n d assms(3)
    by (auto simp: cache_removePod_def ni_removePod_def requested_def has_node_def RequestedResource_def
        amount_change request_def Let_def split: prod.splits option.splits sum.splits)
qed

text \<open>Taking a pod off a known node, and putting one on it, whatever the requests of the objects.\<close>

lemma remove_requests:
  assumes "nodes_ok b c" "place c (pod_key p) (p_NodeName p)" "has_node c (p_NodeName p)"
  shows "\<exists>c'. cache_removePod p c = Some (None, c') \<and> nodes_ok False c'
    \<and> (\<forall>k nm. place c' k nm \<longleftrightarrow> place c k nm \<and> \<not> (k = pod_key p \<and> nm = p_NodeName p))
    \<and> (\<forall>x. accounted c' x \<longleftrightarrow> accounted c x \<and> \<not> (pod_key x = pod_key p \<and> p_NodeName x = p_NodeName p))
    \<and> assumedPods c' = assumedPods c \<and> podStates c' = podStates c \<and> has_node c' (p_NodeName p)
    \<and> (\<forall>name. requested c' (p_NodeName p) name = requested c (p_NodeName p) name - request name p)"
proof -
  have ok: "nodes_ok False c" by (rule nodes_ok_weaken [OF assms(1)]) simp
  have bal: "False \<longrightarrow> balanced c p" by simp
  from cache_removePod_ok [OF ok bal assms(2)] obtain c' where
    c': "cache_removePod p c = Some (None, c')" "nodes_ok False c'"
    "\<forall>k nm. place c' k nm \<longleftrightarrow> place c k nm \<and> \<not> (k = pod_key p \<and> nm = p_NodeName p)"
    "\<forall>x. accounted c' x \<longleftrightarrow> accounted c x \<and> \<not> (pod_key x = pod_key p \<and> p_NodeName x = p_NodeName p)"
    "assumedPods c' = assumedPods c" "podStates c' = podStates c"
    by (elim exE conjE) (rule that)
  note r = cache_removePod_requested [OF ok assms(3) c'(1)]
  show ?thesis by (intro exI [of _ c'] conjI allI) (use r c' in simp_all)
qed

lemma add_requests:
  assumes "nodes_ok b c" "\<not> place c (pod_key p) (p_NodeName p)" "has_node c (p_NodeName p)" "c' = (cache_addPod p c)\<lparr>podStates := S\<rparr>"
  shows "nodes_ok b c'" "place c' (pod_key p) (p_NodeName p)" "accounted c' x \<longleftrightarrow> accounted c x \<or> x = p"
    "assumedPods c' = assumedPods c" "podStates c' = S" "has_node c' (p_NodeName p)"
    "requested c' (p_NodeName p) name = requested c (p_NodeName p) name + request name p"
proof -
  note a = cache_addPod_ok [OF assms(1,2)] and r = cache_addPod_requested [OF assms(1,3)]
  have same: "nodes c' = nodes (cache_addPod p c)" "store c' = store (cache_addPod p c)" by (simp_all add: assms(4))
  show "nodes_ok b c'" "place c' (pod_key p) (p_NodeName p)" "accounted c' x \<longleftrightarrow> accounted c x \<or> x = p"
    using a nodes_ok_only [OF same] place_only [OF same(1)] by simp_all
  show "assumedPods c' = assumedPods c" "podStates c' = S" "has_node c' (p_NodeName p)"
    "requested c' (p_NodeName p) name = requested c (p_NodeName p) name + request name p"
    using r by (simp_all add: assms(4) requested_only)
qed

subsection \<open>Properties\<close>



text \<open>
  C34. A cleanup at a time removes, whatever the order of the range, exactly the assumed pods whose
  binding finished and whose deadline has passed: they are neither assumed nor known nor accounted
  afterwards, and everything about the others stays.
\<close>

theorem cleanup_expires_exactly:
  assumes "cache_reachable b c" "distinct ks" "set ks = assumedPods c"
  shows "\<exists>c'. cleanupAssumedPods now ks c = Done None c'
    \<and> assumedPods c' = {k \<in> assumedPods c. \<not> expired now c k}
    \<and> (\<forall>k. podStates c' k = (if k \<in> assumedPods c \<and> expired now c k then None else podStates c k))
    \<and> (\<forall>k nm. place c' k nm \<longleftrightarrow> place c k nm \<and> \<not> (k \<in> assumedPods c \<and> expired now c k))"
proof -
  have "cache_inv b c" by (rule cache_reachable_inv [OF assms(1)])
  from cleanup_loop_inv [OF this assms(2), of now] assms(3) obtain c' where
    "cleanup_loop now ks c = Some c'" "assumedPods c' = assumedPods c - {k \<in> set ks. expired now c k}"
    "podStates c' = (\<lambda>k. if k \<in> set ks \<and> expired now c k then None else podStates c k)"
    "\<forall>k nm. place c' k nm \<longleftrightarrow> place c k nm \<and> \<not> (k \<in> set ks \<and> expired now c k)"
    by auto
  then show ?thesis using assms(3) by (intro exI [of _ c']) (auto simp: cleanupAssumedPods_def)
qed

theorem cleanup_expires_exactly_witness:
  "\<exists>c c'. finishBinding (example_pod ''p'' ''n1'' 300) 5 (example_assumed (example_pod ''p'' ''n1'' 300)) = Done None c
    \<and> cleanupAssumedPods 36 [''p''] c = Done None c' \<and> podStates c ''p'' \<noteq> None \<and> podStates c' ''p'' = None
    \<and> assumedPods c' = {} \<and> \<not> place c' ''p'' ''n1''"
proof -
  let ?p = "example_pod ''p'' ''n1'' 300"
  have reach: "cache_reachable True (example_assumed ?p)" by (rule example_assumed_reachable)
  obtain c where c: "finishBinding ?p 5 (example_assumed ?p) = Done None c" "assumedPods c = {''p''}"
    "podStates c ''p'' = Some \<lparr>ps_pod = ?p, ps_deadline = Some 35, ps_bindingFinished = True\<rparr>"
    by (simp add: finishBinding_def example_assumed_def newSchedulerCache_def)
  have reach': "cache_reachable True c"
    using cache_reachable.event [OF reach, of "FinishedBinding ?p 5"] c(1) by simp
  have ks: "distinct [''p'']" "set [''p''] = assumedPods c" by (simp_all add: c(2))
  obtain c' where c': "cleanupAssumedPods 36 [''p''] c = Done None c'"
    "assumedPods c' = {k \<in> assumedPods c. \<not> expired 36 c k}"
    "\<forall>k. podStates c' k = (if k \<in> assumedPods c \<and> expired 36 c k then None else podStates c k)"
    "\<forall>k nm. place c' k nm \<longleftrightarrow> place c k nm \<and> \<not> (k \<in> assumedPods c \<and> expired 36 c k)"
    using cleanup_expires_exactly [OF reach' ks, of 36] by (elim exE conjE) (rule that)
  have "expired 36 c ''p''" by (simp add: expired_def c(3))
  then have "assumedPods c' = {}" "podStates c' ''p'' = None" "\<not> place c' ''p'' ''n1''"
    using c'(2,3,4) c(2) by simp_all
  then show ?thesis using c(1,3) c'(1) by (intro exI [of _ c] exI [of _ c']) simp
qed

text \<open>
  A pod that was assumed for one node and is then added on another one is accounted on the node
  it was added to, but its state keeps the assumed pod: the next update or removal of the pod finds
  a different node in the state and ends the process.
\<close>

theorem added_elsewhere_is_fatal:
  assumes "cache_reachable b c" "pod_key p \<in> assumedPods c"
    and "podStates c (pod_key p) = Some ps" "p_NodeName (ps_pod ps) \<noteq> p_NodeName p"
  shows "\<exists>c'. AddPod p c = Done None c' \<and> place c' (pod_key p) (p_NodeName p)
    \<and> RemovePod p c' = Crash \<and> UpdatePod p p c' = Crash"
proof -
  have inv: "cache_inv b c" by (rule cache_reachable_inv [OF assms(1)])
  then have s: "states_ok (place c) (assumedPods c) (podStates c)" by (simp add: cache_inv_def)
  have pl: "place c (pod_key p) (p_NodeName (ps_pod ps))" by (rule states_okD(3) [OF s assms(3,2)])
  obtain c1 where c1: "cache_removePod (ps_pod ps) c = Some (None, c1)" "assumedPods c1 = assumedPods c" "podStates c1 = podStates c"
    "\<forall>k nm. place c1 k nm \<longleftrightarrow> place c k nm \<and> \<not> (k = pod_key p \<and> nm = p_NodeName (ps_pod ps))" "nodes_ok b c1"
    using remove_known_inv [OF inv assms(3) pl impI [OF assumed_balanced [OF inv assms(2) assms(3)]]] by (elim exE conjE) (rule that)
  have "\<not> place c1 (pod_key p) (p_NodeName p)"
    using c1(4) states_okD(7) [OF s pl, of "p_NodeName p"] assms(4) by auto
  note a = cache_addPod_ok [OF c1(5) this]
  define c' where "c' = (cache_addPod p c1)\<lparr>assumedPods := assumedPods c1 - {pod_key p},
    podStates := (podStates c1)(pod_key p \<mapsto> ps\<lparr>ps_deadline := None\<rparr>)\<rparr>"
  have "AddPod p c = Done None c'" using assms(2-4) c1(1) a(3,4) by (simp add: AddPod_def c'_def)
  moreover have "place c' (pod_key p) (p_NodeName p)" using a(2) by (simp add: c'_def place_def)
  moreover have "RemovePod p c' = Crash \<and> UpdatePod p p c' = Crash"
    using assms(4) by (simp add: RemovePod_def UpdatePod_def c'_def)
  ultimately show ?thesis by blast
qed

theorem added_elsewhere_is_fatal_witness:
  "\<exists>c'. AddPod (example_pod ''p'' ''n2'' 300) (example_assumed (example_pod ''p'' ''n1'' 300)) = Done None c'
    \<and> RemovePod (example_pod ''p'' ''n2'' 300) c' = Crash"
proof -
  let ?p = "example_pod ''p'' ''n1'' 300"
  have reach: "cache_reachable True (example_assumed ?p)" by (rule example_assumed_reachable)
  have h: "pod_key (example_pod ''p'' ''n2'' 300) \<in> assumedPods (example_assumed ?p)"
    "podStates (example_assumed ?p) (pod_key (example_pod ''p'' ''n2'' 300)) = Some \<lparr>ps_pod = ?p, ps_deadline = None, ps_bindingFinished = False\<rparr>"
    "p_NodeName (ps_pod \<lparr>ps_pod = ?p, ps_deadline = None, ps_bindingFinished = False\<rparr>) \<noteq> p_NodeName (example_pod ''p'' ''n2'' 300)"
    by (simp_all add: example_assumed_def)
  show ?thesis using added_elsewhere_is_fatal [OF reach h] by blast
qed

text \<open>
  C0. An update does not put the new pod into the state the cache keeps of the pod, and a removal
  takes the pod of that state off its node. So when a pod is added on a known node, updated to
  one with other requests, and removed, every call succeeds, the pod is gone and the same pods are
  left, but the node keeps the difference of the two requests for good.
\<close>

theorem changed_requests_stay:
  assumes "cache_reachable b c" "podStates c (pod_key p) = None" "nodes c (p_NodeName p) = Some n" "ni_node n \<noteq> None"
    and "pod_key q = pod_key p" "p_NodeName q = p_NodeName p"
  shows "\<exists>c1 c2 c3 m. AddPod p c = Done None c1 \<and> UpdatePod p q c1 = Done None c2 \<and> RemovePod q c2 = Done None c3
    \<and> podStates c3 = podStates c \<and> nodes c3 (p_NodeName p) = Some m \<and> set (ni_pods m) = set (ni_pods n)
    \<and> (\<forall>name. amount (RequestedResource (store c3) (Some m)) name
         = amount (RequestedResource (store c) (Some n)) name + request name q - request name p)"
proof -
  let ?nm = "p_NodeName p" and ?k = "pod_key p"
  have inv: "cache_inv b c" by (rule cache_reachable_inv [OF assms(1)])
  then have ok: "nodes_ok b c" and s: "states_ok (place c) (assumedPods c) (podStates c)" by (simp_all add: cache_inv_def)
  have free: "\<not> place c ?k ?nm" and A: "?k \<notin> assumedPods c"
    using states_okD(5,6) [OF s] assms(2) by blast+
  have gone: "\<not> (accounted c x \<and> pod_key x = ?k \<and> p_NodeName x = ?nm)" for x
    using free unfolding place_def accounted_def by (metis imageI)
  have hn: "has_node c ?nm" using assms(3,4) by (simp add: has_node_def)
  define st where "st = \<lparr>ps_pod = p, ps_deadline = None, ps_bindingFinished = False\<rparr>"
  define S where "S = (podStates c)(?k \<mapsto> st)"
  define c1 where "c1 = (cache_addPod p c)\<lparr>podStates := S\<rparr>"
  note add = add_requests [OF ok free hn c1_def]
  obtain d where d: "cache_removePod p c1 = Some (None, d)" "nodes_ok False d"
    "\<forall>k nm. place d k nm \<longleftrightarrow> place c1 k nm \<and> \<not> (k = ?k \<and> nm = ?nm)"
    "\<forall>x. accounted d x \<longleftrightarrow> accounted c1 x \<and> \<not> (pod_key x = ?k \<and> p_NodeName x = ?nm)"
    "assumedPods d = assumedPods c1" "podStates d = podStates c1" "has_node d ?nm"
    "\<forall>name. requested d ?nm name = requested c1 ?nm name - request name p"
    using remove_requests [OF add(1,2,6)] by (elim exE conjE) (rule that)
  define c2 where "c2 = cache_addPod q d"
  have "\<not> place d (pod_key q) (p_NodeName q)" "has_node d (p_NodeName q)" "c2 = (cache_addPod q d)\<lparr>podStates := S\<rparr>"
    using d(3,6,7) add(5) by (simp_all add: assms(5,6) c2_def)
  note upd = add_requests [OF d(2) this, unfolded assms(5,6)]
  obtain e where e: "cache_removePod p c2 = Some (None, e)" "nodes_ok False e"
    "\<forall>x. accounted e x \<longleftrightarrow> accounted c2 x \<and> \<not> (pod_key x = ?k \<and> p_NodeName x = ?nm)"
    "podStates e = podStates c2" "has_node e ?nm"
    "\<forall>name. requested e ?nm name = requested c2 ?nm name - request name p"
    using remove_requests [OF upd(1,2,6)] by (elim exE conjE) (rule that)
  define c3 where "c3 = e\<lparr>podStates := (podStates e)(?k := None)\<rparr>"
  obtain m where m: "nodes e ?nm = Some m" using e(5) by (auto simp: has_node_def)
  have "accounted e x \<longleftrightarrow> accounted c x" for x
    using e(3) upd(3) [of x] d(4) add(3) [of x] gone [of x] assms(5,6) by auto
  then have "set (ni_pods m) = set (ni_pods n)"
    using nodes_ok_accounted [OF e(2) m] nodes_ok_accounted [OF ok assms(3)] by simp
  moreover have "requested e ?nm name = requested c ?nm name + request name q - request name p" for name
    using e(6) upd(7) [of name] d(8) add(7) [of name] by simp
  then have "\<forall>name. amount (RequestedResource (store c3) (Some m)) name
      = amount (RequestedResource (store c) (Some n)) name + request name q - request name p"
    by (simp add: requested_def m assms(3) c3_def)
  moreover have "AddPod p c = Done None c1" by (simp add: AddPod_def assms(2) c1_def S_def st_def Let_def)
  moreover have "UpdatePod p q c1 = Done None c2"
    using add(4,5) A by (simp add: UpdatePod_def cache_updatePod_def S_def st_def assms(6) d(1) c2_def)
  moreover have "RemovePod q c2 = Done None c3"
    using upd(4,5) d(5) add(4) A by (simp add: RemovePod_def S_def st_def assms(5,6) e(1) c3_def)
  moreover have "podStates c3 = podStates c"
    using assms(2) by (simp add: c3_def e(4) upd(5) S_def fun_upd_idem)
  moreover have "nodes c3 ?nm = Some m" by (simp add: c3_def m)
  ultimately show ?thesis by blast
qed

theorem changed_requests_stay_witness:
  "\<exists>c1 c2 c3 m. AddPod (example_pod ''p'' ''n1'' 300) (example_cluster []) = Done None c1
    \<and> UpdatePod (example_pod ''p'' ''n1'' 300) (example_pod ''p'' ''n1'' 700) c1 = Done None c2
    \<and> RemovePod (example_pod ''p'' ''n1'' 700) c2 = Done None c3 \<and> nodes c3 ''n1'' = Some m
    \<and> ni_pods m = [] \<and> MilliCPU (RequestedResource (store c3) (Some m)) = 400"
proof -
  let ?p = "example_pod ''p'' ''n1'' 300" and ?q = "example_pod ''p'' ''n1'' 700"
  have h: "podStates (example_cluster []) (pod_key ?p) = None" "nodes (example_cluster []) (p_NodeName ?p) = Some (example_info [])"
    "ni_node (example_info []) \<noteq> None" "pod_key ?q = pod_key ?p" "p_NodeName ?q = p_NodeName ?p"
    by (simp_all add: example_cluster_def example_info_def newSchedulerCache_def)
  from changed_requests_stay [OF example_cluster_reachable h] obtain c1 c2 c3 m where
    m: "AddPod ?p (example_cluster []) = Done None c1" "UpdatePod ?p ?q c1 = Done None c2" "RemovePod ?q c2 = Done None c3"
    "nodes c3 (p_NodeName ?p) = Some m" "set (ni_pods m) = set (ni_pods (example_info []))"
    "\<forall>name. amount (RequestedResource (store c3) (Some m)) name
       = amount (RequestedResource (store (example_cluster [])) (Some (example_info []))) name + request name ?q - request name ?p"
    by (elim exE conjE) (rule that)
  have "amount (RequestedResource (store c3) (Some m)) ResourceCPU = 400"
    using m(6) [rule_format, of ResourceCPU]
    by (simp add: RequestedResource_def request_def example_cluster_def example_info_def) (simp add: amount_def)
  then have "MilliCPU (RequestedResource (store c3) (Some m)) = 400" by (simp add: amount_def)
  moreover have "ni_pods m = []" using m(5) by (simp add: example_info_def)
  ultimately show ?thesis using m(1-4) by (intro exI conjI) simp_all
qed

end
