(* ===== verification/Scheduling.thy ===== *)
theory Scheduling
  imports SchedulerCache
begin

section \<open>Snapshots of the cache and the resource predicate\<close>

text \<open>
  What the scheduler reads of its cache: the snapshot of the node infos that
  \<^verbatim>\<open>UpdateNodeNameToInfoMap\<close> brings up to date before a pod is scheduled, and the predicate
  \<^verbatim>\<open>PodFitsResources\<close> (\<^verbatim>\<open>plugin/pkg/scheduler/algorithm/predicates/predicates.go\<close>) that decides
  on a node info whether the pod fits.
\<close>

subsection \<open>The request of a pod\<close>

text \<open>An init container raises a sum to its own request; the comparison is the signed one.\<close>

definition raise :: "int64 \<Rightarrow> int64 \<Rightarrow> int64" where
  "raise old v = (if sint v > sint old then v else old)"

definition max_request :: "Resource \<Rightarrow> string \<times> quantity \<Rightarrow> Resource" where
  "max_request res e =
     (let (rName, rQuantity) = e
      in if rName = ResourceMemory then res\<lparr>Memory := raise (Memory res) (q_Value rQuantity)\<rparr>
         else if rName = ResourceCPU then res\<lparr>MilliCPU := raise (MilliCPU res) (q_MilliValue rQuantity)\<rparr>
         else if rName = ResourceNvidiaGPU then res\<lparr>NvidiaGPU := raise (NvidiaGPU res) (q_Value rQuantity)\<rparr>
         else if IsOpaqueIntResourceName rName \<and> sint (q_Value rQuantity) > sint (opaque res rName)
         then res\<lparr>OpaqueIntResources := (OpaqueIntResources res)(rName \<mapsto> q_Value rQuantity)\<rparr>
         else res)"

definition GetResourceRequest :: "pod \<Rightarrow> Resource" where
  "GetResourceRequest p =
     foldl (foldl max_request) (foldl (foldl add_request) emptyResource (p_Containers p)) (p_InitContainers p)"

subsection \<open>The predicate\<close>

record InsufficientResourceError =
  ire_ResourceName :: string
  ire_requested :: int64
  ire_used :: int64
  ire_capacity :: int64

text \<open>Signed comparison of the capacity with the wrapped sum.\<close>

definition check_resource :: "string \<Rightarrow> int64 \<Rightarrow> int64 \<Rightarrow> int64 \<Rightarrow> InsufficientResourceError list" where
  "check_resource name req used capacity =
     (if sint capacity < sint (req + used)
      then [\<lparr>ire_ResourceName = name, ire_requested = req, ire_used = used, ire_capacity = capacity\<rparr>] else [])"

text \<open>
  \<open>meta\<close> is the request computed beforehand, when there is one; \<open>ks\<close> is the order of the range over the
  opaque resources. The result has the error, the answer and the reasons against the node.
\<close>

definition PodFitsResources ::
    "string list \<Rightarrow> pod \<Rightarrow> Resource option \<Rightarrow> heap \<Rightarrow> NodeInfo option \<Rightarrow>
     string option \<times> bool \<times> InsufficientResourceError list" where
  "PodFitsResources ks p meta h nodeInfo =
     (case info_Node nodeInfo of
        None \<Rightarrow> (Some ''node not found'', False, [])
      | Some node \<Rightarrow>
          (let allowed = AllowedPodNumber nodeInfo; pods = length (info_Pods nodeInfo);
               fails = (if int pods + 1 > sint allowed
                        then [\<lparr>ire_ResourceName = ResourcePods, ire_requested = 1, ire_used = of_nat pods, ire_capacity = allowed\<rparr>]
                        else []);
               podRequest = (case meta of Some r \<Rightarrow> r | None \<Rightarrow> GetResourceRequest p)
           in if MilliCPU podRequest = 0 \<and> Memory podRequest = 0 \<and> NvidiaGPU podRequest = 0
                 \<and> OpaqueIntResources podRequest = Map.empty
              then (None, fails = [], fails)
              else let allocatable = AllocatableResource h nodeInfo; requested = RequestedResource h nodeInfo;
                       fails2 = fails
                         @ check_resource ResourceCPU (MilliCPU podRequest) (MilliCPU requested) (MilliCPU allocatable)
                         @ check_resource ResourceMemory (Memory podRequest) (Memory requested) (Memory allocatable)
                         @ check_resource ResourceNvidiaGPU (NvidiaGPU podRequest) (NvidiaGPU requested) (NvidiaGPU allocatable)
                         @ concat (map (\<lambda>rName. check_resource rName (opaque podRequest rName) (opaque requested rName)
                                                  (opaque allocatable rName)) ks)
                   in (None, fails2 = [], fails2)))"

subsection \<open>The checked request covers the accounted one\<close>

lemma raise_ge: "sint old \<le> sint (raise old v)"
  by (simp add: raise_def)

lemma max_request_ge: "sint (amount res name) \<le> sint (amount (max_request res e) name)"
  using raise_ge by (cases e) (auto simp: max_request_def amount_def opaque_def split: if_splits)

lemma foldl_max_request_ge: "sint (amount res name) \<le> sint (amount (foldl max_request res c) name)"
proof (induction c arbitrary: res)
  case (Cons e c)
  then show ?case using max_request_ge [of res name e] order_trans by fastforce
qed simp

lemma calculateResource_fst:
  "fst (foldl add_container acc cs) = foldl (foldl add_request) (fst acc) cs"
  by (induction cs arbitrary: acc) (simp_all add: add_container_def case_prod_beta Let_def)

lemma GetResourceRequest_ge: "sint (request name p) \<le> sint (amount (GetResourceRequest p) name)"
proof -
  have "sint (amount res name) \<le> sint (amount (foldl (foldl max_request) res cs) name)" for res cs
  proof (induction cs arbitrary: res)
    case (Cons c cs)
    then show ?case using foldl_max_request_ge [of res name c] order_trans by fastforce
  qed simp
  then show ?thesis by (simp add: request_def GetResourceRequest_def calculateResource_def calculateResource_fst)
qed

lemma check_resource_Nil: "check_resource name r u c = [] \<longleftrightarrow> sint (r + u) \<le> sint c"
  by (simp add: check_resource_def not_less)

lemma PodFitsResources_checks:
  assumes "PodFitsResources ks p None h (Some n) = (None, True, fails)"
    and "iter_order (OpaqueIntResources (GetResourceRequest p)) ks" "amount (GetResourceRequest p) name \<noteq> 0"
  shows "sint (amount (GetResourceRequest p) name + amount (h ! requestedResource n) name)
      \<le> sint (amount (h ! allocatableResource n) name)"
proof -
  have asked: "\<not> (MilliCPU (GetResourceRequest p) = 0 \<and> Memory (GetResourceRequest p) = 0 \<and> NvidiaGPU (GetResourceRequest p) = 0
      \<and> OpaqueIntResources (GetResourceRequest p) = Map.empty)"
    using assms(3) by (auto simp: amount_def opaque_def split: if_splits)
  have "opaque (GetResourceRequest p) name \<noteq> 0 \<Longrightarrow> name \<in> set ks"
    using assms(2) by (auto simp: iter_order_def opaque_def split: option.splits)
  then show ?thesis
    using assms(1,3) asked
    by (auto simp: PodFitsResources_def Let_def info_Node_def AllocatableResource_def RequestedResource_def amount_def
        check_resource_Nil split: option.splits if_splits)
qed

lemma PodFitsResources_meta: "PodFitsResources ks p (Some (GetResourceRequest p)) h n = PodFitsResources ks p None h n"
  unfolding PodFitsResources_def option.case by (rule refl)

lemma PodFitsResources_count:
  "PodFitsResources ks p None h (Some n) = (None, True, fails) \<Longrightarrow> int (length (ni_pods n)) + 1 \<le> sint (allowedPodNumber n)"
  by (auto simp: PodFitsResources_def Let_def info_Node_def info_Pods_def AllowedPodNumber_def split: option.splits if_splits)

lemma sint_add:
  fixes a b :: int64
  assumes "0 \<le> sint a" "0 \<le> sint b" "sint a + sint b < 2 ^ 63"
  shows "sint (a + b) = sint a + sint b"
proof -
  have "sint (a + b) = signed_take_bit 63 (sint a + sint b)" by (simp add: signed_take_bit_add sint_word_ariths)
  also have "\<dots> = sint a + sint b" using assms by (intro signed_take_bit_int_eq_self) simp_all
  finally show ?thesis .
qed

subsection \<open>Snapshots\<close>

lemma foldl_set_condition_same:
  "ni_node (foldl set_condition n cs) = ni_node n" "ni_pods (foldl set_condition n cs) = ni_pods n"
  "generation (foldl set_condition n cs) = generation n"
proof -
  obtain m d where "foldl set_condition n cs = n\<lparr>memoryPressureCondition := m, diskPressureCondition := d\<rparr>"
    using foldl_set_condition by blast
  then show "ni_node (foldl set_condition n cs) = ni_node n" "ni_pods (foldl set_condition n cs) = ni_pods n"
    "generation (foldl set_condition n cs) = generation n" by simp_all
qed

lemma Clone_id [simp]: "Clone n = n"
  by (simp add: Clone_def)

lemma refresh_other: "x \<noteq> name \<Longrightarrow> refresh c m name x = m x"
  by (auto simp: refresh_def split: option.splits)

lemma refresh_cong: "m name = m' name \<Longrightarrow> refresh c m name name = refresh c m' name name"
  by (auto simp: refresh_def split: option.splits)

lemma foldl_refresh:
  "distinct ks \<Longrightarrow> foldl (refresh c) m ks name = (if name \<in> set ks then refresh c m name name else m name)"
proof (induction ks arbitrary: m)
  case (Cons k ks)
  then show ?case using refresh_other [of name k c m] refresh_cong [of "refresh c m k" name m c] by auto
qed simp

lemma foldl_forget:
  "foldl (\<lambda>m name. if nodes c name = None then m(name := None) else m) m js name
     = (if name \<in> set js \<and> nodes c name = None then None else m name)"
  by (induction js arbitrary: m) auto

lemma snapshot_eq:
  assumes "iter_order (nodes c) ks" "iter_order (foldl (refresh c) m ks) js"
  shows "UpdateNodeNameToInfoMap ks js c m name =
     (case nodes c name of
        None \<Rightarrow> None
      | Some info \<Rightarrow>
          (case m name of
             None \<Rightarrow> Some info
           | Some current \<Rightarrow> Some (if generation current = generation info then current else info)))"
proof -
  have f: "foldl (refresh c) m ks name = (if name \<in> dom (nodes c) then refresh c m name name else m name)" for name
    using assms(1) by (simp add: foldl_refresh iter_order_def)
  show ?thesis
    unfolding UpdateNodeNameToInfoMap_def foldl_forget
    using assms(2) f [of name] by (auto simp: iter_order_def refresh_def split: option.splits)
qed

text \<open>What \<^verbatim>\<open>AssumePod\<close> does to the node info of a node that is there.\<close>

lemma AssumePod_node:
  assumes "cache_inv b c" "podStates c (pod_key p) = None"
    and "nodes c (p_NodeName p) = Some n"
  shows "\<exists>c' n'. AssumePod p c = Done None c' \<and> nodes c' (p_NodeName p) = Some n' \<and> ni_pods n' = ni_pods n @ [p]
    \<and> requestedResource n' = requestedResource n \<and> allocatableResource n' = allocatableResource n
    \<and> allowedPodNumber n' = allowedPodNumber n \<and> generation n' = generation n + 1
    \<and> store c' ! allocatableResource n = store c ! allocatableResource n
    \<and> (\<forall>name. amount (store c' ! requestedResource n) name = amount (store c ! requestedResource n) name + request name p)"
proof -
  have "addrs_ok (store c) n" using nodes_okD(2) [of b c] assms(1,3) by (simp add: cache_inv_def)
  note d = addrs_ok_distinct [OF this]
  obtain res non0_cpu non0_mem where r: "calculateResource p = (res, non0_cpu, non0_mem)" by (cases "calculateResource p")
  define h' where "h' = (store c)[requestedResource n := change_resource (+) (store c ! requestedResource n) res,
      nonzeroRequest n := (store c ! nonzeroRequest n)\<lparr>MilliCPU := MilliCPU (store c ! nonzeroRequest n) + non0_cpu,
        Memory := Memory (store c ! nonzeroRequest n) + non0_mem\<rparr>]"
  define n' where "n' = n\<lparr>ni_pods := ni_pods n @ [p],
      podsWithAffinity := podsWithAffinity n @ (if hasPodAffinityConstraints p then [p] else []), generation := generation n + 1\<rparr>"
  have "ni_addPod p (store c) n = (h', n')" using d by (simp add: ni_addPod_def r h'_def n'_def Let_def)
  then have "AssumePod p c = Done None (c\<lparr>store := h', nodes := (nodes c)(p_NodeName p \<mapsto> n'),
      podStates := (podStates c)(pod_key p \<mapsto> \<lparr>ps_pod = p, ps_deadline = None, ps_bindingFinished = False\<rparr>),
      assumedPods := insert (pod_key p) (assumedPods c)\<rparr>)"
    using assms(2,3) by (simp add: AssumePod_def cache_addPod_def find_or_new_def Let_def)
  moreover have "h' ! allocatableResource n = store c ! allocatableResource n" using d by (simp add: h'_def)
  moreover have "amount (h' ! requestedResource n) name = amount (store c ! requestedResource n) name + request name p" for name
    using d by (simp add: h'_def amount_change request_def r)
  ultimately show ?thesis by (simp add: n'_def)
qed

lemma example_cluster_order:
  "iter_order (nodes (example_cluster taints)) [''n1'']"
  "iter_order (foldl (refresh (example_cluster taints)) Map.empty [''n1'']) [''n1'']"
  by (auto simp: iter_order_def example_cluster_def refresh_def)

lemma example_request: "GetResourceRequest (example_pod name node cpu) = emptyResource\<lparr>MilliCPU := cpu\<rparr>"
  by (simp add: GetResourceRequest_def example_pod_def add_request_def emptyResource_def ResourceCPU_def)

subsection \<open>Properties\<close>

text \<open>
  C10. A pod that fits a node by the predicate, with the request computed beforehand or not, does not
  overcommit it when the scheduler assumes it there. Whatever the pod asks for, the number of pods
  stays within what the node allows. The amount of every resource the pod asks for a positive amount
  of grows by that amount and stays within what the node can allocate, provided that the amount in use is not
  negative and its sum with the request does not exceed the 64 bit integers.
\<close>

theorem fitting_pod_does_not_overcommit:
  assumes "cache_reachable b c" "podStates c (pod_key p) = None" "nodes c (p_NodeName p) = Some n"
    and "iter_order (OpaqueIntResources (GetResourceRequest p)) ks" "meta \<in> {None, Some (GetResourceRequest p)}"
    and "PodFitsResources ks p meta (store c) (Some n) = (None, True, fails)"
  shows "\<exists>c' n'. AssumePod p c = Done None c' \<and> nodes c' (p_NodeName p) = Some n' \<and> ni_pods n' = ni_pods n @ [p]
    \<and> int (length (ni_pods n')) \<le> sint (allowedPodNumber n')
    \<and> (\<forall>name. 0 < sint (request name p) \<and> 0 \<le> sint (amount (RequestedResource (store c) (Some n)) name)
         \<and> sint (amount (GetResourceRequest p) name) + sint (amount (RequestedResource (store c) (Some n)) name) < 2 ^ 63 \<longrightarrow>
           sint (amount (RequestedResource (store c') (Some n')) name)
             = sint (amount (RequestedResource (store c) (Some n)) name) + sint (request name p)
           \<and> sint (amount (RequestedResource (store c') (Some n')) name)
             \<le> sint (amount (AllocatableResource (store c') (Some n')) name))"
proof -
  have inv: "cache_inv b c" by (rule cache_reachable_inv [OF assms(1)])
  have fit: "PodFitsResources ks p None (store c) (Some n) = (None, True, fails)"
    using assms(5,6) PodFitsResources_meta by auto
  obtain c' n' where c': "AssumePod p c = Done None c'" "nodes c' (p_NodeName p) = Some n'" "ni_pods n' = ni_pods n @ [p]"
    "requestedResource n' = requestedResource n" "allocatableResource n' = allocatableResource n"
    "allowedPodNumber n' = allowedPodNumber n" "store c' ! allocatableResource n = store c ! allocatableResource n"
    "\<forall>name. amount (store c' ! requestedResource n) name = amount (store c ! requestedResource n) name + request name p"
    using AssumePod_node [OF inv assms(2,3)] by (elim exE conjE) (rule that)
  have "sint (amount (RequestedResource (store c') (Some n')) name)
        = sint (amount (RequestedResource (store c) (Some n)) name) + sint (request name p)
      \<and> sint (amount (RequestedResource (store c') (Some n')) name) \<le> sint (amount (AllocatableResource (store c') (Some n')) name)"
    if "0 < sint (request name p)" "0 \<le> sint (amount (RequestedResource (store c) (Some n)) name)"
      "sint (amount (GetResourceRequest p) name) + sint (amount (RequestedResource (store c) (Some n)) name) < 2 ^ 63" for name
  proof -
    let ?used = "amount (store c ! requestedResource n) name" and ?ask = "amount (GetResourceRequest p) name"
    have ge: "sint (request name p) \<le> sint ?ask" by (rule GetResourceRequest_ge)
    then have "?ask \<noteq> 0" using that(1) by auto
    note fits = PodFitsResources_checks [OF fit assms(4) this]
    have u: "0 \<le> sint ?used" "sint ?ask + sint ?used < 2 ^ 63" using that(2,3) by (simp_all add: RequestedResource_def)
    have "sint (?ask + ?used) = sint ?ask + sint ?used" using sint_add [of ?ask ?used] u ge that(1) by simp
    moreover have sum: "sint (?used + request name p) = sint ?used + sint (request name p)"
      using sint_add [of ?used "request name p"] u ge that(1) by simp
    ultimately have "sint (?used + request name p) \<le> sint (amount (store c ! allocatableResource n) name)"
      using fits ge by simp
    then show ?thesis using c'(4,5,7,8) sum by (simp add: RequestedResource_def AllocatableResource_def)
  qed
  moreover have "int (length (ni_pods n')) \<le> sint (allowedPodNumber n')"
    using PodFitsResources_count [OF fit] c'(3,6) by simp
  ultimately show ?thesis using c'(1-3) by (intro exI [of _ c'] exI [of _ n'] conjI allI impI) blast+
qed

theorem fitting_pod_does_not_overcommit_witness:
  "\<exists>c' n'. AssumePod (example_pod ''p'' ''n1'' 4000) (example_cluster []) = Done None c' \<and> nodes c' ''n1'' = Some n'
    \<and> sint (MilliCPU (RequestedResource (store c') (Some n'))) = 4000
    \<and> sint (MilliCPU (AllocatableResource (store c') (Some n'))) \<ge> 4000
    \<and> PodFitsResources [] (example_pod ''p'' ''n1'' 4000) None (store (example_cluster [])) (Some (example_info [])) = (None, True, [])
    \<and> fst (snd (PodFitsResources [] (example_pod ''p'' ''n1'' 4001) None (store (example_cluster [])) (Some (example_info [])))) = False"
proof -
  let ?p = "example_pod ''p'' ''n1'' 4000" and ?c = "example_cluster []"
  have reach: "cache_reachable True ?c" by (rule example_cluster_reachable)
  have fits: "PodFitsResources [] ?p None (store ?c) (Some (example_info [])) = (None, True, [])"
    and not_fits: "fst (snd (PodFitsResources [] (example_pod ''p'' ''n1'' 4001) None (store ?c) (Some (example_info [])))) = False"
    by (simp_all add: PodFitsResources_def example_request info_Node_def info_Pods_def AllowedPodNumber_def example_info_def
        AllocatableResource_def RequestedResource_def example_cluster_def check_resource_def emptyResource_def)
  have h: "podStates ?c (pod_key ?p) = None"
    "nodes ?c (p_NodeName ?p) = Some (example_info [])" "iter_order (OpaqueIntResources (GetResourceRequest ?p)) []" "None \<in> {None, Some (GetResourceRequest ?p)}"
    by (simp_all add: example_cluster_def newSchedulerCache_def iter_order_def example_request emptyResource_def)
  have num: "0 < sint (request ResourceCPU ?p)" "0 \<le> sint (amount (RequestedResource (store ?c) (Some (example_info []))) ResourceCPU)"
    "sint (amount (GetResourceRequest ?p) ResourceCPU)
      + sint (amount (RequestedResource (store ?c) (Some (example_info []))) ResourceCPU) < 2 ^ 63"
    "sint (request ResourceCPU ?p) = 4000" "sint (amount (RequestedResource (store ?c) (Some (example_info []))) ResourceCPU) = 0"
    by (simp_all add: request_def amount_def example_request RequestedResource_def example_info_def example_cluster_def emptyResource_def)
  obtain c' n' where "AssumePod ?p ?c = Done None c'" "nodes c' ''n1'' = Some n'"
    "sint (amount (RequestedResource (store c') (Some n')) ResourceCPU) = 4000"
    "sint (amount (RequestedResource (store c') (Some n')) ResourceCPU) \<le> sint (amount (AllocatableResource (store c') (Some n')) ResourceCPU)"
    using fitting_pod_does_not_overcommit [OF reach h fits] num by fastforce
  then show ?thesis using fits not_fits by (intro exI [of _ c'] exI [of _ n']) (simp add: amount_def)
qed

text \<open>
  The snapshot that the scheduler refreshes has the nodes of the cache and no others; an entry is the
  node info of the cache unless the old entry has the same generation, and then it is the old entry.
\<close>

theorem snapshot_follows_generations:
  assumes "iter_order (nodes c) ks" "iter_order (foldl (refresh c) m ks) js"
  shows "dom (UpdateNodeNameToInfoMap ks js c m) = dom (nodes c)
    \<and> (nodes c name = Some info \<longrightarrow>
         (case m name of
            Some current \<Rightarrow> generation current = generation info \<and> UpdateNodeNameToInfoMap ks js c m name = Some current
              \<or> generation current \<noteq> generation info \<and> UpdateNodeNameToInfoMap ks js c m name = Some info
          | None \<Rightarrow> UpdateNodeNameToInfoMap ks js c m name = Some info))"
  using snapshot_eq [OF assms] by (auto simp: dom_def split: option.splits if_splits)

theorem snapshot_follows_generations_witness:
  "UpdateNodeNameToInfoMap [''n1''] [''n1''] (example_cluster []) Map.empty ''n1'' = Some (example_info [])
   \<and> dom (UpdateNodeNameToInfoMap [''n1''] [''n1''] (example_cluster []) Map.empty) = {''n1''}"
  using snapshot_follows_generations [OF example_cluster_order [of "[]"], of "''n1''" "example_info []"]
  by (simp add: example_cluster_def)

text \<open>
  C35. The snapshot shares the sums with the cache: after a snapshot is taken, assuming a pod changes the
  requested resources that the snapshot shows by the request of the pod, while the pods and the
  generation that the snapshot shows stay.
\<close>

theorem snapshot_shares_sums:
  assumes "cache_reachable b c" "podStates c (pod_key p) = None"
    and "nodes c (p_NodeName p) = Some n"
    and "iter_order (nodes c) ks" "iter_order (foldl (refresh c) Map.empty ks) js"
  shows "\<exists>c' i. UpdateNodeNameToInfoMap ks js c Map.empty (p_NodeName p) = Some i \<and> AssumePod p c = Done None c'
    \<and> ni_pods i = ni_pods n \<and> generation i = generation n
    \<and> (\<forall>name. amount (RequestedResource (store c') (Some i)) name
         = amount (RequestedResource (store c) (Some i)) name + request name p)"
proof -
  have inv: "cache_inv b c" by (rule cache_reachable_inv [OF assms(1)])
  have "UpdateNodeNameToInfoMap ks js c Map.empty (p_NodeName p) = Some n"
    using snapshot_eq [OF assms(4,5)] assms(3) by simp
  moreover obtain c' where "AssumePod p c = Done None c'"
    "\<forall>name. amount (store c' ! requestedResource n) name = amount (store c ! requestedResource n) name + request name p"
    using AssumePod_node [OF inv assms(2,3)] by auto
  ultimately show ?thesis by (auto simp: RequestedResource_def)
qed

theorem snapshot_shares_sums_witness:
  "\<exists>c' i. UpdateNodeNameToInfoMap [''n1''] [''n1''] (example_cluster []) Map.empty ''n1'' = Some i
    \<and> AssumePod (example_pod ''p'' ''n1'' 300) (example_cluster []) = Done None c' \<and> ni_pods i = []
    \<and> MilliCPU (RequestedResource (store (example_cluster [])) (Some i)) + 300 = MilliCPU (RequestedResource (store c') (Some i))"
proof -
  let ?p = "example_pod ''p'' ''n1'' 300" and ?c = "example_cluster []"
  have reach: "cache_reachable True ?c" by (rule example_cluster_reachable)
  have h: "podStates ?c (pod_key ?p) = None"
    "nodes ?c (p_NodeName ?p) = Some (example_info [])"
    by (simp_all add: example_cluster_def newSchedulerCache_def)
  obtain c' i where "UpdateNodeNameToInfoMap [''n1''] [''n1''] ?c Map.empty ''n1'' = Some i" "AssumePod ?p ?c = Done None c'"
    "ni_pods i = []"
    "amount (RequestedResource (store c') (Some i)) ResourceCPU
       = amount (RequestedResource (store ?c) (Some i)) ResourceCPU + request ResourceCPU ?p"
    using snapshot_shares_sums [OF reach h example_cluster_order] by (auto simp: example_info_def)
  then show ?thesis by (auto simp: amount_def request_def)
qed

text \<open>
  A node that is removed and added again can stay stale in a snapshot: its new node info starts
  counting generations anew, so a snapshot taken after the first addition keeps the node object
  that was removed although the cache has the new one.
\<close>

theorem snapshot_stale_after_readd:
  assumes "nodes c (v_Name a) = None" "v_Name b = v_Name a"
    and "AddNode a c = Done None c1" "RemoveNode a c1 = Done None c2" "AddNode b c2 = Done None c3"
    and "iter_order (nodes c1) ks" "iter_order (foldl (refresh c1) Map.empty ks) js"
    and "m = UpdateNodeNameToInfoMap ks js c1 Map.empty"
    and "iter_order (nodes c3) ks'" "iter_order (foldl (refresh c3) m ks') js'"
  shows "\<exists>i j. UpdateNodeNameToInfoMap ks' js' c3 m (v_Name a) = Some i \<and> nodes c3 (v_Name a) = Some j
    \<and> ni_node i = Some a \<and> ni_node j = Some b"
proof -
  have fresh: "\<exists>h n. d' = d\<lparr>store := h, nodes := (nodes d)(v_Name node \<mapsto> n)\<rparr> \<and> ni_node n = Some node \<and> ni_pods n = []
      \<and> generation n = 1"
    if "nodes d (v_Name node) = None" "AddNode node d = Done None d'" for d d' node
  proof -
    obtain h n where f: "empty_NodeInfo (store d) = (h, n)" by (cases "empty_NodeInfo (store d)")
    obtain h' n' where s: "SetNode node h n = (h', n')" by (cases "SetNode node h n")
    have n: "generation n = 0" "ni_pods n = []" using f by (auto simp: empty_NodeInfo_def)
    have "generation n' = 1 \<and> ni_pods n' = [] \<and> ni_node n' = Some node"
      using s n by (auto simp: SetNode_def Let_def case_prod_beta foldl_set_condition_same)
    then show ?thesis using that f s by (auto simp: AddNode_def find_or_new_def NewNodeInfo_def)
  qed
  obtain h1 i where c1: "c1 = c\<lparr>store := h1, nodes := (nodes c)(v_Name a \<mapsto> i)\<rparr>" "ni_node i = Some a" "ni_pods i = []" "generation i = 1"
    using fresh [OF assms(1,3)] by blast
  have c2: "nodes c2 (v_Name b) = None"
    using assms(2,4) c1(3) by (auto simp: RemoveNode_def ni_RemoveNode_def c1(1) split: if_splits)
  obtain h3 j where c3: "c3 = c2\<lparr>store := h3, nodes := (nodes c2)(v_Name b \<mapsto> j)\<rparr>" "ni_node j = Some b" "generation j = 1"
    using fresh [OF c2 assms(5)] by blast
  have "m (v_Name a) = Some i" using snapshot_eq [OF assms(6,7)] by (simp add: assms(8) c1(1))
  then show ?thesis using snapshot_eq [OF assms(9,10)] c1(2,4) c3 assms(2) by simp
qed

theorem snapshot_stale_after_readd_witness:
  "\<exists>c2 c3 i j. RemoveNode (example_node []) (example_cluster []) = Done None c2 \<and> AddNode (example_node [''noisy'']) c2 = Done None c3
    \<and> UpdateNodeNameToInfoMap [''n1''] [''n1''] c3 [''n1'' \<mapsto> example_info []] ''n1'' = Some i \<and> nodes c3 ''n1'' = Some j
    \<and> ni_node i = Some (example_node []) \<and> ni_node j = Some (example_node [''noisy''])"
proof -
  let ?a = "example_node []" and ?b = "example_node [''noisy'']"
  have names: "v_Name ?a = ''n1''" "v_Name ?b = ''n1''" by (simp_all add: example_node_def)
  have c: "nodes (newSchedulerCache 30) (v_Name ?a) = None" "v_Name ?b = v_Name ?a" by (simp_all add: newSchedulerCache_def names)
  obtain c2 where c2: "RemoveNode ?a (example_cluster []) = Done None c2" "nodes c2 = Map.empty"
    by (simp add: RemoveNode_def example_cluster_def ni_RemoveNode_def example_info_def names)
  obtain c3 j where c3: "AddNode ?b c2 = Done None c3" "nodes c3 = [''n1'' \<mapsto> j]"
    by (simp add: AddNode_def case_prod_beta c2(2) names)
  have m: "[''n1'' \<mapsto> example_info []] = UpdateNodeNameToInfoMap [''n1''] [''n1''] (example_cluster []) Map.empty"
    by (simp add: fun_eq_iff UpdateNodeNameToInfoMap_def refresh_def example_cluster_def)
  have ord: "iter_order (nodes c3) [''n1'']" "iter_order (foldl (refresh c3) [''n1'' \<mapsto> example_info []] [''n1'']) [''n1'']"
    by (auto simp: iter_order_def c3(2) refresh_def)
  show ?thesis
    using snapshot_stale_after_readd [OF c example_cluster_step c2(1) c3(1) example_cluster_order m ord] c2(1) c3(1)
    unfolding names by blast
qed

end
