(* ===== verification/Bitmap.thy ===== *)
theory Bitmap
  imports Go_Prelude
begin

unbundle bit_operations_syntax

section \<open>The allocation bitmap (\<^verbatim>\<open>pkg/registry/core/service/allocator\<close>)\<close>

text \<open>
  A block of items of which some are allocated, as the bits of one big number
  (\<^verbatim>\<open>math/big.Int\<close>). The number is never negative: it is a natural number. Its methods used here
  are \<^verbatim>\<open>Bit\<close> and \<^verbatim>\<open>SetBit\<close>, which panic on a negative index (\<open>None\<close>), \<^verbatim>\<open>Bytes\<close> and \<^verbatim>\<open>SetBytes\<close>,
  the big-endian bytes without leading zeros, and \<^verbatim>\<open>Bits\<close>, the 64 bit words from the least
  significant one. The random number that the random strategy starts from is an argument.
\<close>

subsection \<open>Big numbers\<close>

type_synonym byte = "8 word"

fun bytes_le :: "nat \<Rightarrow> byte list" where
  "bytes_le n = (if n = 0 then [] else word_of_nat n # bytes_le (n div 256))"

declare bytes_le.simps [simp del]

definition big_Bytes :: "nat \<Rightarrow> byte list" where
  "big_Bytes n = rev (bytes_le n)"

definition big_SetBytes :: "byte list \<Rightarrow> nat" where
  "big_SetBytes bs = foldl (\<lambda>n b. n * 256 + unat b) 0 bs"

fun big_Bits :: "nat \<Rightarrow> 64 word list" where
  "big_Bits n = (if n = 0 then [] else word_of_nat n # big_Bits (n div 2 ^ 64))"

declare big_Bits.simps [simp del]

subsection \<open>Counting bits\<close>

definition bitCounts :: "nat list" where
  "bitCounts =
     [0, 1, 1, 2, 1, 2, 2, 3, 1, 2, 2, 3, 2, 3, 3, 4, 1, 2, 2, 3, 2, 3, 3, 4, 2, 3, 3, 4, 3, 4, 4, 5,
      1, 2, 2, 3, 2, 3, 3, 4, 2, 3, 3, 4, 3, 4, 4, 5, 2, 3, 3, 4, 3, 4, 4, 5, 3, 4, 4, 5, 4, 5, 5, 6,
      1, 2, 2, 3, 2, 3, 3, 4, 2, 3, 3, 4, 3, 4, 4, 5, 2, 3, 3, 4, 3, 4, 4, 5, 3, 4, 4, 5, 4, 5, 5, 6,
      2, 3, 3, 4, 3, 4, 4, 5, 3, 4, 4, 5, 4, 5, 5, 6, 3, 4, 4, 5, 4, 5, 5, 6, 4, 5, 5, 6, 5, 6, 6, 7,
      1, 2, 2, 3, 2, 3, 3, 4, 2, 3, 3, 4, 3, 4, 4, 5, 2, 3, 3, 4, 3, 4, 4, 5, 3, 4, 4, 5, 4, 5, 5, 6,
      2, 3, 3, 4, 3, 4, 4, 5, 3, 4, 4, 5, 4, 5, 5, 6, 3, 4, 4, 5, 4, 5, 5, 6, 4, 5, 5, 6, 5, 6, 6, 7,
      2, 3, 3, 4, 3, 4, 4, 5, 3, 4, 4, 5, 4, 5, 5, 6, 3, 4, 4, 5, 4, 5, 5, 6, 4, 5, 5, 6, 5, 6, 6, 7,
      3, 4, 4, 5, 4, 5, 5, 6, 4, 5, 5, 6, 5, 6, 6, 7, 4, 5, 5, 6, 5, 6, 6, 7, 5, 6, 6, 7, 6, 7, 7, 8]"

definition countBits :: "nat \<Rightarrow> nat" where
  "countBits n = foldl (\<lambda>c b. c + bitCounts ! unat b) 0 (big_Bytes n)"

subsection \<open>The bitmap\<close>

datatype allocateStrategy = RandomScan | ContiguousScan

record AllocationBitmap =
  bm_strategy :: allocateStrategy
  bm_max :: int
  bm_rangeSpec :: string
  bm_count :: int
  bm_allocated :: nat

definition NewAllocationMap :: "int \<Rightarrow> string \<Rightarrow> AllocationBitmap" where
  "NewAllocationMap mx rangeSpec =
     \<lparr>bm_strategy = RandomScan, bm_max = mx, bm_rangeSpec = rangeSpec, bm_count = 0, bm_allocated = 0\<rparr>"

definition NewContiguousAllocationMap :: "int \<Rightarrow> string \<Rightarrow> AllocationBitmap" where
  "NewContiguousAllocationMap mx rangeSpec =
     \<lparr>bm_strategy = ContiguousScan, bm_max = mx, bm_rangeSpec = rangeSpec, bm_count = 0, bm_allocated = 0\<rparr>"

text \<open>The candidates are tried in turn until one is free.\<close>

definition randomScanStrategy :: "nat \<Rightarrow> nat \<Rightarrow> int \<Rightarrow> int \<Rightarrow> nat option" where
  "randomScanStrategy offset allocated mx c =
     (if c \<ge> mx then None
      else List.find (\<lambda>at. \<not> bit allocated at) (map (\<lambda>i. (offset + i) mod nat mx) [0..<nat mx]))"

definition contiguousScanStrategy :: "nat \<Rightarrow> int \<Rightarrow> int \<Rightarrow> nat option" where
  "contiguousScanStrategy allocated mx c =
     (if c \<ge> mx then None else List.find (\<lambda>i. \<not> bit allocated i) [0..<nat mx])"

definition bm_Allocate :: "int \<Rightarrow> AllocationBitmap \<Rightarrow> (bool \<times> AllocationBitmap) option" where
  "bm_Allocate offset r =
     (if offset < 0 then None
      else if bit (bm_allocated r) (nat offset) then Some (False, r)
      else Some (True, r\<lparr>bm_allocated := set_bit (nat offset) (bm_allocated r), bm_count := bm_count r + 1\<rparr>))"

definition bm_AllocateNext :: "nat \<Rightarrow> AllocationBitmap \<Rightarrow> nat \<times> bool \<times> AllocationBitmap" where
  "bm_AllocateNext seed r =
     (case (case bm_strategy r of
              RandomScan \<Rightarrow> randomScanStrategy seed (bm_allocated r) (bm_max r) (bm_count r)
            | ContiguousScan \<Rightarrow> contiguousScanStrategy (bm_allocated r) (bm_max r) (bm_count r)) of
        None \<Rightarrow> (0, False, r)
      | Some next \<Rightarrow> (next, True, r\<lparr>bm_count := bm_count r + 1, bm_allocated := set_bit next (bm_allocated r)\<rparr>))"

definition bm_Release :: "int \<Rightarrow> AllocationBitmap \<Rightarrow> AllocationBitmap option" where
  "bm_Release offset r =
     (if offset < 0 then None
      else if \<not> bit (bm_allocated r) (nat offset) then Some r
      else Some (r\<lparr>bm_allocated := unset_bit (nat offset) (bm_allocated r), bm_count := bm_count r - 1\<rparr>))"

definition bm_Has :: "int \<Rightarrow> AllocationBitmap \<Rightarrow> bool option" where
  "bm_Has offset r = (if offset < 0 then None else Some (bit (bm_allocated r) (nat offset)))"

definition bm_Free :: "AllocationBitmap \<Rightarrow> int" where
  "bm_Free r = bm_max r - bm_count r"

lemma drop_and_not_1: "drop_bit 1 (w AND NOT 1) = drop_bit 1 (w :: 64 word)"
proof (rule bit_eqI)
  fix n
  have "bit (w AND NOT 1) (1 + n) = bit w (1 + n)"
    unfolding bit_and_iff bit_not_iff by (auto simp: bit_1_iff dest: bit_imp_possible_bit)
  then show "bit (drop_bit 1 (w AND NOT 1)) n = bit (drop_bit 1 w) n"
    unfolding bit_drop_bit_eq comp_def .
qed

text \<open>The bits of one word, from the lowest; the calls of the function are collected.\<close>

function for_word :: "nat \<Rightarrow> nat \<Rightarrow> 64 word \<Rightarrow> nat list" where
  "for_word wordIdx b w =
     (if w = 0 then []
      else if w AND 1 \<noteq> 0 then (wordIdx * 8 * 8 + b) # for_word wordIdx (b + 1) (drop_bit 1 (w AND NOT 1))
      else for_word wordIdx (b + 1) (drop_bit 1 w))"
  by auto
termination
proof (relation "measure (\<lambda>(wordIdx, b, w). unat w)")
  have less: "unat (drop_bit 1 w) < unat w" if "w \<noteq> 0" for w :: "64 word"
  proof -
    have "0 < unat w" using that by (simp add: unat_gt_0)
    moreover have "unat (drop_bit 1 w) = drop_bit 1 (unat w)" by (rule unat_drop_bit_eq)
    ultimately show ?thesis by (simp only: drop_bit_eq_div) simp
  qed
  show "((wordIdx, b + 1, drop_bit 1 (w AND NOT 1)), wordIdx, b, w) \<in> measure (\<lambda>(wordIdx, b, w). unat w)"
    if "w \<noteq> 0" for wordIdx b :: nat and w :: "64 word"
    unfolding drop_and_not_1 using less [OF that] by simp
  show "((wordIdx, b + 1, drop_bit 1 w), wordIdx, b, w) \<in> measure (\<lambda>(wordIdx, b, w). unat w)"
    if "w \<noteq> 0" for wordIdx b :: nat and w :: "64 word" using less [OF that] by simp
qed simp

declare for_word.simps [simp del]

fun for_words :: "nat \<Rightarrow> 64 word list \<Rightarrow> nat list" where
  "for_words wordIdx [] = []"
| "for_words wordIdx (w # ws) = for_word wordIdx 0 w @ for_words (wordIdx + 1) ws"

definition bm_ForEach :: "AllocationBitmap \<Rightarrow> nat list" where
  "bm_ForEach r = for_words 0 (big_Bits (bm_allocated r))"

definition bm_Snapshot :: "AllocationBitmap \<Rightarrow> string \<times> byte list" where
  "bm_Snapshot r = (bm_rangeSpec r, big_Bytes (bm_allocated r))"

definition bm_Restore :: "string \<Rightarrow> byte list \<Rightarrow> AllocationBitmap \<Rightarrow> string option \<times> AllocationBitmap" where
  "bm_Restore rangeSpec data r =
     (if bm_rangeSpec r \<noteq> rangeSpec then (Some ''the provided range does not match the current range'', r)
      else (None, r\<lparr>bm_allocated := big_SetBytes data, bm_count := int (countBits (big_SetBytes data))\<rparr>))"

subsection \<open>Bytes\<close>

lemma big_SetBytes_Bytes [simp]: "big_SetBytes (big_Bytes n) = n"
proof (induction n rule: bytes_le.induct)
  case (1 n)
  have "unat (word_of_nat n :: byte) = n mod 256" by (simp add: unat_of_nat)
  then show ?case
    using 1 by (cases "n = 0") (simp_all add: big_SetBytes_def big_Bytes_def bytes_le.simps [of n] bytes_le.simps [of 0])
qed

text \<open>The set of the bits that are one.\<close>

definition bits :: "nat \<Rightarrow> nat set" where
  "bits n = {i. bit n i}"

lemma bits_0 [simp]: "bits 0 = {}"
  by (simp add: bits_def)

lemma bits_bound: "i \<in> bits n \<Longrightarrow> i < n"
proof -
  assume "i \<in> bits n"
  then have "odd (n div 2 ^ i)" by (simp add: bits_def bit_iff_odd)
  then have "n div 2 ^ i \<noteq> 0" by (rule contrapos_pn) simp
  then have "2 ^ i \<le> n" by (simp add: div_eq_0_iff)
  then show ?thesis using less_exp [of i] by linarith
qed

lemma finite_bits [simp]: "finite (bits n)"
  using bits_bound by (intro finite_subset [of "bits n" "{..<n}"]) auto

lemma bits_set_bit: "bits (set_bit i n) = insert i (bits n)"
  by (auto simp: bits_def bit_set_bit_iff)

lemma bits_unset_bit: "bits (unset_bit i n) = bits n - {i}"
  by (auto simp: bits_def bit_unset_bit_iff)

lemma bit_split: "bit n i \<longleftrightarrow> (if i < k then bit (n mod 2 ^ k) i else bit (n div 2 ^ k) (i - k))" for n :: nat
  unfolding take_bit_eq_mod [symmetric] drop_bit_eq_div [symmetric] by (simp add: bit_take_bit_iff bit_drop_bit_eq)

lemma bit_mod: "bit (n mod 2 ^ k) i \<Longrightarrow> i < k" for n :: nat
  unfolding take_bit_eq_mod [symmetric] by (simp add: bit_take_bit_iff)

lemma bits_split: "bits n = bits (n mod 2 ^ k) \<union> (+) k ` bits (n div 2 ^ k)"
proof (rule set_eqI)
  fix i
  show "i \<in> bits n \<longleftrightarrow> i \<in> bits (n mod 2 ^ k) \<union> (+) k ` bits (n div 2 ^ k)"
  proof (cases "i < k")
    case True
    then show ?thesis using bit_split [of n i k] by (auto simp: bits_def)
  next
    case False
    then have "i = k + (i - k)" by simp
    then have "i \<in> (+) k ` bits (n div 2 ^ k) \<longleftrightarrow> bit (n div 2 ^ k) (i - k)" by (auto simp: bits_def image_iff)
    then show ?thesis using False bit_split [of n i k] bit_mod [of n k i] by (auto simp: bits_def)
  qed
qed

lemma card_bits_split: "card (bits n) = card (bits (n mod 2 ^ k)) + card (bits (n div 2 ^ k))"
proof -
  have "bits (n mod 2 ^ k) \<inter> (+) k ` bits (n div 2 ^ k) = {}"
    by (auto simp: bits_def dest: bit_mod)
  then have "card (bits n) = card (bits (n mod 2 ^ k)) + card ((+) k ` bits (n div 2 ^ k))"
    by (subst bits_split [of n k]) (simp add: card_Un_disjoint)
  then show ?thesis by (simp add: card_image)
qed

text \<open>The table is right for each byte.\<close>

definition nibbleCounts :: "nat list" where
  "nibbleCounts = [0, 1, 1, 2, 1, 2, 2, 3, 1, 2, 2, 3, 2, 3, 3, 4]"

lemma bitCounts_eq: "bitCounts = concat (map (\<lambda>h. map ((+) h) nibbleCounts) nibbleCounts)"
  by (simp add: bitCounts_def nibbleCounts_def)

lemma nth_concat_map:
  "i < length xs \<Longrightarrow> j < length ys \<Longrightarrow> concat (map (\<lambda>x. map (f x) ys) xs) ! (i * length ys + j) = f (xs ! i) (ys ! j)"
proof (induction xs arbitrary: i)
  case (Cons x xs)
  then show ?case by (cases i) (simp_all add: nth_append)
qed simp

lemma nibbleCounts_correct:
  assumes "m < 16"
  shows "nibbleCounts ! m = card (bits m)"
proof -
  have "m = 0 \<or> m = 1 \<or> m = 2 \<or> m = 3 \<or> m = 4 \<or> m = 5 \<or> m = 6 \<or> m = 7 \<or> m = 8 \<or> m = 9 \<or> m = 10 \<or> m = 11
      \<or> m = 12 \<or> m = 13 \<or> m = 14 \<or> m = 15" using assms by presburger
  then have "nibbleCounts ! m = length (filter (\<lambda>i. odd (m div 2 ^ i)) [0, 1, 2, 3])"
    by (elim disjE) (simp_all add: nibbleCounts_def)
  moreover have "bits m = set (filter (\<lambda>i. odd (m div 2 ^ i)) [0, 1, 2, 3])"
  proof -
    have "m mod 2 ^ 4 = m" using assms by simp
    then have "bits m \<subseteq> {..<4}" using bit_mod [of m 4] by (auto simp only: bits_def)
    moreover have "{..<4} = set [0, 1, 2, 3 :: nat]" by (simp add: lessThan_nat_numeral lessThan_Suc insert_commute)
    moreover have "bits m = {i. odd (m div 2 ^ i)}" by (simp only: bits_def bit_iff_odd)
    ultimately show ?thesis unfolding set_filter by blast
  qed
  then have "card (bits m) = length (filter (\<lambda>i. odd (m div 2 ^ i)) [0, 1, 2, 3])"
    using distinct_card [of "filter (\<lambda>i. odd (m div 2 ^ i)) [0, 1, 2, 3]"] by simp
  ultimately show ?thesis by simp
qed

lemma bitCounts_correct:
  assumes "m < 256"
  shows "bitCounts ! m = card (bits m)"
proof -
  have "length nibbleCounts = 16" by (simp add: nibbleCounts_def)
  then have "bitCounts ! ((m div 16) * 16 + m mod 16) = nibbleCounts ! (m div 16) + nibbleCounts ! (m mod 16)"
    unfolding bitCounts_eq using nth_concat_map [of "m div 16" nibbleCounts "m mod 16" nibbleCounts "(+)"] assms by simp
  then show ?thesis
    using nibbleCounts_correct [of "m div 16"] nibbleCounts_correct [of "m mod 16"] card_bits_split [of m 4] assms by simp
qed

lemma countBits_correct: "countBits n = card (bits n)"
proof -
  have "foldl (\<lambda>c b. c + bitCounts ! unat b) a (rev (bytes_le n)) = a + card (bits n)" for a
  proof (induction n arbitrary: a rule: bytes_le.induct)
    case (1 n)
    have "unat (word_of_nat n :: byte) = n mod 2 ^ 8" by (simp add: unat_of_nat)
    moreover have "n mod 2 ^ 8 < 256" by simp
    ultimately show ?case
      using 1 bitCounts_correct [of "n mod 2 ^ 8"] card_bits_split [of n 8]
      by (cases "n = 0") (simp_all add: bytes_le.simps [of n] bytes_le.simps [of 0])
  qed
  from this [of 0] show ?thesis by (simp add: countBits_def big_Bytes_def)
qed

subsection \<open>The loop over the bits\<close>

lemma for_word_eq: "for_word k b w = map (\<lambda>i. k * 64 + b + i) (filter (bit w) [0..<64])"
proof (induction k b w rule: for_word.induct)
  case (1 k b w)
  have shift: "filter (bit w) [0..<64] = (if bit w 0 then [0] else []) @ map Suc (filter (bit (drop_bit 1 w)) [0..<64])"
  proof -
    have "\<not> bit w 64" using bit_imp_le_length [of w 64] by auto
    then have "filter (bit w) [0..<Suc 64] = filter (bit w) [0..<64]" by (simp only: upt_Suc) simp
    moreover have "[0..<Suc 64] = 0 # map Suc [0..<64]" by (simp only: map_Suc_upt upt_conv_Cons) simp
    ultimately have "filter (bit w) [0..<64] = filter (bit w) (0 # map Suc [0..<64])" by (simp only:)
    then show ?thesis by (simp add: filter_map comp_def bit_drop_bit_eq)
  qed
  have odd: "w AND 1 \<noteq> 0 \<longleftrightarrow> bit w 0" by (simp add: and_one_eq bit_0 mod_2_eq_odd)
  show ?case
    using 1 unfolding for_word.simps [of k b w] odd drop_and_not_1
    by (auto simp: shift comp_def split: if_splits)
qed

lemma bit_word_of_nat: "i < 64 \<Longrightarrow> bit (word_of_nat n :: 64 word) i \<longleftrightarrow> bit n i"
proof -
  assume "i < 64"
  moreover have "bit (unat (word_of_nat n :: 64 word)) i \<longleftrightarrow> bit (word_of_nat n :: 64 word) i" by (simp add: bit_unsigned_iff)
  moreover have "unat (word_of_nat n :: 64 word) = take_bit 64 n" by (simp add: unsigned_of_nat)
  ultimately show ?thesis by (simp add: bit_take_bit_iff)
qed

lemma filter_bits_split:
  "filter (bit n) [0..<k + m] = filter (bit n) [0..<k] @ map ((+) k) (filter (bit (n div 2 ^ k)) [0..<m])" for n :: nat
proof -
  have "[0..<k + m] = [0..<k] @ map ((+) k) [0..<m]"
    by (induction m) simp_all
  moreover have "bit n (k + i) \<longleftrightarrow> bit (n div 2 ^ k) i" for i using bit_split [of n "k + i" k] by simp
  ultimately show ?thesis by (simp add: filter_map comp_def)
qed

lemma for_words_eq: "for_words k (big_Bits n) = map ((+) (k * 64)) (filter (bit n) [0..<64 * length (big_Bits n)])"
proof (induction n arbitrary: k rule: big_Bits.induct)
  case (1 n)
  show ?case
  proof (cases "n = 0")
    case False
    let ?m = "64 * length (big_Bits (n div 2 ^ 64))"
    have low: "filter (bit (word_of_nat n :: 64 word)) [0..<64] = filter (bit n) [0..<64]"
      by (rule filter_cong) (simp_all add: bit_word_of_nat)
    have "filter (bit n) [0..<64 + ?m] = filter (bit n) [0..<64] @ map ((+) 64) (filter (bit (n div 2 ^ 64)) [0..<?m])"
      by (rule filter_bits_split)
    then show ?thesis
      using 1 [OF False, of "k + 1"] by (simp add: big_Bits.simps [of n] False for_word_eq low comp_def algebra_simps)
  qed (simp add: big_Bits.simps)
qed

lemma bm_ForEach_eq: "bm_ForEach r = sorted_list_of_set (bits (bm_allocated r))"
proof -
  have bound: "bit n i \<Longrightarrow> i < 64 * length (big_Bits n)" for n i
  proof (induction n arbitrary: i rule: big_Bits.induct)
    case (1 n)
    show ?case
    proof (cases "n = 0 \<or> i < 64")
      case False
      then have "bit n i = bit (n div 2 ^ 64) (i - 64)" using bit_split [of n i 64] by (simp only: if_False de_Morgan_disj)
      then have "bit (n div 2 ^ 64) (i - 64)" using 1(2) by (rule iffD1)
      then have "i - 64 < 64 * length (big_Bits (n div 2 ^ 64))" using 1(1) False by blast
      then show ?thesis using False by (simp add: big_Bits.simps [of n])
    next
      case True
      have "n \<noteq> 0" using 1(2) by (cases "n = 0") simp_all
      then show ?thesis using True by (simp add: big_Bits.simps [of n])
    qed
  qed
  have "(+) 0 = (\<lambda>i :: nat. i)" by (simp add: fun_eq_iff)
  then have each: "bm_ForEach r = filter (bit (bm_allocated r)) [0..<64 * length (big_Bits (bm_allocated r))]"
    by (simp add: bm_ForEach_def for_words_eq)
  have "set (bm_ForEach r) = bits (bm_allocated r)" using bound by (auto simp: each bits_def)
  moreover have "sorted (bm_ForEach r)" "distinct (bm_ForEach r)" unfolding each by (simp_all add: sorted_wrt_filter)
  ultimately show ?thesis by (metis sorted_list_of_set.idem_if_sorted_distinct)
qed

subsection \<open>The bitmap as a set of offsets\<close>

definition offsets :: "AllocationBitmap \<Rightarrow> nat set" where
  "offsets r = bits (bm_allocated r)"

definition bm_ok :: "AllocationBitmap \<Rightarrow> bool" where
  "bm_ok r \<longleftrightarrow> 0 \<le> bm_max r \<and> offsets r \<subseteq> {..<nat (bm_max r)} \<and> bm_count r = int (card (offsets r))"

lemma finite_offsets [simp]: "finite (offsets r)"
  by (simp add: offsets_def)

lemma bm_new_ok: "0 \<le> m \<Longrightarrow> bm_ok (NewAllocationMap m s)" "offsets (NewAllocationMap m s) = {}"
  by (simp_all add: bm_ok_def NewAllocationMap_def offsets_def)

lemma bm_Allocate_ok:
  assumes "bm_ok r" "0 \<le> offset" "offset < bm_max r"
  shows "\<exists>r'. bm_Allocate offset r = Some (nat offset \<notin> offsets r, r') \<and> bm_ok r' \<and> offsets r' = insert (nat offset) (offsets r)
    \<and> bm_max r' = bm_max r \<and> bm_rangeSpec r' = bm_rangeSpec r \<and> bm_strategy r' = bm_strategy r"
proof (cases "nat offset \<in> offsets r")
  case True
  then show ?thesis using assms by (auto simp: bm_Allocate_def offsets_def bits_def insert_absorb)
next
  case False
  define r' where "r' = r\<lparr>bm_allocated := set_bit (nat offset) (bm_allocated r), bm_count := bm_count r + 1\<rparr>"
  have "offsets r' = insert (nat offset) (offsets r)" by (simp add: r'_def offsets_def bits_set_bit)
  moreover have "bm_Allocate offset r = Some (True, r')"
    using assms(2) False by (simp add: bm_Allocate_def r'_def offsets_def bits_def)
  moreover have "bm_max r' = bm_max r \<and> bm_rangeSpec r' = bm_rangeSpec r \<and> bm_strategy r' = bm_strategy r
      \<and> bm_count r' = bm_count r + 1" by (simp add: r'_def)
  ultimately show ?thesis using assms False by (simp add: bm_ok_def)
qed

lemma bm_Release_ok:
  assumes "bm_ok r" "0 \<le> offset"
  shows "\<exists>r'. bm_Release offset r = Some r' \<and> bm_ok r' \<and> offsets r' = offsets r - {nat offset}
    \<and> bm_max r' = bm_max r \<and> bm_rangeSpec r' = bm_rangeSpec r \<and> bm_strategy r' = bm_strategy r"
proof (cases "nat offset \<in> offsets r")
  case False
  then show ?thesis using assms by (auto simp: bm_Release_def offsets_def bits_def)
next
  case True
  define r' where "r' = r\<lparr>bm_allocated := unset_bit (nat offset) (bm_allocated r), bm_count := bm_count r - 1\<rparr>"
  have o: "offsets r' = offsets r - {nat offset}" by (simp add: r'_def offsets_def bits_unset_bit)
  moreover have "bm_Release offset r = Some r'" using assms(2) True by (simp add: bm_Release_def r'_def offsets_def bits_def)
  moreover have "bm_max r' = bm_max r \<and> bm_rangeSpec r' = bm_rangeSpec r \<and> bm_strategy r' = bm_strategy r
      \<and> bm_count r' = bm_count r - 1" by (simp add: r'_def)
  moreover have "card (offsets r') = card (offsets r) - 1" "0 < card (offsets r)"
    using True by (auto simp: o card_gt_0_iff)
  ultimately show ?thesis using assms by (auto simp: bm_ok_def)
qed

lemma full_iff: "bm_ok r \<Longrightarrow> bm_count r \<ge> bm_max r \<longleftrightarrow> offsets r = {..<nat (bm_max r)}"
proof -
  assume ok: "bm_ok r"
  then have "card (offsets r) \<le> nat (bm_max r)" using card_mono [of "{..<nat (bm_max r)}" "offsets r"] by (simp add: bm_ok_def)
  then have "bm_count r \<ge> bm_max r \<longleftrightarrow> card (offsets r) = card {..<nat (bm_max r)}" using ok by (auto simp: bm_ok_def)
  also have "\<dots> \<longleftrightarrow> offsets r = {..<nat (bm_max r)}"
    using ok card_subset_eq [of "{..<nat (bm_max r)}" "offsets r"] by (auto simp: bm_ok_def)
  finally show ?thesis .
qed

lemma candidates: "0 < m \<Longrightarrow> (\<lambda>i. (s + i) mod m) ` {..<m} = {..<m}" for m :: nat
proof -
  assume m: "0 < m"
  have le: "j \<le> i" if "j < m" "(s + j) mod m = (s + i) mod m" for i j
  proof (rule ccontr)
    assume "\<not> j \<le> i"
    then have "m dvd j - i" "0 < j - i" "j - i < m" using that mod_eq_dvd_iff_nat [of "s + i" "s + j" m] by simp_all
    then show False using dvd_imp_le leD by blast
  qed
  have "inj_on (\<lambda>i. (s + i) mod m) {..<m}"
  proof (rule inj_onI)
    fix i j assume "i \<in> {..<m}" "j \<in> {..<m}" and eq: "(s + i) mod m = (s + j) mod m"
    then show "i = j" using le [of i j] le [of j i] by simp
  qed
  moreover have "(\<lambda>i. (s + i) mod m) ` {..<m} \<subseteq> {..<m}" using m by auto
  ultimately show ?thesis by (simp add: endo_inj_surj)
qed

lemma strategy_correct:
  assumes "bm_ok r" "found = (case bm_strategy r of
      RandomScan \<Rightarrow> randomScanStrategy seed (bm_allocated r) (bm_max r) (bm_count r)
    | ContiguousScan \<Rightarrow> contiguousScanStrategy (bm_allocated r) (bm_max r) (bm_count r))"
  shows "case found of None \<Rightarrow> offsets r = {..<nat (bm_max r)} | Some i \<Rightarrow> i < nat (bm_max r) \<and> i \<notin> offsets r"
proof (cases "bm_count r \<ge> bm_max r")
  case True
  then have "found = None"
    using assms(2) by (cases "bm_strategy r") (simp_all add: randomScanStrategy_def contiguousScanStrategy_def)
  then show ?thesis using full_iff [OF assms(1)] True by simp
next
  case False
  then have m: "0 < nat (bm_max r)" using assms(1) by (simp add: bm_ok_def)
  obtain xs where xs: "found = List.find (\<lambda>i. \<not> bit (bm_allocated r) i) xs" "set xs = {..<nat (bm_max r)}"
  proof (cases "bm_strategy r")
    case RandomScan
    then show ?thesis
      using that [of "map (\<lambda>i. (seed + i) mod nat (bm_max r)) [0..<nat (bm_max r)]"] False assms(2) candidates [OF m, of seed]
      by (simp add: randomScanStrategy_def lessThan_atLeast0)
  next
    case ContiguousScan
    then show ?thesis
      using that [of "[0..<nat (bm_max r)]"] False assms(2) by (simp add: contiguousScanStrategy_def lessThan_atLeast0)
  qed
  show ?thesis
  proof (cases found)
    case None
    then have "\<forall>i \<in> {..<nat (bm_max r)}. bit (bm_allocated r) i" using xs by (auto simp: find_None_iff)
    then show ?thesis using None assms(1) by (auto simp: bm_ok_def offsets_def bits_def)
  next
    case (Some i)
    then have "i \<in> set xs" "\<not> bit (bm_allocated r) i" using xs(1) by (auto simp: find_Some_iff)
    then show ?thesis using Some xs(2) by (auto simp: offsets_def bits_def)
  qed
qed

lemma bm_AllocateNext_ok:
  assumes "bm_ok r"
  shows "(bm_AllocateNext seed r = (0, False, r) \<and> offsets r = {..<nat (bm_max r)})
    \<or> (\<exists>i r'. bm_AllocateNext seed r = (i, True, r') \<and> i < nat (bm_max r) \<and> i \<notin> offsets r \<and> bm_ok r'
        \<and> offsets r' = insert i (offsets r) \<and> bm_max r' = bm_max r \<and> bm_rangeSpec r' = bm_rangeSpec r \<and> bm_strategy r' = bm_strategy r)"
proof -
  define found where "found = (case bm_strategy r of
      RandomScan \<Rightarrow> randomScanStrategy seed (bm_allocated r) (bm_max r) (bm_count r)
    | ContiguousScan \<Rightarrow> contiguousScanStrategy (bm_allocated r) (bm_max r) (bm_count r))"
  note s = strategy_correct [OF assms found_def]
  show ?thesis
  proof (cases found)
    case None
    then show ?thesis using s by (simp add: bm_AllocateNext_def flip: found_def)
  next
    case (Some i)
    define r' where "r' = r\<lparr>bm_count := bm_count r + 1, bm_allocated := set_bit i (bm_allocated r)\<rparr>"
    have "offsets r' = insert i (offsets r)" by (simp add: r'_def offsets_def bits_set_bit)
    moreover have "bm_AllocateNext seed r = (i, True, r')" by (simp add: bm_AllocateNext_def Some r'_def flip: found_def)
    moreover have "bm_max r' = bm_max r \<and> bm_rangeSpec r' = bm_rangeSpec r \<and> bm_strategy r' = bm_strategy r
      \<and> bm_count r' = bm_count r + 1" by (simp add: r'_def)
    ultimately show ?thesis using s Some assms by (simp add: bm_ok_def)
  qed
qed

lemma bm_Restore_Snapshot:
  "bm_rangeSpec r' = bm_rangeSpec r \<Longrightarrow> bm_Snapshot r = (rs, data) \<Longrightarrow>
     bm_Restore rs data r' = (None, r'\<lparr>bm_allocated := bm_allocated r, bm_count := int (card (offsets r))\<rparr>)"
  by (auto simp: bm_Snapshot_def bm_Restore_def countBits_correct offsets_def)

subsection \<open>Properties\<close>

text \<open>
  C14. The bitmap implements a finite set of the offsets below its size. For an offset of the
  block, Allocate says true exactly when the offset was free and adds it, Release removes it, Has
  tests it, and none of them panics; Free is the size less the number of the allocated offsets;
  AllocateNext, with both strategies and whatever the random start, adds a free offset of the
  block, and it fails exactly when the block is full.
\<close>

theorem bitmap_refines_set:
  assumes "bm_ok r" "0 \<le> offset" "offset < bm_max r"
  shows "(\<exists>r'. bm_Allocate offset r = Some (nat offset \<notin> offsets r, r') \<and> bm_ok r' \<and> offsets r' = insert (nat offset) (offsets r))
    \<and> (\<exists>r'. bm_Release offset r = Some r' \<and> bm_ok r' \<and> offsets r' = offsets r - {nat offset})
    \<and> bm_Has offset r = Some (nat offset \<in> offsets r)
    \<and> bm_Free r = bm_max r - int (card (offsets r))
    \<and> (if offsets r = {..<nat (bm_max r)} then bm_AllocateNext seed r = (0, False, r)
       else \<exists>i r'. bm_AllocateNext seed r = (i, True, r') \<and> i < nat (bm_max r) \<and> i \<notin> offsets r
         \<and> bm_ok r' \<and> offsets r' = insert i (offsets r))"
proof (intro conjI)
  show "\<exists>r'. bm_Allocate offset r = Some (nat offset \<notin> offsets r, r') \<and> bm_ok r' \<and> offsets r' = insert (nat offset) (offsets r)"
    using bm_Allocate_ok [OF assms] by blast
  show "\<exists>r'. bm_Release offset r = Some r' \<and> bm_ok r' \<and> offsets r' = offsets r - {nat offset}"
    using bm_Release_ok [OF assms(1,2)] by blast
  show "bm_Has offset r = Some (nat offset \<in> offsets r)" using assms(2) by (simp add: bm_Has_def offsets_def bits_def)
  show "bm_Free r = bm_max r - int (card (offsets r))" using assms(1) by (simp add: bm_Free_def bm_ok_def)
  show "if offsets r = {..<nat (bm_max r)} then bm_AllocateNext seed r = (0, False, r)
       else \<exists>i r'. bm_AllocateNext seed r = (i, True, r') \<and> i < nat (bm_max r) \<and> i \<notin> offsets r
         \<and> bm_ok r' \<and> offsets r' = insert i (offsets r)"
    using bm_AllocateNext_ok [OF assms(1), of seed] by (elim disjE exE conjE) auto
qed

theorem bitmap_refines_set_witness:
  "bm_ok (NewAllocationMap 3 ''r'') \<and> (1 :: int) < bm_max (NewAllocationMap 3 ''r'')
    \<and> bm_Free (NewAllocationMap 3 ''r'') = 3 - int (card (offsets (NewAllocationMap 3 ''r'')))"
proof -
  have ok: "bm_ok (NewAllocationMap 3 ''r'')" by (rule bm_new_ok) simp
  moreover have m: "bm_max (NewAllocationMap 3 ''r'') = 3" by (simp add: NewAllocationMap_def)
  ultimately show ?thesis
    using bitmap_refines_set [OF ok, of 1, THEN conjunct2, THEN conjunct2, THEN conjunct2, THEN conjunct1] by simp
qed

text \<open>
  C36. The table of bit counts computes the number of the bits that are one, in numbers of any
  size, and the word-wise loop of ForEach visits exactly the bits that are one, each once and in
  ascending order.
\<close>

theorem bitmap_scans_exact:
  "countBits n = card {i. bit n i} \<and> bm_ForEach r = sorted_list_of_set {i. bit (bm_allocated r) i}"
  using countBits_correct [of n] bm_ForEach_eq [of r] by (simp add: bits_def)

end
