(* ===== verification/PortAllocator.thy ===== *)
theory PortAllocator
  imports Bitmap LabelSyntax
begin

section \<open>The allocator of node ports\<close>

text \<open>
  Port ranges (\<^verbatim>\<open>pkg/util/net/port_range.go\<close>), the allocator of the ports of a range
  (\<^verbatim>\<open>pkg/registry/core/service/portallocator/allocator.go\<close>) over the allocation bitmap, and the
  transaction over the interface of a port allocator (\<^verbatim>\<open>operation.go\<close>). A call of the bitmap
  that panics makes the result \<open>None\<close>. The subtraction \<^verbatim>\<open>p - pr.Base\<close> is only reached for
  \<^verbatim>\<open>p >= pr.Base\<close> and the base of a parsed range is not negative, so the ports are unbounded
  integers.
\<close>

subsection \<open>Port ranges\<close>

text \<open>\<^verbatim>\<open>fmt.Sprintf("%d", i)\<close>.\<close>

fun digits :: "nat \<Rightarrow> string" where
  "digits n = (if n < 10 then [char_of (48 + n)] else digits (n div 10) @ [char_of (48 + n mod 10)])"

declare digits.simps [simp del]

definition Itoa :: "int \<Rightarrow> string" where
  "Itoa i = (if i < 0 then CHR ''-'' # digits (nat (- i)) else digits (nat i))"

record PortRange =
  pr_Base :: int
  pr_Size :: int

definition pr_Contains :: "PortRange \<Rightarrow> int \<Rightarrow> bool" where
  "pr_Contains pr p \<longleftrightarrow> p \<ge> pr_Base pr \<and> p - pr_Base pr < pr_Size pr"

definition pr_String :: "PortRange \<Rightarrow> string" where
  "pr_String pr =
     (if pr_Size pr = 0 then '''' else Itoa (pr_Base pr) @ ''-'' @ Itoa (pr_Base pr + pr_Size pr - 1))"

datatype port_range_error =
    ExpectedHyphen
  | UnableToParse string
  | PortTooLarge string
  | EndBeforeStart string

definition pr_Set :: "string \<Rightarrow> PortRange \<Rightarrow> port_range_error option \<times> PortRange" where
  "pr_Set value0 pr =
     (let v = TrimSpace value0;
          hyphenIndex = length (takeWhile (\<lambda>c. c \<noteq> CHR ''-'') v)
      in if v = '''' then (None, pr\<lparr>pr_Base := 0, pr_Size := 0\<rparr>)
         else if hyphenIndex = length v then (Some ExpectedHyphen, pr)
         else case ParseInt64 (take hyphenIndex v) of
                None \<Rightarrow> (Some (UnableToParse v), pr)
              | Some low \<Rightarrow>
                  (case ParseInt64 (drop (hyphenIndex + 1) v) of
                     None \<Rightarrow> (Some (UnableToParse v), pr)
                   | Some high \<Rightarrow>
                       if low > 65535 \<or> high > 65535 then (Some (PortTooLarge v), pr)
                       else if high < low then (Some (EndBeforeStart v), pr)
                       else (None, pr\<lparr>pr_Base := low, pr_Size := 1 + high - low\<rparr>)))"

definition ParsePortRange :: "string \<Rightarrow> port_range_error + PortRange" where
  "ParsePortRange v =
     (case pr_Set v \<lparr>pr_Base = 0, pr_Size = 0\<rparr> of
        (Some err, _) \<Rightarrow> Inl err
      | (None, pr) \<Rightarrow> Inr pr)"

subsection \<open>The allocator\<close>

datatype port_error =
    ErrFull
  | ErrAllocated
  | ErrMismatchedNetwork
  | ErrNotInRange string
  | ErrRange port_range_error
  | ErrAlloc string

record PortAllocator =
  pa_portRange :: PortRange
  pa_alloc :: AllocationBitmap

text \<open>\<^verbatim>\<open>api.RangeAllocation\<close>, without its meta data.\<close>

record RangeAllocation =
  ra_Range :: string
  ra_Data :: "byte list"

definition NewPortAllocatorCustom :: "PortRange \<Rightarrow> (int \<Rightarrow> string \<Rightarrow> AllocationBitmap) \<Rightarrow> PortAllocator" where
  "NewPortAllocatorCustom pr allocatorFactory =
     \<lparr>pa_portRange = pr, pa_alloc = allocatorFactory (pr_Size pr) (pr_String pr)\<rparr>"

definition NewPortAllocator :: "PortRange \<Rightarrow> PortAllocator" where
  "NewPortAllocator pr = NewPortAllocatorCustom pr NewAllocationMap"

definition pa_contains :: "PortAllocator \<Rightarrow> int \<Rightarrow> bool \<times> int" where
  "pa_contains r port =
     (if \<not> pr_Contains (pa_portRange r) port then (False, 0) else (True, port - pr_Base (pa_portRange r)))"

definition pa_Free :: "PortAllocator \<Rightarrow> int" where
  "pa_Free r = bm_Free (pa_alloc r)"

definition pa_Used :: "PortAllocator \<Rightarrow> int" where
  "pa_Used r = pr_Size (pa_portRange r) - bm_Free (pa_alloc r)"

definition pa_Allocate :: "int \<Rightarrow> PortAllocator \<Rightarrow> (port_error option \<times> PortAllocator) option" where
  "pa_Allocate port r =
     (let (ok, offset) = pa_contains r port
      in if \<not> ok then Some (Some (ErrNotInRange (pr_String (pa_portRange r))), r)
         else map_option (\<lambda>(allocated, a). (if \<not> allocated then Some ErrAllocated else None, r\<lparr>pa_alloc := a\<rparr>))
                (bm_Allocate offset (pa_alloc r)))"

definition pa_AllocateNext :: "nat \<Rightarrow> PortAllocator \<Rightarrow> int \<times> port_error option \<times> PortAllocator" where
  "pa_AllocateNext seed r =
     (case bm_AllocateNext seed (pa_alloc r) of
        (offset, ok, a) \<Rightarrow>
          if \<not> ok then (0, Some ErrFull, r\<lparr>pa_alloc := a\<rparr>)
          else (pr_Base (pa_portRange r) + int offset, None, r\<lparr>pa_alloc := a\<rparr>))"

text \<open>The ports the function is called with.\<close>

definition pa_ForEach :: "PortAllocator \<Rightarrow> int list" where
  "pa_ForEach r = map (\<lambda>offset. pr_Base (pa_portRange r) + int offset) (bm_ForEach (pa_alloc r))"

definition pa_Release :: "int \<Rightarrow> PortAllocator \<Rightarrow> (port_error option \<times> PortAllocator) option" where
  "pa_Release port r =
     (let (ok, offset) = pa_contains r port
      in if \<not> ok then Some (None, r)
         else map_option (\<lambda>a. (None, r\<lparr>pa_alloc := a\<rparr>)) (bm_Release offset (pa_alloc r)))"

definition pa_Has :: "PortAllocator \<Rightarrow> int \<Rightarrow> bool option" where
  "pa_Has r port =
     (let (ok, offset) = pa_contains r port
      in if \<not> ok then Some False else bm_Has offset (pa_alloc r))"

definition pa_Snapshot :: "PortAllocator \<Rightarrow> RangeAllocation \<Rightarrow> RangeAllocation" where
  "pa_Snapshot r dst =
     (case bm_Snapshot (pa_alloc r) of (rangeString, data) \<Rightarrow> dst\<lparr>ra_Range := rangeString, ra_Data := data\<rparr>)"

definition pa_Restore :: "PortRange \<Rightarrow> byte list \<Rightarrow> PortAllocator \<Rightarrow> port_error option \<times> PortAllocator" where
  "pa_Restore pr data r =
     (if pr_String pr \<noteq> pr_String (pa_portRange r) then (Some ErrMismatchedNetwork, r)
      else case bm_Restore (pr_String pr) data (pa_alloc r) of
             (err, a) \<Rightarrow> (map_option ErrAlloc err, r\<lparr>pa_alloc := a\<rparr>))"

definition pa_NewFromSnapshot :: "RangeAllocation \<Rightarrow> port_error + PortAllocator" where
  "pa_NewFromSnapshot snap =
     (case ParsePortRange (ra_Range snap) of
        Inl err \<Rightarrow> Inl (ErrRange err)
      | Inr pr \<Rightarrow>
          (case pa_Restore pr (ra_Data snap) (NewPortAllocator pr) of
             (Some err, _) \<Rightarrow> Inl err
           | (None, r) \<Rightarrow> Inr r))"

subsection \<open>Transactions\<close>

text \<open>
  The state of an operation; the allocator it works on is shared with other callers and is
  threaded beside it. The methods of the allocator that an operation calls are arguments.
\<close>

record portAllocationOperation =
  op_allocated :: "int list"
  op_releaseDeferred :: "int list"
  op_shouldRollback :: bool

type_synonym 'a port_call = "int \<Rightarrow> 'a \<Rightarrow> (port_error option \<times> 'a) option"

definition StartOperation :: portAllocationOperation where
  "StartOperation = \<lparr>op_allocated = [], op_releaseDeferred = [], op_shouldRollback = True\<rparr>"

fun release_all :: "'a port_call \<Rightarrow> int list \<Rightarrow> port_error list \<Rightarrow> 'a \<Rightarrow> (port_error list \<times> 'a) option" where
  "release_all release [] errs pa = Some (errs, pa)"
| "release_all release (port # ports) errs pa =
     (case release port pa of
        None \<Rightarrow> None
      | Some (None, pa') \<Rightarrow> release_all release ports errs pa'
      | Some (Some err, pa') \<Rightarrow> release_all release ports (errs @ [err]) pa')"

definition op_Rollback ::
    "'a port_call \<Rightarrow> portAllocationOperation \<Rightarrow> 'a \<Rightarrow> (port_error list \<times> 'a) option" where
  "op_Rollback release op pa = release_all release (op_allocated op) [] pa"

definition op_Finish :: "'a port_call \<Rightarrow> portAllocationOperation \<Rightarrow> 'a \<Rightarrow> 'a option" where
  "op_Finish release op pa =
     (if op_shouldRollback op then map_option snd (op_Rollback release op pa) else Some pa)"

definition op_Commit ::
    "'a port_call \<Rightarrow> portAllocationOperation \<Rightarrow> 'a \<Rightarrow> (port_error list \<times> portAllocationOperation \<times> 'a) option" where
  "op_Commit release op pa =
     map_option (\<lambda>(errs, pa'). (errs, op\<lparr>op_shouldRollback := False\<rparr>, pa'))
       (release_all release (op_releaseDeferred op) [] pa)"

definition op_Allocate ::
    "'a port_call \<Rightarrow> int \<Rightarrow> portAllocationOperation \<Rightarrow> 'a \<Rightarrow> (port_error option \<times> portAllocationOperation \<times> 'a) option" where
  "op_Allocate allocate port op pa =
     map_option (\<lambda>(err, pa'). (err, if err = None then op\<lparr>op_allocated := op_allocated op @ [port]\<rparr> else op, pa'))
       (allocate port pa)"

definition op_AllocateNext ::
    "(nat \<Rightarrow> 'a \<Rightarrow> int \<times> port_error option \<times> 'a) \<Rightarrow> nat \<Rightarrow> portAllocationOperation \<Rightarrow> 'a
       \<Rightarrow> int \<times> port_error option \<times> portAllocationOperation \<times> 'a" where
  "op_AllocateNext allocateNext seed op pa =
     (case allocateNext seed pa of
        (port, err, pa') \<Rightarrow> (port, err, if err = None then op\<lparr>op_allocated := op_allocated op @ [port]\<rparr> else op, pa'))"

definition op_ReleaseDeferred :: "int \<Rightarrow> portAllocationOperation \<Rightarrow> portAllocationOperation" where
  "op_ReleaseDeferred port op = op\<lparr>op_releaseDeferred := op_releaseDeferred op @ [port]\<rparr>"

subsection \<open>Numbers and ranges\<close>

lemma is_digit_iff: "is_digit c \<longleftrightarrow> (of_char c :: nat) \<in> {48..57}"
  by (auto simp: is_digit_def between_def)

lemma digits_decimal: "decimal (digits n) = int n \<and> digits n \<noteq> [] \<and> list_all is_digit (digits n)"
proof (induction n rule: digits.induct)
  case (1 n)
  have digit: "digit_value (char_of (48 + d)) = int d" "is_digit (char_of (48 + d))" if "d < 10" for d :: nat
  proof -
    have v: "(of_char (char_of (48 + d) :: char) :: nat) = 48 + d" using that by simp
    then have "(of_char (char_of (48 + d) :: char) :: int) = 48 + int d"
      by (metis of_nat_add of_nat_numeral of_nat_of_char)
    then show "digit_value (char_of (48 + d)) = int d" by (simp add: digit_value_def)
    show "is_digit (char_of (48 + d))" using that by (simp add: is_digit_iff v)
  qed
  show ?case
  proof (cases "n < 10")
    case True
    then show ?thesis using digit [of n] by (simp add: digits.simps [of n] decimal_def)
  next
    case False
    have "10 * int (n div 10) + int (n mod 10) = int n" by presburger
    then show ?thesis
      using False 1 digit [of "n mod 10"] by (simp add: digits.simps [of n] decimal_def)
  qed
qed

lemma is_digit_not_sign: "is_digit c \<Longrightarrow> c \<noteq> CHR ''-'' \<and> c \<noteq> CHR ''+''"
  by (auto simp: is_digit_iff)

lemma ParseInt64_digits: "list_all is_digit ds \<Longrightarrow> ds \<noteq> [] \<Longrightarrow> is_int64 (decimal ds) \<Longrightarrow> ParseInt64 ds = Some (decimal ds)"
  by (cases ds) (simp_all add: ParseInt64_def is_digit_not_sign)

lemma Itoa_nonneg:
  assumes "0 \<le> i"
  shows "list_all is_digit (Itoa i)" "Itoa i \<noteq> []" "decimal (Itoa i) = i"
  using assms digits_decimal [of "nat i"] by (simp_all add: Itoa_def)

lemma ParseInt64_Itoa: "is_int64 i \<Longrightarrow> ParseInt64 (Itoa i) = Some i"
proof (cases "i < 0")
  case True
  assume "is_int64 i"
  then show ?thesis using True digits_decimal [of "nat (- i)"] by (simp add: Itoa_def ParseInt64_def)
next
  case False
  assume "is_int64 i"
  then show ?thesis using Itoa_nonneg [of i] ParseInt64_digits [of "Itoa i"] False by simp
qed

definition range_ok :: "PortRange \<Rightarrow> bool" where
  "range_ok pr \<longleftrightarrow> 0 \<le> pr_Base pr \<and> 0 \<le> pr_Size pr \<and> pr_Base pr + pr_Size pr \<le> 65536"

lemma ParseInt64_plain: "ParseInt64 s = Some n \<Longrightarrow> CHR ''-'' \<notin> set s \<Longrightarrow> 0 \<le> n"
proof -
  have nonneg: "list_all is_digit ds \<Longrightarrow> 0 \<le> decimal ds" for ds
  proof (induction ds rule: rev_induct)
    case (snoc c ds)
    have "digit_value c = int (of_char c) - 48" by (simp add: digit_value_def of_nat_of_char)
    moreover have "48 \<le> (of_char c :: nat)" using snoc(2) by (simp add: is_digit_iff)
    ultimately have "0 \<le> digit_value c" by linarith
    then show ?case using snoc by (simp add: decimal_def)
  qed (simp add: decimal_def)
  assume "ParseInt64 s = Some n" "CHR ''-'' \<notin> set s"
  then show ?thesis using nonneg by (cases s) (auto simp: ParseInt64_def Let_def split: if_splits)
qed

lemma pr_Set_ok:
  assumes "pr_Set s pr0 = (None, pr)"
  shows "range_ok pr"
proof -
  define v where "v = TrimSpace s"
  define h where "h = length (takeWhile (\<lambda>c. c \<noteq> CHR ''-'') v)"
  have "take h v = takeWhile (\<lambda>c. c \<noteq> CHR ''-'') v" unfolding h_def by (metis takeWhile_eq_take)
  then have plain: "CHR ''-'' \<notin> set (take h v)" using set_takeWhileD by fastforce
  have "range_ok pr" if "ParseInt64 (take h v) = Some low" "ParseInt64 (drop (h + 1) v) = Some high" "v \<noteq> []" "h \<noteq> length v" for low high
    using assms that ParseInt64_plain [OF that(1) plain]
    by (auto simp: pr_Set_def Let_def range_ok_def simp flip: v_def h_def split: if_splits)
  moreover have "v = [] \<Longrightarrow> range_ok pr" using assms by (auto simp: pr_Set_def range_ok_def simp flip: v_def)
  moreover have "v = [] \<or> h \<noteq> length v \<and> ParseInt64 (take h v) \<noteq> None \<and> ParseInt64 (drop (h + 1) v) \<noteq> None"
    using assms by (auto simp: pr_Set_def Let_def simp flip: v_def h_def split: if_splits option.splits)
  ultimately show ?thesis by auto
qed

lemma ParsePortRange_String:
  assumes ok: "range_ok pr" and size: "pr_Size pr > 0"
  shows "ParsePortRange (pr_String pr) = Inr pr"
proof -
  define low where "low = pr_Base pr"
  define high where "high = pr_Base pr + pr_Size pr - 1"
  have b: "0 \<le> low" "low \<le> high" "high \<le> 65535" using ok size by (auto simp: range_ok_def low_def high_def)
  then have i: "is_int64 low" "is_int64 high" by (simp_all add: is_int64_def)
  have s: "pr_String pr = Itoa low @ CHR ''-'' # Itoa high" using size by (simp add: pr_String_def low_def high_def)
  note nl = Itoa_nonneg [OF b(1)] and nh = Itoa_nonneg [of high]
  have "hd (Itoa low) \<in> set (Itoa low)" "last (Itoa high) \<in> set (Itoa high)" using nl nh b by auto
  then have q: "qnameChar (hd (Itoa low))" "qnameChar (last (Itoa high))" using nl nh b by (auto simp: list_all_iff qnameChar_def)
  have ht: "hd (Itoa low @ CHR ''-'' # Itoa high) = hd (Itoa low)" "last (Itoa low @ CHR ''-'' # Itoa high) = last (Itoa high)"
    using nl nh b by simp_all
  have trim: "TrimSpace (pr_String pr) = Itoa low @ CHR ''-'' # Itoa high"
    unfolding s by (rule TrimSpace_id) (use q ht in simp)
  have none: "\<forall>c \<in> set (Itoa low). c \<noteq> CHR ''-''" using nl(1) is_digit_not_sign by (auto simp: list_all_iff)
  then have t: "takeWhile (\<lambda>c. c \<noteq> CHR ''-'') (Itoa low @ CHR ''-'' # Itoa high) = Itoa low" by (simp add: takeWhile_append2)
  show ?thesis
    using b i t by (simp add: ParsePortRange_def pr_Set_def trim ParseInt64_Itoa Let_def) (simp add: low_def high_def)
qed

subsection \<open>The interface of a port allocator and its transactions\<close>

text \<open>
  What the callers of \<^verbatim>\<open>portallocator.Interface\<close> rely on: \<open>used\<close> are the ports that are handed
  out. A call never panics; a failed call changes nothing.
\<close>

locale port_interface =
  fixes allocate :: "int \<Rightarrow> 'a \<Rightarrow> (port_error option \<times> 'a) option"
    and allocateNext :: "nat \<Rightarrow> 'a \<Rightarrow> int \<times> port_error option \<times> 'a"
    and release :: "int \<Rightarrow> 'a \<Rightarrow> (port_error option \<times> 'a) option"
    and good :: "'a \<Rightarrow> bool"
    and used :: "'a \<Rightarrow> int set"
  assumes allocate_law: "good pa \<Longrightarrow> \<exists>err pa'. allocate port pa = Some (err, pa') \<and> good pa'
        \<and> (err = None \<longrightarrow> port \<notin> used pa) \<and> used pa' = (if err = None then insert port (used pa) else used pa)"
    and next_law: "good pa \<Longrightarrow> allocateNext seed pa = (port, err, pa') \<Longrightarrow> good pa'
        \<and> (err = None \<longrightarrow> port \<notin> used pa) \<and> used pa' = (if err = None then insert port (used pa) else used pa)"
    and release_law: "good pa \<Longrightarrow> \<exists>pa'. release port pa = Some (None, pa') \<and> good pa' \<and> used pa' = used pa - {port}"

text \<open>
  A transaction and the other callers of the same allocator, interleaved. The last component are
  the ports that the other callers hold; they release only ports of their own.
\<close>

inductive op_reachable ::
    "'a port_call \<Rightarrow> (nat \<Rightarrow> 'a \<Rightarrow> int \<times> port_error option \<times> 'a) \<Rightarrow> 'a port_call \<Rightarrow> ('a \<Rightarrow> bool) \<Rightarrow> ('a \<Rightarrow> int set)
       \<Rightarrow> 'a \<Rightarrow> portAllocationOperation \<Rightarrow> int set \<Rightarrow> bool"
  for allocate allocateNext release good used where
  start: "good pa \<Longrightarrow> op_reachable allocate allocateNext release good used pa StartOperation (used pa)"
| mine: "op_reachable allocate allocateNext release good used pa op held \<Longrightarrow>
     op_Allocate allocate port op pa = Some (err, op', pa') \<Longrightarrow>
     op_reachable allocate allocateNext release good used pa' op' held"
| mine_next: "op_reachable allocate allocateNext release good used pa op held \<Longrightarrow>
     op_AllocateNext allocateNext seed op pa = (port, err, op', pa') \<Longrightarrow>
     op_reachable allocate allocateNext release good used pa' op' held"
| deferred: "op_reachable allocate allocateNext release good used pa op held \<Longrightarrow>
     op_reachable allocate allocateNext release good used pa (op_ReleaseDeferred port op) held"
| other: "op_reachable allocate allocateNext release good used pa op held \<Longrightarrow>
     allocate port pa = Some (err, pa') \<Longrightarrow>
     op_reachable allocate allocateNext release good used pa' op (if err = None then insert port held else held)"
| other_next: "op_reachable allocate allocateNext release good used pa op held \<Longrightarrow>
     allocateNext seed pa = (port, err, pa') \<Longrightarrow>
     op_reachable allocate allocateNext release good used pa' op (if err = None then insert port held else held)"
| other_release: "op_reachable allocate allocateNext release good used pa op held \<Longrightarrow>
     port \<in> held \<Longrightarrow> release port pa = Some (err, pa') \<Longrightarrow>
     op_reachable allocate allocateNext release good used pa' op (held - {port})"

definition op_inv :: "('a \<Rightarrow> bool) \<Rightarrow> ('a \<Rightarrow> int set) \<Rightarrow> 'a \<Rightarrow> portAllocationOperation \<Rightarrow> int set \<Rightarrow> bool" where
  "op_inv good used pa op held \<longleftrightarrow> good pa \<and> used pa = held \<union> set (op_allocated op) \<and> held \<inter> set (op_allocated op) = {}
     \<and> distinct (op_allocated op) \<and> op_shouldRollback op"

context port_interface
begin

lemma allocate_cases:
  assumes "good pa" "allocate port pa = Some (err, pa')"
  shows "good pa'" "err = None \<Longrightarrow> port \<notin> used pa" "used pa' = (if err = None then insert port (used pa) else used pa)"
  using allocate_law [OF assms(1), of port] assms(2) by auto

lemma release_cases:
  assumes "good pa" "release port pa = Some (err, pa')"
  shows "good pa'" "used pa' = used pa - {port}"
  using release_law [OF assms(1), of port] assms(2) by auto

lemma release_all_law:
  "good pa \<Longrightarrow> \<exists>pa'. release_all release ports errs pa = Some (errs, pa') \<and> good pa' \<and> used pa' = used pa - set ports"
proof (induction ports arbitrary: pa)
  case (Cons port ports)
  obtain pa1 where 1: "release port pa = Some (None, pa1)" "good pa1" "used pa1 = used pa - {port}"
    using release_law [OF Cons.prems] by blast
  then show ?case using Cons.IH [OF 1(2)] by auto
qed simp

lemma op_Allocate_inv:
  assumes "op_inv good used pa op held" "op_Allocate allocate port op pa = Some (err, op', pa')"
  shows "op_inv good used pa' op' held"
proof -
  obtain a where a: "allocate port pa = Some (err, pa')" "op' = (if err = None then op\<lparr>op_allocated := op_allocated op @ [port]\<rparr> else op)"
    using assms(2) by (auto simp: op_Allocate_def)
  then show ?thesis using assms(1) allocate_cases [OF _ a(1)] by (cases err) (auto simp: op_inv_def)
qed

lemma op_AllocateNext_inv:
  assumes "op_inv good used pa op held" "op_AllocateNext allocateNext seed op pa = (port, err, op', pa')"
  shows "op_inv good used pa' op' held"
proof -
  have a: "allocateNext seed pa = (port, err, pa')" "op' = (if err = None then op\<lparr>op_allocated := op_allocated op @ [port]\<rparr> else op)"
    using assms(2) by (auto simp: op_AllocateNext_def split: prod.splits)
  then show ?thesis using assms(1) next_law [OF _ a(1)] by (cases err) (auto simp: op_inv_def)
qed

lemma op_reachable_inv:
  "op_reachable allocate allocateNext release good used pa op held \<Longrightarrow> op_inv good used pa op held"
proof (induction rule: op_reachable.induct)
  case (start pa)
  then show ?case by (simp add: op_inv_def StartOperation_def)
next
  case mine
  then show ?case by (blast intro: op_Allocate_inv)
next
  case mine_next
  then show ?case by (blast intro: op_AllocateNext_inv)
next
  case deferred
  then show ?case by (simp add: op_inv_def op_ReleaseDeferred_def)
next
  case (other pa op held port err pa')
  then show ?case using allocate_cases [OF _ other(2)] by (cases err) (auto simp: op_inv_def)
next
  case (other_next pa op held seed port err pa')
  then show ?case using next_law [OF _ other_next(2)] by (cases err) (auto simp: op_inv_def)
next
  case (other_release pa op held port err pa')
  then show ?case using release_cases [OF _ other_release(3)] by (auto simp: op_inv_def)
qed

lemma op_Finish_law:
  assumes "op_inv good used pa op held"
  shows "\<exists>pa'. op_Finish release op pa = Some pa' \<and> good pa' \<and> used pa' = held"
  using assms release_all_law [of pa "op_allocated op" "[]"]
  by (auto simp: op_inv_def op_Finish_def op_Rollback_def)

lemma op_Commit_law:
  assumes "op_inv good used pa op held"
  shows "\<exists>pa'. op_Commit release op pa = Some ([], op\<lparr>op_shouldRollback := False\<rparr>, pa') \<and> good pa'
    \<and> used pa' = (held \<union> set (op_allocated op)) - set (op_releaseDeferred op)
    \<and> op_Finish release (op\<lparr>op_shouldRollback := False\<rparr>) pa' = Some pa'"
  using assms release_all_law [of pa "op_releaseDeferred op" "[]"]
  by (auto simp: op_inv_def op_Finish_def op_Commit_def)

end

subsection \<open>The allocator of a range keeps the contract\<close>

definition pa_ok :: "PortAllocator \<Rightarrow> bool" where
  "pa_ok r \<longleftrightarrow> bm_ok (pa_alloc r) \<and> bm_max (pa_alloc r) = pr_Size (pa_portRange r)
     \<and> bm_rangeSpec (pa_alloc r) = pr_String (pa_portRange r)"

definition pa_ports :: "PortAllocator \<Rightarrow> int set" where
  "pa_ports r = (\<lambda>offset. pr_Base (pa_portRange r) + int offset) ` offsets (pa_alloc r)"

lemma pa_ports_iff: "port \<in> pa_ports r \<longleftrightarrow> pr_Base (pa_portRange r) \<le> port \<and> nat (port - pr_Base (pa_portRange r)) \<in> offsets (pa_alloc r)"
  by (force simp: pa_ports_def)

lemma pa_ports_in_range: "pa_ok r \<Longrightarrow> port \<in> pa_ports r \<Longrightarrow> pr_Contains (pa_portRange r) port"
  by (auto simp: pa_ok_def bm_ok_def pa_ports_def pr_Contains_def)

lemma pa_Allocate_law:
  assumes "pa_ok r"
  shows "\<exists>err r'. pa_Allocate port r = Some (err, r') \<and> pa_ok r' \<and> pa_portRange r' = pa_portRange r
    \<and> err = (if \<not> pr_Contains (pa_portRange r) port then Some (ErrNotInRange (pr_String (pa_portRange r)))
             else if port \<in> pa_ports r then Some ErrAllocated else None)
    \<and> pa_ports r' = (if err = None then insert port (pa_ports r) else pa_ports r)"
proof (cases "pr_Contains (pa_portRange r) port")
  case False
  then show ?thesis using assms by (simp add: pa_Allocate_def pa_contains_def)
next
  case True
  define b where "b = pr_Base (pa_portRange r)"
  have range: "0 \<le> port - b" "port - b < bm_max (pa_alloc r)"
    using True assms by (auto simp: pr_Contains_def b_def pa_ok_def)
  obtain a where a: "bm_Allocate (port - b) (pa_alloc r) = Some (nat (port - b) \<notin> offsets (pa_alloc r), a)"
      "bm_ok a" "offsets a = insert (nat (port - b)) (offsets (pa_alloc r))"
      "bm_max a = bm_max (pa_alloc r)" "bm_rangeSpec a = bm_rangeSpec (pa_alloc r)"
    using bm_Allocate_ok [OF _ range] assms by (auto simp: pa_ok_def)
  have mem: "port \<in> pa_ports r \<longleftrightarrow> nat (port - b) \<in> offsets (pa_alloc r)"
    using range by (simp add: pa_ports_iff b_def)
  have "pa_ports (r\<lparr>pa_alloc := a\<rparr>) = insert port (pa_ports r)"
    using range by (simp add: pa_ports_def a(3) flip: b_def)
  then show ?thesis
    using True assms a range mem by (auto simp: pa_Allocate_def pa_contains_def pa_ok_def insert_absorb simp flip: b_def)
qed

lemma pa_AllocateNext_law:
  assumes "pa_ok r" "pa_AllocateNext seed r = (port, err, r')"
  shows "pa_ok r' \<and> pa_portRange r' = pa_portRange r
    \<and> (if err = None then pr_Contains (pa_portRange r) port \<and> port \<notin> pa_ports r
       else err = Some ErrFull \<and> port = 0 \<and> pa_ports r = {p. pr_Contains (pa_portRange r) p})
    \<and> pa_ports r' = (if err = None then insert port (pa_ports r) else pa_ports r)"
proof -
  have ok: "bm_ok (pa_alloc r)" using assms(1) by (simp add: pa_ok_def)
  from bm_AllocateNext_ok [OF ok, of seed] show ?thesis
  proof (elim disjE exE conjE)
    assume n: "bm_AllocateNext seed (pa_alloc r) = (0, False, pa_alloc r)" "offsets (pa_alloc r) = {..<nat (bm_max (pa_alloc r))}"
    then have "r' = r" "err = Some ErrFull" "port = 0" using assms(2) by (auto simp: pa_AllocateNext_def)
    moreover have "pa_ports r = {p. pr_Contains (pa_portRange r) p}"
    proof (rule set_eqI)
      have m: "bm_max (pa_alloc r) = pr_Size (pa_portRange r)" using assms(1) by (simp add: pa_ok_def)
      show "p \<in> pa_ports r \<longleftrightarrow> p \<in> {p. pr_Contains (pa_portRange r) p}" for p
        unfolding pa_ports_iff n(2) m pr_Contains_def by auto
    qed
    ultimately show ?thesis using assms(1) by simp
  next
    fix i a
    assume s: "bm_AllocateNext seed (pa_alloc r) = (i, True, a)" "i < nat (bm_max (pa_alloc r))" "i \<notin> offsets (pa_alloc r)"
      "bm_ok a" "offsets a = insert i (offsets (pa_alloc r))" "bm_max a = bm_max (pa_alloc r)"
      "bm_rangeSpec a = bm_rangeSpec (pa_alloc r)"
    then have "r' = r\<lparr>pa_alloc := a\<rparr>" "err = None" "port = pr_Base (pa_portRange r) + int i"
      using assms(2) by (auto simp: pa_AllocateNext_def)
    then show ?thesis using s assms(1) by (auto simp: pa_ok_def pa_ports_def pr_Contains_def)
  qed
qed

lemma pa_Release_law:
  assumes "pa_ok r"
  shows "\<exists>r'. pa_Release port r = Some (None, r') \<and> pa_ok r' \<and> pa_portRange r' = pa_portRange r \<and> pa_ports r' = pa_ports r - {port}"
proof (cases "pr_Contains (pa_portRange r) port")
  case False
  then have "port \<notin> pa_ports r" using pa_ports_in_range [OF assms] by blast
  then show ?thesis using False assms by (simp add: pa_Release_def pa_contains_def)
next
  case True
  define b where "b = pr_Base (pa_portRange r)"
  have range: "0 \<le> port - b" using True by (auto simp: pr_Contains_def b_def)
  obtain a where a: "bm_Release (port - b) (pa_alloc r) = Some a"
      "bm_ok a" "offsets a = offsets (pa_alloc r) - {nat (port - b)}"
      "bm_max a = bm_max (pa_alloc r)" "bm_rangeSpec a = bm_rangeSpec (pa_alloc r)"
    using bm_Release_ok [of "pa_alloc r", OF _ range] assms by (auto simp: pa_ok_def)
  have "pa_ports (r\<lparr>pa_alloc := a\<rparr>) = pa_ports r - {port}"
    using range by (auto simp: pa_ports_def a(3) simp flip: b_def)
  then show ?thesis
    using True assms a by (auto simp: pa_Release_def pa_contains_def pa_ok_def simp flip: b_def)
qed

interpretation pi: port_interface pa_Allocate pa_AllocateNext pa_Release pa_ok pa_ports
proof unfold_locales
  show "\<exists>err r'. pa_Allocate port r = Some (err, r') \<and> pa_ok r'
      \<and> (err = None \<longrightarrow> port \<notin> pa_ports r) \<and> pa_ports r' = (if err = None then insert port (pa_ports r) else pa_ports r)"
    if "pa_ok r" for r port
    using pa_Allocate_law [OF that, of port] by (auto split: if_splits)
  show "pa_ok r' \<and> (err = None \<longrightarrow> port \<notin> pa_ports r)
      \<and> pa_ports r' = (if err = None then insert port (pa_ports r) else pa_ports r)"
    if "pa_ok r" "pa_AllocateNext seed r = (port, err, r')" for r seed port err r'
    using pa_AllocateNext_law [OF that] by (auto split: if_splits)
  show "\<exists>r'. pa_Release port r = Some (None, r') \<and> pa_ok r' \<and> pa_ports r' = pa_ports r - {port}" if "pa_ok r" for r port
    using pa_Release_law [OF that, of port] by blast
qed

lemma pa_new_ok: "0 \<le> pr_Size pr \<Longrightarrow> pa_ok (NewPortAllocator pr) \<and> pa_ports (NewPortAllocator pr) = {} \<and> pa_portRange (NewPortAllocator pr) = pr"
  by (simp add: pa_ok_def pa_ports_def NewPortAllocator_def NewPortAllocatorCustom_def bm_new_ok)
    (simp add: NewAllocationMap_def)

lemma pa_Has_iff: "pa_ok r \<Longrightarrow> pa_Has r port = Some (port \<in> pa_ports r)"
  using pa_ports_in_range [of r port]
  by (auto simp: pa_Has_def pa_contains_def bm_Has_def pa_ports_iff offsets_def bits_def pr_Contains_def)

lemma pa_ForEach_eq: "pa_ForEach r = sorted_list_of_set (pa_ports r)"
proof -
  let ?f = "\<lambda>offset. pr_Base (pa_portRange r) + int offset"
  have "sorted (map ?f (sorted_list_of_set A))" for A
    by (rule sorted_map_mono [OF sorted_list_of_set(2)]) (simp add: mono_on_def)
  then have "sorted (pa_ForEach r)" by (simp add: pa_ForEach_def bm_ForEach_eq)
  moreover have "distinct (pa_ForEach r)" by (simp add: pa_ForEach_def bm_ForEach_eq distinct_map inj_on_def)
  moreover have "set (pa_ForEach r) = pa_ports r" by (simp add: pa_ForEach_def bm_ForEach_eq pa_ports_def offsets_def)
  ultimately show ?thesis by (metis sorted_list_of_set.idem_if_sorted_distinct)
qed

lemma card_pa_ports: "card (pa_ports r) = card (offsets (pa_alloc r))"
  by (simp add: pa_ports_def card_image inj_on_def)

lemma pa_counts: "pa_ok r \<Longrightarrow> pa_Used r = int (card (pa_ports r)) \<and> pa_Free r = pr_Size (pa_portRange r) - pa_Used r"
  by (simp add: pa_Used_def pa_Free_def bm_Free_def card_pa_ports pa_ok_def bm_ok_def)

lemma pa_Restore_Snapshot:
  assumes "pa_ok r" "pa_ok r'" "pa_portRange r' = pa_portRange r"
  shows "\<exists>r2. pa_Restore (pa_portRange r) (ra_Data (pa_Snapshot r dst)) r' = (None, r2) \<and> pa_ok r2
    \<and> pa_portRange r2 = pa_portRange r \<and> pa_ports r2 = pa_ports r"
proof -
  obtain rs data where sn: "bm_Snapshot (pa_alloc r) = (rs, data)" by fastforce
  have rs: "rs = pr_String (pa_portRange r)" using sn assms(1) by (simp add: bm_Snapshot_def pa_ok_def)
  have eq: "bm_rangeSpec (pa_alloc r') = bm_rangeSpec (pa_alloc r)" using assms by (simp add: pa_ok_def)
  show ?thesis
    using bm_Restore_Snapshot [OF eq sn] assms
    by (auto simp: pa_Restore_def pa_Snapshot_def sn rs pa_ok_def pa_ports_def offsets_def bm_ok_def)
qed

lemma ParsePortRange_String_empty: "pr_Size pr = 0 \<Longrightarrow> ParsePortRange (pr_String pr) = Inr \<lparr>pr_Base = 0, pr_Size = 0\<rparr>"
  by (simp add: ParsePortRange_def pr_Set_def pr_String_def TrimSpace_def)

lemma pa_NewFromSnapshot_Snapshot:
  assumes ok: "pa_ok r" and range: "range_ok (pa_portRange r)"
  shows "\<exists>r'. pa_NewFromSnapshot (pa_Snapshot r dst) = Inr r' \<and> pa_ok r' \<and> pa_ports r' = pa_ports r"
proof -
  have rs: "ra_Range (pa_Snapshot r dst) = pr_String (pa_portRange r)"
    using ok by (simp add: pa_Snapshot_def bm_Snapshot_def pa_ok_def)
  show ?thesis
  proof (cases "pr_Size (pa_portRange r) = 0")
    case False
    then have pos: "0 < pr_Size (pa_portRange r)" using range by (simp add: range_ok_def)
    then have new: "pa_ok (NewPortAllocator (pa_portRange r))" "pa_portRange (NewPortAllocator (pa_portRange r)) = pa_portRange r"
      using pa_new_ok [of "pa_portRange r"] by auto
    obtain r2 where "pa_Restore (pa_portRange r) (ra_Data (pa_Snapshot r dst)) (NewPortAllocator (pa_portRange r)) = (None, r2)"
        "pa_ok r2" "pa_ports r2 = pa_ports r"
      using pa_Restore_Snapshot [OF ok new] by blast
    then show ?thesis by (simp add: pa_NewFromSnapshot_def rs ParsePortRange_String [OF range pos])
  next
    case True
    let ?e = "\<lparr>pr_Base = 0, pr_Size = 0\<rparr>"
    have none: "offsets (pa_alloc r) = {}" using ok True by (auto simp: pa_ok_def bm_ok_def)
    obtain r2 where r2: "pa_Restore ?e (ra_Data (pa_Snapshot r dst)) (NewPortAllocator ?e) = (None, r2)"
        "r2 = (NewPortAllocator ?e)\<lparr>pa_alloc := (pa_alloc (NewPortAllocator ?e))\<lparr>bm_allocated := bm_allocated (pa_alloc r), bm_count := int (countBits (bm_allocated (pa_alloc r)))\<rparr>\<rparr>"
      by (simp add: pa_Restore_def NewPortAllocator_def NewPortAllocatorCustom_def NewAllocationMap_def bm_Restore_def
          pa_Snapshot_def bm_Snapshot_def)
    have "pa_ok r2 \<and> pa_ports r2 = pa_ports r"
      using none by (simp add: r2(2) pa_ok_def bm_ok_def pa_ports_def NewPortAllocator_def NewPortAllocatorCustom_def
          NewAllocationMap_def offsets_def countBits_correct)
    then show ?thesis using r2(1) by (simp add: pa_NewFromSnapshot_def rs ParsePortRange_String_empty [OF True])
  qed
qed

subsection \<open>Properties\<close>

text \<open>The allocators of a range that was parsed, after any calls.\<close>

inductive pa_reachable :: "PortAllocator \<Rightarrow> bool" where
  new: "ParsePortRange s = Inr pr \<Longrightarrow> pa_reachable (NewPortAllocator pr)"
| allocate: "pa_reachable r \<Longrightarrow> pa_Allocate port r = Some (err, r') \<Longrightarrow> pa_reachable r'"
| allocateNext: "pa_reachable r \<Longrightarrow> pa_AllocateNext seed r = (port, err, r') \<Longrightarrow> pa_reachable r'"
| release: "pa_reachable r \<Longrightarrow> pa_Release port r = Some (err, r') \<Longrightarrow> pa_reachable r'"
| restore: "pa_reachable r \<Longrightarrow> pa_reachable r1 \<Longrightarrow> pa_portRange r = pa_portRange r1 \<Longrightarrow>
     pa_Restore (pa_portRange r1) (ra_Data (pa_Snapshot r1 dst)) r = (err, r') \<Longrightarrow> pa_reachable r'"

lemma ParsePortRange_ok: "ParsePortRange s = Inr pr \<Longrightarrow> range_ok pr"
  by (auto simp: ParsePortRange_def intro: pr_Set_ok split: prod.splits option.splits)

lemma pa_reachable_ok: "pa_reachable r \<Longrightarrow> pa_ok r \<and> range_ok (pa_portRange r)"
proof (induction rule: pa_reachable.induct)
  case (new s pr)
  then show ?case using ParsePortRange_ok [OF new] pa_new_ok [of pr] by (simp add: range_ok_def)
next
  case (allocate r port err r')
  then show ?case using pa_Allocate_law [of r port] by auto
next
  case (allocateNext r seed port err r')
  then show ?case using pa_AllocateNext_law [of r seed port err r'] by auto
next
  case (release r port err r')
  then show ?case using pa_Release_law [of r port] by auto
next
  case (restore r r1 dst err r')
  then show ?case using pa_Restore_Snapshot [of r1 r dst] by auto
qed

text \<open>
  C37. Whatever the text of a port range, when it parses it is a range of ports between 0 and
  65535, and in every state its allocator reaches the allocated ports belong to that range, the
  count and the bits of the bitmap agree, and neither Allocate nor Release nor Has panics on any
  number, in the range or not.
\<close>

theorem port_allocator_typed:
  assumes "pa_reachable r"
  shows "pa_ok r \<and> pa_ports r \<subseteq> {0..65535}
    \<and> pa_Allocate port r \<noteq> None \<and> pa_Release port r \<noteq> None \<and> pa_Has r port = Some (port \<in> pa_ports r)
    \<and> pa_Used r = int (card (pa_ports r)) \<and> pa_Used r + pa_Free r = pr_Size (pa_portRange r)"
proof -
  have ok: "pa_ok r" and range: "range_ok (pa_portRange r)" using pa_reachable_ok [OF assms] by auto
  have "pa_ports r \<subseteq> {0..65535}"
  proof
    fix p assume "p \<in> pa_ports r"
    then show "p \<in> {0..65535}" using pa_ports_in_range [OF ok, of p] range by (simp add: pr_Contains_def range_ok_def)
  qed
  then show ?thesis
    using ok pa_Allocate_law [OF ok, of port] pa_Release_law [OF ok, of port] pa_Has_iff [OF ok] pa_counts [OF ok] by auto
qed

definition example_ports :: PortAllocator where
  "example_ports = NewPortAllocator \<lparr>pr_Base = 30000, pr_Size = 3\<rparr>"

lemma example_ports_ok: "pa_ok example_ports \<and> pa_ports example_ports = {} \<and> pa_portRange example_ports = \<lparr>pr_Base = 30000, pr_Size = 3\<rparr>"
  unfolding example_ports_def by (rule pa_new_ok) simp

lemma example_range_ok: "range_ok \<lparr>pr_Base = 30000, pr_Size = 3\<rparr>"
  by (simp add: range_ok_def)

theorem port_allocator_typed_witness:
  "pa_reachable example_ports \<and> pa_Has example_ports 7 = Some (7 \<in> pa_ports example_ports)"
proof -
  have "pa_reachable example_ports"
    unfolding example_ports_def using ParsePortRange_String [OF example_range_ok] by (auto intro: pa_reachable.new)
  then show ?thesis using port_allocator_typed [of example_ports 7] by blast
qed

text \<open>
  C9. A transaction over a port allocator that other callers use at the same time, who release
  only ports of their own: when it finishes without a commit, exactly the ports that the others
  hold are allocated afterwards; a commit releases exactly the deferred ports and keeps those the
  transaction allocated, and the Finish after it changes nothing. No call panics, no error is
  reported.
\<close>

theorem transaction_all_or_nothing:
  assumes "op_reachable pa_Allocate pa_AllocateNext pa_Release pa_ok pa_ports pa op held"
  shows "(\<exists>pa'. op_Finish pa_Release op pa = Some pa' \<and> pa_ok pa' \<and> pa_ports pa' = held)
    \<and> (\<exists>op' pa'. op_Commit pa_Release op pa = Some ([], op', pa') \<and> pa_ok pa'
        \<and> pa_ports pa' = (held \<union> set (op_allocated op)) - set (op_releaseDeferred op)
        \<and> op_Finish pa_Release op' pa' = Some pa')"
  using pi.op_Finish_law [OF pi.op_reachable_inv [OF assms]] pi.op_Commit_law [OF pi.op_reachable_inv [OF assms]] by blast

theorem transaction_all_or_nothing_witness:
  "op_reachable pa_Allocate pa_AllocateNext pa_Release pa_ok pa_ports example_ports (op_ReleaseDeferred 30001 StartOperation) {}
    \<and> (\<exists>pa'. op_Finish pa_Release (op_ReleaseDeferred 30001 StartOperation) example_ports = Some pa' \<and> pa_ports pa' = {})"
proof -
  have "op_reachable pa_Allocate pa_AllocateNext pa_Release pa_ok pa_ports example_ports StartOperation (pa_ports example_ports)"
    by (rule op_reachable.start) (simp add: example_ports_ok)
  then have r: "op_reachable pa_Allocate pa_AllocateNext pa_Release pa_ok pa_ports example_ports (op_ReleaseDeferred 30001 StartOperation) {}"
    using op_reachable.deferred example_ports_ok by fastforce
  then show ?thesis using transaction_all_or_nothing [OF r] by blast
qed

text \<open>
  A snapshot holds everything: the allocator built from the snapshot of an allocator of any
  range of ports has the same allocated ports. It rests on the round trip of the range itself:
  the text of a range parses to the range.
\<close>

theorem port_snapshot_roundtrip:
  assumes "pa_ok r" "range_ok (pa_portRange r)"
  shows "\<exists>r'. pa_NewFromSnapshot (pa_Snapshot r dst) = Inr r' \<and> pa_ok r' \<and> pa_ports r' = pa_ports r
    \<and> pa_ForEach r' = pa_ForEach r
    \<and> (pr_Size (pa_portRange r) \<noteq> 0 \<longrightarrow> ParsePortRange (ra_Range (pa_Snapshot r dst)) = Inr (pa_portRange r))"
proof -
  have "ra_Range (pa_Snapshot r dst) = pr_String (pa_portRange r)"
    using assms by (simp add: pa_Snapshot_def bm_Snapshot_def pa_ok_def)
  moreover have "0 < pr_Size (pa_portRange r)" if "pr_Size (pa_portRange r) \<noteq> 0" using assms(2) that by (simp add: range_ok_def)
  ultimately show ?thesis
    using pa_NewFromSnapshot_Snapshot [OF assms, of dst] ParsePortRange_String [OF assms(2)] by (auto simp: pa_ForEach_eq)
qed

theorem port_snapshot_roundtrip_witness:
  "pa_ok example_ports \<and> range_ok (pa_portRange example_ports)
    \<and> (\<exists>r'. pa_NewFromSnapshot (pa_Snapshot example_ports \<lparr>ra_Range = '''', ra_Data = []\<rparr>) = Inr r' \<and> pa_ports r' = {})"
proof -
  have ok: "pa_ok example_ports" "range_ok (pa_portRange example_ports)" "pa_ports example_ports = {}"
    using example_ports_ok example_range_ok by auto
  then show ?thesis using port_snapshot_roundtrip [OF ok(1,2)] by blast
qed

end
