(* ===== verification/IPs.thy ===== *)
theory IPs
  imports PortAllocator
begin

section \<open>IP addresses and networks\<close>

text \<open>
  What the IP allocator and the service storage use of the package \<^verbatim>\<open>net\<close> of the standard
  library: an \<^verbatim>\<open>IP\<close> and an \<^verbatim>\<open>IPMask\<close> are lists of bytes of which the empty one is nil, an
  \<^verbatim>\<open>IPNet\<close> is a pair of them; and the lemmas that relate the IPv4 networks to numbers.
\<close>

subsection \<open>Addresses\<close>

type_synonym ip = "byte list"

definition v4InV6Prefix :: ip where
  "v4InV6Prefix = replicate 10 0 @ [0xff, 0xff]"

definition To4 :: "ip \<Rightarrow> ip" where
  "To4 addr =
     (if length addr = 4 then addr
      else if length addr = 16 \<and> take 12 addr = v4InV6Prefix then drop 12 addr
      else [])"

definition To16 :: "ip \<Rightarrow> ip" where
  "To16 addr =
     (if length addr = 4 then v4InV6Prefix @ addr
      else if length addr = 16 then addr
      else [])"

definition ip_Equal :: "ip \<Rightarrow> ip \<Rightarrow> bool" where
  "ip_Equal x y \<longleftrightarrow>
     (if length x = length y then x = y
      else if length x = 4 \<and> length y = 16 then take 12 y = v4InV6Prefix \<and> x = drop 12 y
      else if length x = 16 \<and> length y = 4 then take 12 x = v4InV6Prefix \<and> drop 12 x = y
      else False)"

definition uitoa :: "byte \<Rightarrow> string" where
  "uitoa b = digits (unat b)"

text \<open>The hexadecimal digits of a number, without leading zeros.\<close>

definition hex_digit :: "nat \<Rightarrow> char" where
  "hex_digit n = ''0123456789abcdef'' ! n"

fun hex :: "nat \<Rightarrow> string" where
  "hex n = (if n < 16 then [hex_digit n] else hex (n div 16) @ [hex_digit (n mod 16)])"

declare hex.simps [simp del]

definition hexString :: "byte list \<Rightarrow> string" where
  "hexString bs = concat (map (\<lambda>b. [hex_digit (unat b div 16), hex_digit (unat b mod 16)]) bs)"

text \<open>The 16 bit groups of an IPv6 address, and the first longest run of two or more zero groups.\<close>

fun groups :: "ip \<Rightarrow> nat list" where
  "groups (a # b # rest) = (unat a * 256 + unat b) # groups rest"
| "groups _ = []"

fun zero_run :: "nat list \<Rightarrow> nat" where
  "zero_run (0 # gs) = Suc (zero_run gs)"
| "zero_run _ = 0"

fun longest_run :: "nat \<Rightarrow> nat list \<Rightarrow> nat \<times> nat" where
  "longest_run i [] = (0, 0)"
| "longest_run i (g # gs) =
     (let n = zero_run (g # gs); (start, m) = longest_run (i + 1) gs
      in if n \<ge> m \<and> n > 0 then (i, n) else (start, m))"

definition join_groups :: "nat list \<Rightarrow> string" where
  "join_groups gs = concat (case map hex gs of [] \<Rightarrow> [] | h # hs \<Rightarrow> h # map ((#) (CHR '':'')) hs)"

definition ip_String :: "ip \<Rightarrow> string" where
  "ip_String addr =
     (if addr = [] then ''<nil>''
      else case To4 addr of
             [a, b, c, d] \<Rightarrow> uitoa a @ ''.'' @ uitoa b @ ''.'' @ uitoa c @ ''.'' @ uitoa d
           | _ \<Rightarrow>
               if length addr \<noteq> 16 then ''?''
               else let gs = groups addr; (start, n) = longest_run 0 gs
                    in if n \<le> 1 then join_groups gs
                       else join_groups (take start gs) @ ''::'' @ join_groups (drop (start + n) gs))"

subsection \<open>Parsing\<close>

text \<open>\<^verbatim>\<open>dtoi\<close> and \<^verbatim>\<open>xtoi\<close>: the number at the front and the rest; None when there is none or it is too big.\<close>

definition dtoi :: "string \<Rightarrow> (nat \<times> string) option" where
  "dtoi s =
     (let ds = takeWhile is_digit s; n = nat (decimal ds)
      in if ds = [] \<or> n \<ge> 0xFFFFFF then None else Some (n, drop (length ds) s))"

definition hex_value :: "char \<Rightarrow> nat option" where
  "hex_value c =
     (if is_digit c then Some (of_char c - 48)
      else if between (CHR ''a'') (CHR ''f'') c then Some (of_char c - 97 + 10)
      else if between (CHR ''A'') (CHR ''F'') c then Some (of_char c - 65 + 10)
      else None)"

definition xtoi :: "string \<Rightarrow> (nat \<times> string) option" where
  "xtoi s =
     (let ds = takeWhile (\<lambda>c. hex_value c \<noteq> None) s; n = foldl (\<lambda>n c. 16 * n + the (hex_value c)) 0 ds
      in if ds = [] \<or> n \<ge> 0xFFFFFF then None else Some (n, drop (length ds) s))"

fun parse_octets :: "nat \<Rightarrow> string \<Rightarrow> ip option" where
  "parse_octets 0 s = (if s = [] then Some [] else None)"
| "parse_octets (Suc n) s =
     (case s of
        [] \<Rightarrow> None
      | c # t \<Rightarrow>
          if c \<noteq> CHR ''.'' then None
          else case dtoi t of
                 None \<Rightarrow> None
               | Some (v, rest) \<Rightarrow> if v > 0xFF then None else map_option ((#) (word_of_nat v)) (parse_octets n rest))"

definition parseIPv4 :: "string \<Rightarrow> ip" where
  "parseIPv4 s =
     (if s = [] then []
      else case dtoi s of
             None \<Rightarrow> []
           | Some (v, rest) \<Rightarrow>
               if v > 0xFF then []
               else case parse_octets 3 rest of
                      None \<Rightarrow> []
                    | Some bs \<Rightarrow> v4InV6Prefix @ word_of_nat v # bs)"

text \<open>
  The loop of \<^verbatim>\<open>parseIPv6\<close>: the bytes so far, the position of the ellipsis and what is left of the
  text. The bytes grow by two with every round, so eight rounds are enough.
\<close>

fun ipv6_loop :: "nat \<Rightarrow> ip \<Rightarrow> nat option \<Rightarrow> string \<Rightarrow> (ip \<times> nat option \<times> string) option" where
  "ipv6_loop 0 bs ellipsis s = Some (bs, ellipsis, s)"
| "ipv6_loop (Suc fuel) bs ellipsis s =
     (if length bs \<ge> 16 then Some (bs, ellipsis, s)
      else case xtoi s of
             None \<Rightarrow> None
           | Some (n, s1) \<Rightarrow>
               if n > 0xFFFF then None
               else if s1 \<noteq> [] \<and> hd s1 = CHR ''.'' then
                 (if ellipsis = None \<and> length bs \<noteq> 12 then None
                  else if length bs + 4 > 16 then None
                  else if parseIPv4 s = [] then None
                  else Some (bs @ drop 12 (parseIPv4 s), ellipsis, []))
               else
                 let bs' = bs @ [word_of_nat (n div 256), word_of_nat n]
                 in case s1 of
                      [] \<Rightarrow> Some (bs', ellipsis, [])
                    | [_] \<Rightarrow> None
                    | c # d # t \<Rightarrow>
                        if c \<noteq> CHR '':'' then None
                        else if d = CHR '':'' then
                          (if ellipsis \<noteq> None then None
                           else if t = [] then Some (bs', Some (length bs'), [])
                           else ipv6_loop fuel bs' (Some (length bs')) t)
                        else ipv6_loop fuel bs' ellipsis (d # t))"

definition parseIPv6 :: "string \<Rightarrow> ip" where
  "parseIPv6 s =
     (if s = ''::'' then replicate 16 0
      else case (if take 2 s = ''::'' then ipv6_loop 8 [] (Some 0) (drop 2 s) else ipv6_loop 8 [] None s) of
             None \<Rightarrow> []
           | Some (bs, ellipsis, rest) \<Rightarrow>
               if rest \<noteq> [] then []
               else if length bs < 16 then
                 (case ellipsis of
                    None \<Rightarrow> []
                  | Some e \<Rightarrow> take e bs @ replicate (16 - length bs) 0 @ drop e bs)
               else if ellipsis \<noteq> None then [] else bs)"

definition ParseIP :: "string \<Rightarrow> ip" where
  "ParseIP s =
     (case dropWhile (\<lambda>c. c \<noteq> CHR ''.'' \<and> c \<noteq> CHR '':'') s of
        [] \<Rightarrow> []
      | c # _ \<Rightarrow> if c = CHR ''.'' then parseIPv4 s else parseIPv6 s)"

subsection \<open>Networks\<close>

record IPNet =
  net_IP :: ip
  net_Mask :: "byte list"

text \<open>\<^verbatim>\<open>IPMask.Size\<close>: the leading ones of a mask of the form 1\<dots>10\<dots>0, or None.\<close>

fun leading_ones :: "nat \<Rightarrow> byte \<Rightarrow> nat \<times> byte" where
  "leading_ones 0 v = (0, v)"
| "leading_ones (Suc k) v =
     (if bit v 7 then case leading_ones k (push_bit 1 v) of (n, w) \<Rightarrow> (Suc n, w) else (0, v))"

fun simpleMaskLength :: "byte list \<Rightarrow> nat option" where
  "simpleMaskLength [] = Some 0"
| "simpleMaskLength (v # ms) =
     (if v = 0xff then map_option ((+) 8) (simpleMaskLength ms)
      else case leading_ones 8 v of
             (n, w) \<Rightarrow> if w \<noteq> 0 \<or> \<not> list_all (\<lambda>b. b = 0) ms then None else Some n)"

definition mask_Size :: "byte list \<Rightarrow> nat \<times> nat" where
  "mask_Size m = (case simpleMaskLength m of None \<Rightarrow> (0, 0) | Some ones \<Rightarrow> (ones, 8 * length m))"

definition networkNumberAndMask :: "IPNet \<Rightarrow> ip \<times> byte list" where
  "networkNumberAndMask n =
     (let addr = (if To4 (net_IP n) = [] then net_IP n else To4 (net_IP n)); m = net_Mask n
      in if To4 (net_IP n) = [] \<and> length addr \<noteq> 16 then ([], [])
         else if length m = 4 then (if length addr \<noteq> 4 then ([], []) else (addr, m))
         else if length m = 16 then (addr, if length addr = 4 then drop 12 m else m)
         else ([], []))"

definition net_Contains :: "IPNet \<Rightarrow> ip \<Rightarrow> bool" where
  "net_Contains n addr0 =
     (let (nn, m) = networkNumberAndMask n;
          addr = (if To4 addr0 \<noteq> [] then To4 addr0 else addr0)
      in length addr = length nn
         \<and> list_all (\<lambda>(b, a, v). and b v = and a v) (zip nn (zip addr m)))"

definition net_String :: "IPNet \<Rightarrow> string" where
  "net_String n =
     (case networkNumberAndMask n of
        (nn, m) \<Rightarrow>
          if nn = [] \<or> m = [] then ''<nil>''
          else case simpleMaskLength m of
                 None \<Rightarrow> ip_String nn @ ''/'' @ hexString m
               | Some l \<Rightarrow> ip_String nn @ ''/'' @ digits l)"

definition mask_String :: "byte list \<Rightarrow> string" where
  "mask_String m = (if m = [] then ''<nil>'' else hexString m)"

definition CIDRMask :: "nat \<Rightarrow> nat \<Rightarrow> byte list" where
  "CIDRMask ones len =
     map (\<lambda>i. if 8 * (i + 1) \<le> ones then 0xff
              else if ones \<le> 8 * i then 0
              else not (drop_bit (ones - 8 * i) 0xff)) [0..<len]"

definition ip_Mask :: "ip \<Rightarrow> byte list \<Rightarrow> ip" where
  "ip_Mask addr0 mask0 =
     (let m = (if length mask0 = 16 \<and> length addr0 = 4 \<and> list_all (\<lambda>b. b = 0xff) (take 12 mask0) then drop 12 mask0 else mask0);
          addr = (if length m = 4 \<and> length addr0 = 16 \<and> take 12 addr0 = v4InV6Prefix then drop 12 addr0 else addr0)
      in if length addr \<noteq> length m then [] else map2 and addr m)"

definition ParseCIDR :: "string \<Rightarrow> IPNet option" where
  "ParseCIDR s =
     (let addr = takeWhile (\<lambda>c. c \<noteq> CHR ''/'') s
      in if length addr = length s then None
         else let v4 = parseIPv4 addr;
                  iplen = (if v4 = [] then 16 else 4);
                  addr' = (if v4 = [] then parseIPv6 addr else v4)
              in case dtoi (drop (length addr + 1) s) of
                   None \<Rightarrow> None
                 | Some (n, rest) \<Rightarrow>
                     if addr' = [] \<or> rest \<noteq> [] \<or> n > 8 * iplen then None
                     else let m = CIDRMask n iplen in Some \<lparr>net_IP = ip_Mask addr' m, net_Mask = m\<rparr>)"

subsection \<open>Text of IPv4 addresses and networks\<close>

lemma takeWhile_digits:
  "rest = [] \<or> \<not> is_digit (hd rest) \<Longrightarrow> takeWhile is_digit (digits n @ rest) = digits n"
  using digits_decimal [of n] by (cases rest) (auto simp: list_all_iff takeWhile_append2)

lemma dtoi_digits:
  "rest = [] \<or> \<not> is_digit (hd rest) \<Longrightarrow> n < 0xFFFFFF \<Longrightarrow> dtoi (digits n @ rest) = Some (n, rest)"
  using digits_decimal [of n] by (simp add: dtoi_def takeWhile_digits)

lemma dtoi_digits_end: "n < 0xFFFFFF \<Longrightarrow> dtoi (digits n) = Some (n, [])"
  using dtoi_digits [of "[]" n] by simp

lemma unat_octet: "unat (b :: byte) \<le> 255"
proof -
  have "unat b < 2 ^ LENGTH(8)" by (rule unsigned_less)
  then show ?thesis by simp
qed

lemma dtoi_octet:
  "rest = [] \<or> \<not> is_digit (hd rest) \<Longrightarrow> dtoi (uitoa b @ rest) = Some (unat b, rest)"
  using unat_octet [of b] by (simp add: uitoa_def dtoi_digits)

lemma dot_not_digit: "\<not> is_digit (CHR ''.'')" "\<not> is_digit (CHR ''/'')" "\<not> is_digit (CHR '':'')"
  by (simp_all add: is_digit_iff)

lemma parseIPv4_String: "parseIPv4 (ip_String [a, b, c, d]) = v4InV6Prefix @ [a, b, c, d]"
proof -
  have ne: "uitoa x \<noteq> []" for x using digits_decimal by (simp add: uitoa_def)
  have o: "dtoi (uitoa x @ CHR ''.'' # s) = Some (unat x, CHR ''.'' # s)" for x s
    by (rule dtoi_octet) (simp add: dot_not_digit)
  have e: "dtoi (uitoa x) = Some (unat x, [])" for x using dtoi_octet [of "[]" x] by simp
  have "parse_octets (Suc n) (CHR ''.'' # uitoa x @ CHR ''.'' # s)
      = map_option ((#) x) (parse_octets n (CHR ''.'' # s))" for n x s
    using unat_octet [of x] by (simp add: o)
  moreover have "parse_octets (Suc 0) (CHR ''.'' # uitoa x) = Some [x]" for x
    using unat_octet [of x] by (simp add: e)
  ultimately have "parse_octets 3 (CHR ''.'' # uitoa b @ CHR ''.'' # uitoa c @ CHR ''.'' # uitoa d) = Some [b, c, d]"
    by (simp add: numeral_3_eq_3)
  then show ?thesis using unat_octet [of a] ne by (simp add: ip_String_def To4_def parseIPv4_def o)
qed

lemma uitoa_plain: "x \<in> set (uitoa b) \<Longrightarrow> is_digit x"
  using digits_decimal [of "unat b"] by (auto simp: uitoa_def list_all_iff)

lemma ParseIP_String: "ParseIP (ip_String [a, b, c, d]) = v4InV6Prefix @ [a, b, c, d]"
proof -
  have "\<forall>x \<in> set (uitoa a). x \<noteq> CHR ''.'' \<and> x \<noteq> CHR '':''" using uitoa_plain dot_not_digit by blast
  then have "dropWhile (\<lambda>x. x \<noteq> CHR ''.'' \<and> x \<noteq> CHR '':'') (ip_String [a, b, c, d])
      = CHR ''.'' # uitoa b @ CHR ''.'' # uitoa c @ CHR ''.'' # uitoa d"
    by (simp add: ip_String_def To4_def dropWhile_append2)
  then show ?thesis by (simp add: ParseIP_def parseIPv4_String)
qed

lemma mask_lengths: "n \<le> 32 \<Longrightarrow> simpleMaskLength (CIDRMask n 4) = Some n"
proof -
  have "list_all (\<lambda>n. simpleMaskLength (CIDRMask n 4) = Some n) [0..<33]" by code_simp
  then show "n \<le> 32 \<Longrightarrow> ?thesis" by (simp add: list_all_iff)
qed

lemma length_CIDRMask [simp]: "length (CIDRMask n len) = len"
  by (simp add: CIDRMask_def)

text \<open>The networks of the IPv4 addresses.\<close>

definition net4 :: "IPNet \<Rightarrow> nat \<Rightarrow> bool" where
  "net4 n ones \<longleftrightarrow> length (net_IP n) = 4 \<and> ones \<le> 32 \<and> net_Mask n = CIDRMask ones 4 \<and> map2 and (net_IP n) (net_Mask n) = net_IP n"

lemma net4_number: "net4 n ones \<Longrightarrow> networkNumberAndMask n = (net_IP n, net_Mask n)"
  by (cases "net_IP n") (auto simp: net4_def networkNumberAndMask_def To4_def)

lemma ParseCIDR_String:
  assumes "net4 n ones"
  shows "ParseCIDR (net_String n) = Some n"
proof -
  obtain a b c d where ip: "net_IP n = [a, b, c, d]"
    using assms by (auto simp: net4_def length_Suc_conv numeral_eq_Suc)
  have m: "net_Mask n = CIDRMask ones 4" "ones \<le> 32" "map2 and (net_IP n) (net_Mask n) = net_IP n"
    using assms by (auto simp: net4_def)
  have m0: "net_Mask n \<noteq> []" using m(1) length_CIDRMask [of ones 4] by (metis list.size(3) zero_neq_numeral)
  have s: "net_String n = ip_String [a, b, c, d] @ CHR ''/'' # digits ones"
    using m(2) m0 by (simp add: net_String_def net4_number [OF assms] ip m(1) mask_lengths)
  have "\<forall>x \<in> set (ip_String [a, b, c, d]). x \<noteq> CHR ''/''"
    using uitoa_plain dot_not_digit by (auto simp: ip_String_def To4_def)
  then have t: "takeWhile (\<lambda>c. c \<noteq> CHR ''/'') (net_String n) = ip_String [a, b, c, d]"
    by (simp add: s takeWhile_append2)
  have "ip_Mask (v4InV6Prefix @ [a, b, c, d]) (CIDRMask ones 4) = map2 and [a, b, c, d] (CIDRMask ones 4)"
    by (simp add: ip_Mask_def v4InV6Prefix_def)
  also have "\<dots> = [a, b, c, d]" using m(3) by (simp add: ip m(1))
  finally have masked: "ip_Mask (v4InV6Prefix @ [a, b, c, d]) (CIDRMask ones 4) = [a, b, c, d]" .
  have "dtoi (digits ones) = Some (ones, [])" using m(2) by (simp add: dtoi_digits_end)
  then have "ParseCIDR (net_String n) = Some \<lparr>net_IP = [a, b, c, d], net_Mask = CIDRMask ones 4\<rparr>"
    using m(2) by (simp add: ParseCIDR_def t) (simp add: s Let_def parseIPv4_String masked)
  moreover have "n = \<lparr>net_IP = [a, b, c, d], net_Mask = CIDRMask ones 4\<rparr>" using ip m(1) by (cases n) simp
  ultimately show ?thesis by simp
qed

subsection \<open>IPv4 addresses as numbers\<close>

lemma big_SetBytes_snoc: "big_SetBytes (bs @ [b]) = big_SetBytes bs * 256 + unat b"
  by (simp add: big_SetBytes_def)

lemma big_SetBytes_bit:
  "k < 8 * length bs \<Longrightarrow> bit (big_SetBytes bs) k \<longleftrightarrow> bit (bs ! (length bs - 1 - k div 8)) (k mod 8)"
proof (induction bs arbitrary: k rule: rev_induct)
  case (snoc b bs)
  have b: "unat b < 2 ^ 8" using unat_octet [of b] by simp
  have parts: "(big_SetBytes bs * 256 + unat b) mod 2 ^ 8 = unat b" "(big_SetBytes bs * 256 + unat b) div 2 ^ 8 = big_SetBytes bs"
    using b by simp_all
  show ?case
  proof (cases "k < 8")
    case True
    then show ?thesis
      using bit_split [of "big_SetBytes (bs @ [b])" k 8] by (simp only: big_SetBytes_snoc parts) (simp add: bit_unsigned_iff nth_append)
  next
    case False
    then have k: "k - 8 < 8 * length bs" "(k - 8) div 8 = k div 8 - 1" "(k - 8) mod 8 = k mod 8" "0 < k div 8" "0 < length bs"
      using snoc.prems by (auto simp: mod_if [of k 8] div_if [of k 8])
    have "bit (big_SetBytes (bs @ [b])) k = bit (big_SetBytes bs) (k - 8)"
      using False bit_split [of "big_SetBytes (bs @ [b])" k 8] by (simp only: big_SetBytes_snoc parts if_False)
    also have "\<dots> = bit (bs ! (length bs - 1 - (k div 8 - 1))) (k mod 8)" using snoc.IH [OF k(1)] by (simp only: k(2,3))
    also have "length bs - 1 - (k div 8 - 1) = length bs - k div 8" using k(4) by linarith
    finally show ?thesis using diff_less [OF k(4,5)] by (simp add: nth_append)
  qed
qed simp

lemma big_SetBytes_bound: "big_SetBytes bs < 256 ^ length bs"
proof (induction bs rule: rev_induct)
  case (snoc b bs)
  then have "(big_SetBytes bs + 1) * 256 \<le> 256 ^ length bs * 256" by (intro mult_right_mono) auto
  then show ?case using unat_octet [of b] by (simp add: big_SetBytes_snoc)
qed (simp add: big_SetBytes_def)

lemma CIDRMask_bit:
  assumes "i < len" "j < 8"
  shows "bit (CIDRMask ones len ! i) j \<longleftrightarrow> 8 * i + (7 - j) < ones"
proof -
  have ff: "bit (0xff :: byte) k \<longleftrightarrow> k < 8" for k
  proof -
    have "(0xff :: byte) = -1" by simp
    then show ?thesis by (simp only: bit_minus_1_iff possible_bit_word) simp
  qed
  define all where "all = (0xff :: byte)"
  have "CIDRMask ones len ! i = (if 8 * (i + 1) \<le> ones then all else if ones \<le> 8 * i then 0 else not (drop_bit (ones - 8 * i) all))"
    using assms(1) by (simp add: CIDRMask_def all_def)
  moreover have "bit all k \<longleftrightarrow> k < 8" for k unfolding all_def by (rule ff)
  moreover have "bit (not (drop_bit d all)) j \<longleftrightarrow> \<not> bit all (d + j)" for d
    using assms(2) by (simp add: bit_not_iff_eq bit_drop_bit_eq)
  moreover have "\<not> ones \<le> 8 * i \<Longrightarrow> (\<not> ones - 8 * i + j < 8) = (8 * i + (7 - j) < ones)" using assms(2) by linarith
  ultimately show ?thesis using assms(2) by (cases "8 * (i + 1) \<le> ones"; cases "ones \<le> 8 * i") simp_all
qed

lemma masked_eq_iff:
  assumes "length nn = len" "length addr = len"
  shows "list_all (\<lambda>(b, a, v). and b v = and a v) (zip nn (zip addr (CIDRMask ones len)))
    \<longleftrightarrow> (\<forall>k < 8 * len. 8 * len - ones \<le> k \<longrightarrow> bit (big_SetBytes nn) k = bit (big_SetBytes addr) k)"
    (is "?l \<longleftrightarrow> ?r")
proof -
  have word: "and b v = and a v \<longleftrightarrow> (\<forall>j < 8. bit v j \<longrightarrow> bit b j = bit a j)" for a b v :: byte
    by (auto simp: bit_eq_iff bit_and_iff dest: bit_imp_le_length)
  have "?l \<longleftrightarrow> (\<forall>i < len. \<forall>j < 8. 8 * i + (7 - j) < ones \<longrightarrow> bit (nn ! i) j = bit (addr ! i) j)"
    using assms by (auto simp: list_all_length word CIDRMask_bit)
  also have "\<dots> \<longleftrightarrow> ?r"
  proof (rule iffI; intro allI impI)
    fix k assume all: "\<forall>i < len. \<forall>j < 8. 8 * i + (7 - j) < ones \<longrightarrow> bit (nn ! i) j = bit (addr ! i) j" and k: "k < 8 * len" "8 * len - ones \<le> k"
    define q m where "q = k div 8" and "m = k mod 8"
    have "k = 8 * q + m" "m < 8" by (simp_all add: q_def m_def)
    then have "len - 1 - q < len" "8 * (len - 1 - q) + (7 - m) < ones" using k by linarith+
    then have "len - 1 - k div 8 < len" "8 * (len - 1 - k div 8) + (7 - k mod 8) < ones" by (simp_all only: q_def m_def)
    then show "bit (big_SetBytes nn) k = bit (big_SetBytes addr) k"
      using all k assms by (simp add: big_SetBytes_bit)
  next
    fix i j assume r: ?r and i: "i < len" and j: "j < 8" and "8 * i + (7 - j) < ones"
    define k where "k = 8 * (len - 1 - i) + j"
    have "k < 8 * len" "8 * len - ones \<le> k" "k div 8 = len - 1 - i" "k mod 8 = j"
      using i j \<open>8 * i + (7 - j) < ones\<close> by (auto simp: k_def)
    moreover from this have "len - 1 - k div 8 = i" using i by simp
    ultimately show "bit (nn ! i) j = bit (addr ! i) j" using r [rule_format, of k] assms by (simp add: big_SetBytes_bit)
  qed
  finally show ?thesis .
qed

lemma net_base_multiple:
  assumes "net4 n ones"
  shows "2 ^ (32 - ones) dvd big_SetBytes (net_IP n)"
proof -
  have m: "length (net_IP n) = 4" "map2 and (net_IP n) (CIDRMask ones 4) = net_IP n" using assms by (auto simp: net4_def)
  have "\<not> bit (big_SetBytes (net_IP n)) k" if k: "k < 32 - ones" for k
  proof -
    define q j where "q = k div 8" and "j = k mod 8"
    have kq: "k = 8 * q + j" "j < 8" by (simp_all add: q_def j_def)
    then have "3 - q < 4" "\<not> 8 * (3 - q) + (7 - j) < ones" using k by linarith+
    then have "\<not> bit (CIDRMask ones 4 ! (3 - q)) j" using CIDRMask_bit [of "3 - q" 4 j ones] kq(2) by simp
    moreover have "net_IP n ! (3 - q) = and (net_IP n ! (3 - q)) (CIDRMask ones 4 ! (3 - q))"
      using arg_cong [OF m(2), of "\<lambda>l. l ! (3 - q)"] m(1) by simp
    ultimately have "\<not> bit (net_IP n ! (3 - q)) j" by (metis bit_and_iff)
    moreover have "k < 8 * length (net_IP n)" using k m(1) by simp
    ultimately show ?thesis using big_SetBytes_bit [of k "net_IP n"] m(1) by (simp add: q_def j_def)
  qed
  then have "take_bit (32 - ones) (big_SetBytes (net_IP n)) = 0" by (intro bit_eqI) (simp add: bit_take_bit_iff)
  then show ?thesis by (simp add: take_bit_eq_mod dvd_eq_mod_eq_0)
qed

lemma net_Contains_iff:
  assumes "net4 n ones"
  shows "net_Contains n addr \<longleftrightarrow> To4 addr \<noteq> [] \<and> big_SetBytes (net_IP n) \<le> big_SetBytes (To4 addr)
    \<and> big_SetBytes (To4 addr) < big_SetBytes (net_IP n) + 2 ^ (32 - ones)"
proof (cases "To4 addr = []")
  case True
  then have "length addr \<noteq> 4" by (auto simp: To4_def split: if_splits)
  then show ?thesis using True assms by (simp add: net_Contains_def net4_number [OF assms]) (simp add: net4_def)
next
  case False
  define x where "x = To4 addr"
  let ?b = "big_SetBytes (net_IP n)" and ?x = "big_SetBytes x" and ?d = "2 ^ (32 - ones) :: nat"
  have len: "length x = 4" "length (net_IP n) = 4" using False assms by (auto simp: x_def To4_def net4_def split: if_splits)
  have small: "?b < 2 ^ 32" "?x < 2 ^ 32" using big_SetBytes_bound [of x] big_SetBytes_bound [of "net_IP n"] len by simp_all
  have high: "\<not> bit y k" if "y < 2 ^ 32" "32 \<le> k" for y k :: nat
    using that by (metis bit_take_bit_iff leD take_bit_nat_eq_self)
  have "net_Contains n addr \<longleftrightarrow> (\<forall>k < 32. 32 - ones \<le> k \<longrightarrow> bit ?b k = bit ?x k)"
    using masked_eq_iff [OF len(2,1), of ones] False len assms
    by (simp add: net_Contains_def net4_number [OF assms] flip: x_def) (simp add: net4_def)
  also have "\<dots> \<longleftrightarrow> (\<forall>k. 32 - ones \<le> k \<longrightarrow> bit ?b k = bit ?x k)" using high small by (metis leI)
  also have "\<dots> \<longleftrightarrow> drop_bit (32 - ones) ?b = drop_bit (32 - ones) ?x"
    by (simp add: bit_eq_iff bit_drop_bit_eq) (metis le_add1 le_iff_add)
  also have "\<dots> \<longleftrightarrow> ?b div ?d = ?x div ?d" by (simp add: drop_bit_eq_div)
  also have "\<dots> \<longleftrightarrow> ?b \<le> ?x \<and> ?x < ?b + ?d"
  proof -
    obtain c where c: "?b = ?d * c" using net_base_multiple [OF assms] by blast
    have "?x div ?d = c \<longleftrightarrow> ?d * c \<le> ?x \<and> ?x < ?d * c + ?d"
      using div_nat_eqI [of ?d c ?x] dividend_less_times_div [of ?d ?x] times_div_less_eq_dividend [of ?d ?x] by auto
    then show ?thesis by (auto simp: c)
  qed
  finally show ?thesis using False by (simp add: x_def)
qed

text \<open>The bytes of a number of four bytes.\<close>

lemma big_Bytes_SetBytes: "bs = [] \<or> hd bs \<noteq> 0 \<Longrightarrow> big_Bytes (big_SetBytes bs) = bs"
proof (induction bs rule: rev_induct)
  case (snoc b bs)
  let ?n = "big_SetBytes bs * 256 + unat b"
  have pos: "?n \<noteq> 0"
  proof (cases "bs = []")
    case True
    then show ?thesis using snoc.prems by (simp add: unat_eq_zero)
  next
    case False
    then have "big_Bytes (big_SetBytes bs) \<noteq> []" using snoc by auto
    moreover have "big_Bytes 0 = []" by (simp add: big_Bytes_def bytes_le.simps)
    ultimately have "big_SetBytes bs \<noteq> 0" by metis
    then show ?thesis by simp
  qed
  have "(256 :: byte) = 0" by simp
  then have "word_of_nat ?n = b" by (simp only: of_nat_add of_nat_mult of_nat_numeral mult_zero_right) simp
  moreover have "?n div 256 = big_SetBytes bs" using unat_octet [of b] by simp
  moreover have "big_Bytes (big_SetBytes bs) = bs" using snoc by (cases bs) auto
  ultimately show ?case using pos by (simp add: big_SetBytes_snoc big_Bytes_def bytes_le.simps [of ?n])
qed (simp add: big_SetBytes_def big_Bytes_def bytes_le.simps)

lemma big_Bytes_4:
  assumes "2 ^ 24 \<le> n" "n < 2 ^ 32"
  shows "length (big_Bytes n) = 4"
proof -
  have p: "n \<noteq> 0" "n div 256 \<noteq> 0" "n div 256 div 256 \<noteq> 0" "n div 256 div 256 div 256 \<noteq> 0" "n div 256 div 256 div 256 div 256 = 0"
    using assms by (simp_all add: div_mult2_eq [symmetric] div_greater_zero_iff flip: neq0_conv)
  show ?thesis
    unfolding big_Bytes_def
    by (simp only: bytes_le.simps [of n] bytes_le.simps [of "n div 256"] bytes_le.simps [of "n div 256 div 256"]
        bytes_le.simps [of "n div 256 div 256 div 256"] bytes_le.simps [of "n div 256 div 256 div 256 div 256"] p if_False if_True) (simp add: bytes_le.simps)
qed

end
