(* ===== verification/IPAllocator.thy ===== *)
theory IPAllocator
  imports IPs
begin

section \<open>The allocator of cluster IPs (\<^verbatim>\<open>pkg/registry/core/service/ipallocator\<close>)\<close>

text \<open>
  The range of the addresses of a network, without its first and last one, over the allocation
  bitmap. A panic is \<open>None\<close>. The difference of two addresses passes through \<^verbatim>\<open>big.Int.Int64\<close>,
  which wraps.
\<close>

datatype ip_error =
    IPErrFull
  | IPErrNotInRange
  | IPErrAllocated
  | IPErrMismatchedNetwork
  | InvalidCIDR string

record Range =
  r_net :: IPNet
  r_base :: nat
  r_max :: int
  r_alloc :: AllocationBitmap

definition bigForIP :: "ip \<Rightarrow> nat" where
  "bigForIP addr = big_SetBytes (if To4 addr \<noteq> [] then To4 addr else To16 addr)"

definition addIPOffset :: "nat \<Rightarrow> int \<Rightarrow> ip" where
  "addIPOffset base offset = big_Bytes (nat \<bar>int base + offset\<bar>)"

definition calculateIPOffset :: "nat \<Rightarrow> ip \<Rightarrow> int" where
  "calculateIPOffset base addr = wrap64 (int (bigForIP addr) - int base)"

text \<open>A negative shift count would be huge as an unsigned one; \<^verbatim>\<open>ones\<close> is at most \<^verbatim>\<open>bits\<close>.\<close>

definition RangeSize :: "IPNet \<Rightarrow> int option" where
  "RangeSize subnet =
     (let (ones, bits) = mask_Size (net_Mask subnet)
      in if bits - ones \<ge> 31 then None else Some (2 ^ (bits - ones)))"

definition GetIndexedIP :: "IPNet \<Rightarrow> int \<Rightarrow> ip option" where
  "GetIndexedIP subnet index =
     (let addr = addIPOffset (bigForIP (net_IP subnet)) index
      in if \<not> net_Contains subnet addr then None else Some addr)"

definition NewAllocatorCIDRRange :: "IPNet \<Rightarrow> (int \<Rightarrow> string \<Rightarrow> AllocationBitmap) \<Rightarrow> Range option" where
  "NewAllocatorCIDRRange cidr allocatorFactory =
     (case RangeSize cidr of
        None \<Rightarrow> None
      | Some mx \<Rightarrow>
          let m = max 0 (mx - 2)
          in Some \<lparr>r_net = cidr, r_base = bigForIP (net_IP cidr) + 1, r_max = m, r_alloc = allocatorFactory m (net_String cidr)\<rparr>)"

definition NewCIDRRange :: "IPNet \<Rightarrow> Range option" where
  "NewCIDRRange cidr = NewAllocatorCIDRRange cidr NewAllocationMap"

definition r_Free :: "Range \<Rightarrow> int" where
  "r_Free r = bm_Free (r_alloc r)"

definition r_Used :: "Range \<Rightarrow> int" where
  "r_Used r = r_max r - bm_Free (r_alloc r)"

definition r_contains :: "Range \<Rightarrow> ip \<Rightarrow> bool \<times> int" where
  "r_contains r addr =
     (if \<not> net_Contains (r_net r) addr then (False, 0)
      else let offset = calculateIPOffset (r_base r) addr
           in if offset < 0 \<or> offset \<ge> r_max r then (False, 0) else (True, offset))"

definition r_Allocate :: "ip \<Rightarrow> Range \<Rightarrow> (ip_error option \<times> Range) option" where
  "r_Allocate addr r =
     (let (ok, offset) = r_contains r addr
      in if \<not> ok then Some (Some IPErrNotInRange, r)
         else map_option (\<lambda>(allocated, a). (if \<not> allocated then Some IPErrAllocated else None, r\<lparr>r_alloc := a\<rparr>))
                (bm_Allocate offset (r_alloc r)))"

definition r_AllocateNext :: "nat \<Rightarrow> Range \<Rightarrow> ip \<times> ip_error option \<times> Range" where
  "r_AllocateNext seed r =
     (case bm_AllocateNext seed (r_alloc r) of
        (offset, ok, a) \<Rightarrow>
          if \<not> ok then ([], Some IPErrFull, r\<lparr>r_alloc := a\<rparr>)
          else (addIPOffset (r_base r) (int offset), None, r\<lparr>r_alloc := a\<rparr>))"

definition r_Release :: "ip \<Rightarrow> Range \<Rightarrow> (ip_error option \<times> Range) option" where
  "r_Release addr r =
     (let (ok, offset) = r_contains r addr
      in if \<not> ok then Some (None, r)
         else map_option (\<lambda>a. (None, r\<lparr>r_alloc := a\<rparr>)) (bm_Release offset (r_alloc r)))"

text \<open>The addresses the function is called with; the error of \<^verbatim>\<open>GetIndexedIP\<close> is dropped.\<close>

definition r_ForEach :: "Range \<Rightarrow> ip list" where
  "r_ForEach r =
     map (\<lambda>offset. case GetIndexedIP (r_net r) (int offset + 1) of None \<Rightarrow> [] | Some addr \<Rightarrow> addr) (bm_ForEach (r_alloc r))"

definition r_Has :: "Range \<Rightarrow> ip \<Rightarrow> bool option" where
  "r_Has r addr =
     (let (ok, offset) = r_contains r addr
      in if \<not> ok then Some False else bm_Has offset (r_alloc r))"

definition r_Snapshot :: "Range \<Rightarrow> RangeAllocation \<Rightarrow> RangeAllocation" where
  "r_Snapshot r dst =
     (case bm_Snapshot (r_alloc r) of (rangeString, data) \<Rightarrow> dst\<lparr>ra_Range := rangeString, ra_Data := data\<rparr>)"

text \<open>The error of the bitmap is dropped.\<close>

definition r_Restore :: "IPNet \<Rightarrow> byte list \<Rightarrow> Range \<Rightarrow> ip_error option \<times> Range" where
  "r_Restore net data r =
     (if \<not> ip_Equal (net_IP net) (net_IP (r_net r)) \<or> mask_String (net_Mask net) \<noteq> mask_String (net_Mask (r_net r))
      then (Some IPErrMismatchedNetwork, r)
      else (None, r\<lparr>r_alloc := snd (bm_Restore (net_String net) data (r_alloc r))\<rparr>))"

definition r_NewFromSnapshot :: "RangeAllocation \<Rightarrow> (ip_error + Range) option" where
  "r_NewFromSnapshot snap =
     (case ParseCIDR (ra_Range snap) of
        None \<Rightarrow> Some (Inl (InvalidCIDR (ra_Range snap)))
      | Some ipnet \<Rightarrow>
          (case NewCIDRRange ipnet of
             None \<Rightarrow> None
           | Some r0 \<Rightarrow>
               (case r_Restore ipnet (ra_Data snap) r0 of
                  (Some err, _) \<Rightarrow> Some (Inl err)
                | (None, r) \<Rightarrow> Some (Inr r))))"

subsection \<open>The range of an IPv4 network\<close>

text \<open>
  The networks of the theorems: IPv4, with at least two leading ones in the mask (wider ones
  panic) and not below 1.0.0.0 (an address that starts with a zero byte loses it).
\<close>

definition ip_num :: "ip \<Rightarrow> nat" where
  "ip_num addr = big_SetBytes (To4 addr)"

definition service_net :: "IPNet \<Rightarrow> nat \<Rightarrow> bool" where
  "service_net n ones \<longleftrightarrow> net4 n ones \<and> 2 \<le> ones \<and> 2 ^ 24 \<le> big_SetBytes (net_IP n)"

definition r_ok :: "Range \<Rightarrow> nat \<Rightarrow> bool" where
  "r_ok r ones \<longleftrightarrow> service_net (r_net r) ones \<and> r_base r = big_SetBytes (net_IP (r_net r)) + 1
     \<and> r_max r = max 0 (2 ^ (32 - ones) - 2) \<and> bm_ok (r_alloc r) \<and> bm_max (r_alloc r) = r_max r
     \<and> bm_rangeSpec (r_alloc r) = net_String (r_net r)"

definition r_ips :: "Range \<Rightarrow> nat set" where
  "r_ips r = (+) (r_base r) ` offsets (r_alloc r)"

lemma service_net_bounds:
  assumes "service_net n ones"
  shows "big_SetBytes (net_IP n) + 2 ^ (32 - ones) \<le> 2 ^ 32" "To4 (net_IP n) = net_IP n" "net_IP n \<noteq> []" "length (net_IP n) = 4"
proof -
  show l: "length (net_IP n) = 4" using assms by (simp add: service_net_def net4_def)
  then show "To4 (net_IP n) = net_IP n" "net_IP n \<noteq> []" by (auto simp: To4_def)
  have ones: "ones \<le> 32" and dvd: "2 ^ (32 - ones) dvd big_SetBytes (net_IP n)"
    using assms net_base_multiple by (auto simp: service_net_def net4_def)
  obtain c where c: "big_SetBytes (net_IP n) = 2 ^ (32 - ones) * c" using dvd by blast
  have split: "(2 :: nat) ^ 32 = 2 ^ (32 - ones) * 2 ^ ones" using ones by (simp flip: power_add)
  have "2 ^ (32 - ones) * c < 2 ^ (32 - ones) * 2 ^ ones"
    using big_SetBytes_bound [of "net_IP n"] l by (simp only: c split [symmetric]) simp
  then have "Suc c \<le> 2 ^ ones" by simp
  then have "2 ^ (32 - ones) * Suc c \<le> 2 ^ (32 - ones) * 2 ^ ones" by (rule mult_le_mono2)
  then show "big_SetBytes (net_IP n) + 2 ^ (32 - ones) \<le> 2 ^ 32" by (simp only: c split mult_Suc_right add.commute)
qed

lemma r_limits:
  assumes "r_ok r ones"
  shows "int (r_base r) + r_max r \<le> 2 ^ 32" "2 ^ 24 < r_base r" "0 \<le> r_max r" "nat (r_max r) = 2 ^ (32 - ones) - 2"
proof -
  have s: "service_net (r_net r) ones" and base: "r_base r = big_SetBytes (net_IP (r_net r)) + 1" and mx: "r_max r = max 0 (2 ^ (32 - ones) - 2)"
    using assms by (auto simp: r_ok_def)
  have "nat (max 0 (int p - 2)) = p - 2" for p by linarith
  from this [of "2 ^ (32 - ones)"] show n: "nat (r_max r) = 2 ^ (32 - ones) - 2" by (simp add: mx)
  show "2 ^ 24 < r_base r" using s base by (simp add: service_net_def)
  show nn: "0 \<le> r_max r" by (simp add: mx)
  have le: "big_SetBytes (net_IP (r_net r)) + 2 ^ (32 - ones) \<le> 2 ^ 32" by (rule service_net_bounds [OF s])
  have "(1 :: nat) \<le> 2 ^ (32 - ones)" by simp
  then have "r_base r + nat (r_max r) \<le> 2 ^ 32" using le unfolding base n by linarith
  then show "int (r_base r) + r_max r \<le> 2 ^ 32" using nn by simp
qed

lemma To4_length: "To4 addr \<noteq> [] \<Longrightarrow> length (To4 addr) = 4"
  by (auto simp: To4_def split: if_splits)

lemma r_contains_iff:
  assumes "r_ok r ones"
  shows "r_contains r addr =
    (if To4 addr \<noteq> [] \<and> r_base r \<le> ip_num addr \<and> int (ip_num addr) < int (r_base r) + r_max r
     then (True, int (ip_num addr) - int (r_base r)) else (False, 0))"
proof -
  have s: "service_net (r_net r) ones" and n4: "net4 (r_net r) ones" and base: "r_base r = big_SetBytes (net_IP (r_net r)) + 1"
    using assms by (auto simp: r_ok_def service_net_def)
  note lim = r_limits [OF assms]
  show ?thesis
  proof (cases "To4 addr = []")
    case True
    then show ?thesis by (simp add: r_contains_def net_Contains_iff [OF n4])
  next
    case False
    have num: "ip_num addr < 2 ^ 32" using big_SetBytes_bound [of "To4 addr"] To4_length [OF False] by (simp add: ip_num_def)
    have off: "calculateIPOffset (r_base r) addr = int (ip_num addr) - int (r_base r)"
    proof -
      have "is_int64 (int (ip_num addr) - int (r_base r))" using num lim(1,3) by (simp add: is_int64_def)
      then show ?thesis using False by (simp add: calculateIPOffset_def bigForIP_def ip_num_def wrap64_id)
    qed
    have c: "net_Contains (r_net r) addr \<longleftrightarrow> r_base r \<le> ip_num addr + 1 \<and> ip_num addr + 1 < r_base r + 2 ^ (32 - ones)"
      using False by (simp add: net_Contains_iff [OF n4] base ip_num_def)
    have "net_Contains (r_net r) addr" if "r_base r \<le> ip_num addr" "int (ip_num addr) < int (r_base r) + r_max r"
    proof -
      have "ip_num addr < r_base r + nat (r_max r)" using that lim(3) by linarith
      then show ?thesis using that(1) unfolding c lim(4) by linarith
    qed
    then show ?thesis using False by (auto simp: r_contains_def Let_def off)
  qed
qed

lemma range_item:
  assumes "r_ok r ones" "i < nat (r_max r)"
  shows "length (addIPOffset (r_base r) (int i)) = 4" "To4 (addIPOffset (r_base r) (int i)) = addIPOffset (r_base r) (int i)"
    "ip_num (addIPOffset (r_base r) (int i)) = r_base r + i"
proof -
  have l: "int (r_base r) + r_max r \<le> 4294967296" using r_limits(1) [OF assms(1)] by simp
  have b: "2 ^ 24 \<le> r_base r + i" "r_base r + i < 2 ^ 32"
    using r_limits(2) [OF assms(1)] l assms(2) by simp_all
  have "nat \<bar>int (r_base r) + int i\<bar> = r_base r + i" by simp
  then have e: "addIPOffset (r_base r) (int i) = big_Bytes (r_base r + i)" by (simp add: addIPOffset_def)
  show l: "length (addIPOffset (r_base r) (int i)) = 4" unfolding e by (rule big_Bytes_4 [OF b])
  then show t: "To4 (addIPOffset (r_base r) (int i)) = addIPOffset (r_base r) (int i)" by (simp add: To4_def)
  show "ip_num (addIPOffset (r_base r) (int i)) = r_base r + i" unfolding ip_num_def t by (simp add: e)
qed

lemma r_ips_range: "r_ok r ones \<Longrightarrow> x \<in> r_ips r \<Longrightarrow> r_base r \<le> x \<and> int x < int (r_base r) + r_max r"
  by (force simp: r_ips_def r_ok_def bm_ok_def)

lemma r_ips_iff: "x \<in> r_ips r \<longleftrightarrow> r_base r \<le> x \<and> x - r_base r \<in> offsets (r_alloc r)"
  by (force simp: r_ips_def)

lemma r_new_ok:
  assumes "service_net n ones"
  shows "\<exists>r. NewCIDRRange n = Some r \<and> r_ok r ones \<and> r_ips r = {} \<and> r_net r = n"
proof -
  have sz: "mask_Size (net_Mask n) = (ones, 32)" "\<not> 31 \<le> 32 - ones"
    using assms mask_lengths [of ones] by (auto simp: mask_Size_def service_net_def net4_def)
  have b: "bigForIP (net_IP n) = big_SetBytes (net_IP n)" using service_net_bounds [OF assms] by (simp add: bigForIP_def)
  define a where "a = NewAllocationMap (max 0 (2 ^ (32 - ones) - 2)) (net_String n)"
  have a: "bm_ok a" "offsets a = {}" "bm_max a = max 0 (2 ^ (32 - ones) - 2)" "bm_rangeSpec a = net_String n"
    unfolding a_def by (simp_all add: bm_new_ok) (simp_all add: NewAllocationMap_def)
  have "NewCIDRRange n = Some \<lparr>r_net = n, r_base = big_SetBytes (net_IP n) + 1, r_max = max 0 (2 ^ (32 - ones) - 2), r_alloc = a\<rparr>"
    using sz by (simp add: NewCIDRRange_def NewAllocatorCIDRRange_def RangeSize_def b Let_def a_def)
  then show ?thesis using assms a by (simp add: r_ok_def r_ips_def)
qed

lemma r_Allocate_law:
  assumes "r_ok r ones"
  shows "\<exists>err r'. r_Allocate addr r = Some (err, r') \<and> r_ok r' ones \<and> r_net r' = r_net r
    \<and> err = (if \<not> fst (r_contains r addr) then Some IPErrNotInRange else if ip_num addr \<in> r_ips r then Some IPErrAllocated else None)
    \<and> r_ips r' = (if err = None then insert (ip_num addr) (r_ips r) else r_ips r)"
proof (cases "fst (r_contains r addr)")
  case False
  then show ?thesis using assms by (cases "r_contains r addr") (simp add: r_Allocate_def)
next
  case True
  define d where "d = int (ip_num addr) - int (r_base r)"
  have c: "r_contains r addr = (True, d)" "0 \<le> d" "d < bm_max (r_alloc r)" "r_base r \<le> ip_num addr"
    using True assms by (auto simp: r_contains_iff [OF assms] d_def r_ok_def split: if_splits)
  have nd: "nat d = ip_num addr - r_base r" using c(4) by (simp add: d_def)
  obtain a where a: "bm_Allocate d (r_alloc r) = Some (nat d \<notin> offsets (r_alloc r), a)"
      "bm_ok a" "offsets a = insert (nat d) (offsets (r_alloc r))"
      "bm_max a = bm_max (r_alloc r)" "bm_rangeSpec a = bm_rangeSpec (r_alloc r)"
    using bm_Allocate_ok [OF _ c(2,3)] assms by (auto simp: r_ok_def)
  have mem: "ip_num addr \<in> r_ips r \<longleftrightarrow> nat d \<in> offsets (r_alloc r)" using c(4) by (simp add: r_ips_iff nd)
  have "r_ips (r\<lparr>r_alloc := a\<rparr>) = insert (ip_num addr) (r_ips r)" using c(4) by (simp add: r_ips_def a(3) nd)
  then show ?thesis
    using assms a c mem by (cases "nat d \<in> offsets (r_alloc r)") (auto simp: r_Allocate_def r_ok_def insert_absorb)
qed

lemma r_Release_law:
  assumes "r_ok r ones"
  shows "\<exists>r'. r_Release addr r = Some (None, r') \<and> r_ok r' ones \<and> r_net r' = r_net r \<and> r_ips r' = r_ips r - {ip_num addr}"
proof (cases "fst (r_contains r addr)")
  case False
  have "ip_num addr \<notin> r_ips r"
  proof
    assume i: "ip_num addr \<in> r_ips r"
    then have "ip_num addr \<noteq> 0" using r_ips_range [OF assms i] r_limits(2) [OF assms] by linarith
    then have "To4 addr \<noteq> []" by (auto simp: ip_num_def big_SetBytes_def)
    then show False using False r_ips_range [OF assms i] by (simp add: r_contains_iff [OF assms])
  qed
  then show ?thesis using False assms by (cases "r_contains r addr") (simp add: r_Release_def)
next
  case True
  define d where "d = int (ip_num addr) - int (r_base r)"
  have c: "r_contains r addr = (True, d)" "0 \<le> d" "r_base r \<le> ip_num addr"
    using True assms by (auto simp: r_contains_iff [OF assms] d_def r_ok_def split: if_splits)
  have nd: "nat d = ip_num addr - r_base r" using c(3) by (simp add: d_def)
  obtain a where a: "bm_Release d (r_alloc r) = Some a" "bm_ok a" "offsets a = offsets (r_alloc r) - {nat d}"
      "bm_max a = bm_max (r_alloc r)" "bm_rangeSpec a = bm_rangeSpec (r_alloc r)"
    using bm_Release_ok [of "r_alloc r", OF _ c(2)] assms by (auto simp: r_ok_def)
  have "r_ips (r\<lparr>r_alloc := a\<rparr>) = r_ips r - {ip_num addr}" using c(3) by (auto simp: r_ips_def a(3) nd)
  then show ?thesis using assms a c by (simp add: r_Release_def r_ok_def)
qed

lemma r_AllocateNext_law:
  assumes "r_ok r ones" "r_AllocateNext seed r = (addr, err, r')"
  shows "r_ok r' ones \<and> r_net r' = r_net r
    \<and> (if err = None then length addr = 4 \<and> r_contains r addr = (True, int (ip_num addr) - int (r_base r)) \<and> ip_num addr \<notin> r_ips r
         \<and> r_ips r' = insert (ip_num addr) (r_ips r)
       else err = Some IPErrFull \<and> addr = [] \<and> r_ips r = {r_base r ..< r_base r + nat (r_max r)} \<and> r_ips r' = r_ips r)"
proof -
  have ok: "bm_ok (r_alloc r)" using assms(1) by (simp add: r_ok_def)
  have m: "bm_max (r_alloc r) = r_max r" using assms(1) by (simp add: r_ok_def)
  from bm_AllocateNext_ok [OF ok, of seed] show ?thesis
  proof (elim disjE exE conjE)
    assume n: "bm_AllocateNext seed (r_alloc r) = (0, False, r_alloc r)" "offsets (r_alloc r) = {..<nat (bm_max (r_alloc r))}"
    then have "r' = r" "err = Some IPErrFull" "addr = []" using assms(2) by (auto simp: r_AllocateNext_def)
    moreover have "r_ips r = {r_base r ..< r_base r + nat (r_max r)}"
      unfolding r_ips_def n(2) m by (simp add: lessThan_atLeast0 add.commute image_add_atLeastLessThan)
    ultimately show ?thesis using assms(1) by simp
  next
    fix i a
    assume s: "bm_AllocateNext seed (r_alloc r) = (i, True, a)" "i < nat (bm_max (r_alloc r))" "i \<notin> offsets (r_alloc r)"
      "bm_ok a" "offsets a = insert i (offsets (r_alloc r))" "bm_max a = bm_max (r_alloc r)"
      "bm_rangeSpec a = bm_rangeSpec (r_alloc r)"
    then have e: "r' = r\<lparr>r_alloc := a\<rparr>" "err = None" "addr = addIPOffset (r_base r) (int i)"
      using assms(2) by (auto simp: r_AllocateNext_def)
    have item: "length addr = 4" "To4 addr = addr" "ip_num addr = r_base r + i"
      using range_item [OF assms(1)] s(2) m e(3) by simp_all
    have "To4 addr \<noteq> []" using item by auto
    moreover have "int (ip_num addr) < int (r_base r) + r_max r" using item(3) s(2) m by simp
    ultimately have "r_contains r addr = (True, int (ip_num addr) - int (r_base r))" using item(3) by (simp add: r_contains_iff [OF assms(1)])
    moreover have "ip_num addr \<notin> r_ips r" using item(3) s(3) by (simp add: r_ips_iff)
    moreover have "r_ips r' = insert (ip_num addr) (r_ips r)" by (simp add: e(1) r_ips_def s(5) item(3))
    moreover have "r_ok r' ones" "r_net r' = r_net r" using assms(1) s by (simp_all add: e(1) r_ok_def)
    ultimately show ?thesis using item(1) e(2) by simp
  qed
qed

lemma r_Has_iff: "r_ok r ones \<Longrightarrow> r_Has r addr = Some (ip_num addr \<in> r_ips r)"
proof -
  assume ok: "r_ok r ones"
  show ?thesis
  proof (cases "fst (r_contains r addr)")
    case True
    then show ?thesis
      using ok by (auto simp: r_Has_def r_contains_iff [OF ok] bm_Has_def r_ips_iff offsets_def bits_def nat_diff_distrib split: if_splits)
  next
    case False
    obtain r' where r': "r_Release addr r = Some (None, r')" "r_ips r' = r_ips r - {ip_num addr}" using r_Release_law [OF ok] by blast
    have "r_Release addr r = Some (None, r)" using False by (cases "r_contains r addr") (simp add: r_Release_def)
    then have "ip_num addr \<notin> r_ips r" using r' by auto
    then show ?thesis using False by (cases "r_contains r addr") (simp add: r_Has_def)
  qed
qed

lemma r_ForEach_eq:
  assumes "r_ok r ones"
  shows "map ip_num (r_ForEach r) = sorted_list_of_set (r_ips r) \<and> (\<forall>addr \<in> set (r_ForEach r). length addr = 4)"
proof -
  have base: "bigForIP (net_IP (r_net r)) + 1 = r_base r"
    using assms service_net_bounds(2,3) [of "r_net r" ones] by (auto simp: r_ok_def bigForIP_def)
  have item: "(case GetIndexedIP (r_net r) (int i + 1) of None \<Rightarrow> [] | Some addr \<Rightarrow> addr) = addIPOffset (r_base r) (int i)"
    if "i \<in> offsets (r_alloc r)" for i
  proof -
    have i: "i < nat (r_max r)" using that assms by (auto simp: r_ok_def bm_ok_def)
    have e: "addIPOffset (bigForIP (net_IP (r_net r))) (int i + 1) = addIPOffset (r_base r) (int i)"
      by (simp add: addIPOffset_def algebra_simps flip: base)
    have "int (ip_num (addIPOffset (r_base r) (int i))) < int (r_base r) + r_max r" using range_item(3) [OF assms i] i by simp
    moreover have "To4 (addIPOffset (r_base r) (int i)) \<noteq> []" using range_item(1,2) [OF assms i] by auto
    ultimately have "fst (r_contains r (addIPOffset (r_base r) (int i)))"
      using range_item(3) [OF assms i] by (simp add: r_contains_iff [OF assms])
    then have "net_Contains (r_net r) (addIPOffset (r_base r) (int i))" by (auto simp: r_contains_def split: if_splits)
    then show ?thesis by (simp add: GetIndexedIP_def e)
  qed
  have fin: "finite (offsets (r_alloc r))" by simp
  have each: "r_ForEach r = map (\<lambda>i. addIPOffset (r_base r) (int i)) (sorted_list_of_set (offsets (r_alloc r)))"
    unfolding r_ForEach_def bm_ForEach_eq offsets_def [symmetric] using item fin by simp
  have small: "i < nat (r_max r)" if "i \<in> offsets (r_alloc r)" for i using that assms by (auto simp: r_ok_def bm_ok_def)
  have nums: "map ip_num (r_ForEach r) = map ((+) (r_base r)) (sorted_list_of_set (offsets (r_alloc r)))"
    using range_item(3) [OF assms small] by (simp add: each)
  have "sorted (map ip_num (r_ForEach r))" unfolding nums by (rule sorted_map_mono [OF sorted_list_of_set(2)]) (simp add: mono_on_def)
  moreover have "distinct (map ip_num (r_ForEach r))" unfolding nums by (simp add: distinct_map)
  moreover have "set (map ip_num (r_ForEach r)) = r_ips r" unfolding nums by (simp add: r_ips_def)
  ultimately have "map ip_num (r_ForEach r) = sorted_list_of_set (r_ips r)" by (metis sorted_list_of_set.idem_if_sorted_distinct)
  then show ?thesis using range_item(1) [OF assms small] by (auto simp: each)
qed

lemma r_Restore_Snapshot:
  assumes "r_ok r ones" "r_ok r' ones" "r_net r' = r_net r"
  shows "\<exists>r2. r_Restore (r_net r) (ra_Data (r_Snapshot r dst)) r' = (None, r2) \<and> r_ok r2 ones \<and> r_net r2 = r_net r \<and> r_ips r2 = r_ips r"
proof -
  obtain rs data where sn: "bm_Snapshot (r_alloc r) = (rs, data)" by fastforce
  have rs: "rs = net_String (r_net r)" using sn assms(1) by (simp add: bm_Snapshot_def r_ok_def)
  have eq: "bm_rangeSpec (r_alloc r') = bm_rangeSpec (r_alloc r)" using assms by (simp add: r_ok_def)
  have b: "r_base r' = r_base r" "r_max r' = r_max r" using assms by (simp_all add: r_ok_def)
  show ?thesis
    using bm_Restore_Snapshot [OF eq sn] assms b
    by (auto simp: r_Restore_def r_Snapshot_def ip_Equal_def sn rs r_ok_def r_ips_def offsets_def bm_ok_def)
qed

lemma r_NewFromSnapshot_Snapshot:
  assumes "r_ok r ones"
  shows "\<exists>r'. r_NewFromSnapshot (r_Snapshot r dst) = Some (Inr r') \<and> r_ok r' ones \<and> r_net r' = r_net r \<and> r_ips r' = r_ips r"
proof -
  have rs: "ra_Range (r_Snapshot r dst) = net_String (r_net r)" using assms by (simp add: r_Snapshot_def bm_Snapshot_def r_ok_def)
  have p: "ParseCIDR (net_String (r_net r)) = Some (r_net r)"
    using assms by (intro ParseCIDR_String [of _ ones]) (simp add: r_ok_def service_net_def)
  obtain r0 where r0: "NewCIDRRange (r_net r) = Some r0" "r_ok r0 ones" "r_net r0 = r_net r"
    using assms r_new_ok [of "r_net r" ones] by (auto simp: r_ok_def)
  show ?thesis using r_Restore_Snapshot [OF assms r0(2,3), of dst] r0(1) by (auto simp: r_NewFromSnapshot_def rs p)
qed

subsection \<open>Properties\<close>

definition first_address :: "IPNet \<Rightarrow> nat" where
  "first_address n = big_SetBytes (net_IP n)"

text \<open>
  C13. The allocator of the cluster IPs of an IPv4 network hands out only addresses strictly
  between the first and the last one of the network, as four bytes, each to one caller at a time:
  Allocate succeeds exactly on a free address of that range, AllocateNext finds a free one unless
  all are taken, and the address it returns can be released again. No call panics on any bytes.
\<close>

theorem cluster_ip_allocation:
  assumes ok: "r_ok r ones"
  shows "r_ips r \<subseteq> {first_address (r_net r) <..< first_address (r_net r) + 2 ^ (32 - ones) - 1}
    \<and> (\<exists>err r'. r_Allocate addr r = Some (err, r') \<and> r_ok r' ones
        \<and> (err = None \<longleftrightarrow> To4 addr \<noteq> [] \<and> ip_num addr \<in> {first_address (r_net r) <..< first_address (r_net r) + 2 ^ (32 - ones) - 1} - r_ips r)
        \<and> r_ips r' = (if err = None then insert (ip_num addr) (r_ips r) else r_ips r))
    \<and> (case r_AllocateNext seed r of
         (addr', None, r') \<Rightarrow> length addr' = 4 \<and> ip_num addr' \<notin> r_ips r \<and> r_ok r' ones \<and> r_ips r' = insert (ip_num addr') (r_ips r)
           \<and> (\<exists>r''. r_Release addr' r' = Some (None, r'') \<and> r_ok r'' ones \<and> r_ips r'' = r_ips r)
       | (_, Some err, r') \<Rightarrow> err = IPErrFull \<and> r_ips r' = r_ips r
           \<and> r_ips r = {first_address (r_net r) <..< first_address (r_net r) + 2 ^ (32 - ones) - 1})"
proof (intro conjI)
  have base: "r_base r = first_address (r_net r) + 1" using ok by (simp add: r_ok_def first_address_def)
  have span: "{first_address (r_net r) <..< first_address (r_net r) + 2 ^ (32 - ones) - 1} = {r_base r ..< r_base r + nat (r_max r)}"
    unfolding r_limits(4) [OF ok] base by auto
  have in_span: "x \<in> {r_base r ..< r_base r + nat (r_max r)} \<longleftrightarrow> r_base r \<le> x \<and> int x < int (r_base r) + r_max r" for x
    using r_limits(3) [OF ok] by auto
  show "r_ips r \<subseteq> {first_address (r_net r) <..< first_address (r_net r) + 2 ^ (32 - ones) - 1}"
    unfolding span using r_ips_range [OF ok] in_span by blast
  show "\<exists>err r'. r_Allocate addr r = Some (err, r') \<and> r_ok r' ones
        \<and> (err = None \<longleftrightarrow> To4 addr \<noteq> [] \<and> ip_num addr \<in> {first_address (r_net r) <..< first_address (r_net r) + 2 ^ (32 - ones) - 1} - r_ips r)
        \<and> r_ips r' = (if err = None then insert (ip_num addr) (r_ips r) else r_ips r)"
    using r_Allocate_law [OF ok, of addr] unfolding span Diff_iff in_span r_contains_iff [OF ok]
    by (cases "ip_num addr \<in> r_ips r") (auto split: if_splits)
  obtain addr' err r' where n: "r_AllocateNext seed r = (addr', err, r')" by (metis prod_cases3)
  show "case r_AllocateNext seed r of
         (addr', None, r') \<Rightarrow> length addr' = 4 \<and> ip_num addr' \<notin> r_ips r \<and> r_ok r' ones \<and> r_ips r' = insert (ip_num addr') (r_ips r)
           \<and> (\<exists>r''. r_Release addr' r' = Some (None, r'') \<and> r_ok r'' ones \<and> r_ips r'' = r_ips r)
       | (_, Some err, r') \<Rightarrow> err = IPErrFull \<and> r_ips r' = r_ips r
           \<and> r_ips r = {first_address (r_net r) <..< first_address (r_net r) + 2 ^ (32 - ones) - 1}"
    using r_AllocateNext_law [OF ok n] r_Release_law [of r' ones addr'] unfolding span
    by (cases err) (auto simp: n)
qed

definition example_net :: IPNet where
  "example_net = \<lparr>net_IP = [10, 0, 0, 0], net_Mask = CIDRMask 24 4\<rparr>"

lemma example_net_ok: "service_net example_net 24"
proof -
  have "CIDRMask 24 4 = [0xff, 0xff, 0xff, 0]" by code_simp
  then show ?thesis by (simp add: service_net_def net4_def example_net_def big_SetBytes_def)
qed

theorem cluster_ip_allocation_witness:
  "\<exists>r. NewCIDRRange example_net = Some r \<and> r_ok r 24
    \<and> r_ips r \<subseteq> {first_address (r_net r) <..< first_address (r_net r) + 2 ^ (32 - 24) - 1}"
proof -
  obtain r where r: "NewCIDRRange example_net = Some r" "r_ok r 24" using r_new_ok [OF example_net_ok] by blast
  then show ?thesis using cluster_ip_allocation [OF r(2), THEN conjunct1] by blast
qed

text \<open>
  A snapshot of the range of an IPv4 network holds everything: the text of the network parses
  to the network, and the range built from the snapshot has the same allocated addresses, which
  ForEach visits in ascending order.
\<close>

theorem ip_snapshot_roundtrip:
  assumes "r_ok r ones"
  shows "\<exists>r'. r_NewFromSnapshot (r_Snapshot r dst) = Some (Inr r') \<and> r_ok r' ones \<and> r_net r' = r_net r \<and> r_ips r' = r_ips r
    \<and> map ip_num (r_ForEach r') = sorted_list_of_set (r_ips r)"
proof -
  obtain r' where r': "r_NewFromSnapshot (r_Snapshot r dst) = Some (Inr r')" "r_ok r' ones" "r_net r' = r_net r" "r_ips r' = r_ips r"
    using r_NewFromSnapshot_Snapshot [OF assms] by blast
  then show ?thesis using r_ForEach_eq [OF r'(2)] by simp
qed

theorem ip_snapshot_roundtrip_witness:
  "\<exists>r r'. NewCIDRRange example_net = Some r \<and> r_ok r 24
    \<and> r_NewFromSnapshot (r_Snapshot r \<lparr>ra_Range = '''', ra_Data = []\<rparr>) = Some (Inr r') \<and> r_ips r' = {}"
proof -
  obtain r where r: "NewCIDRRange example_net = Some r" "r_ok r 24" "r_ips r = {}" using r_new_ok [OF example_net_ok] by blast
  then show ?thesis using ip_snapshot_roundtrip [OF r(2), of "\<lparr>ra_Range = '''', ra_Data = []\<rparr>"] by auto
qed

text \<open>An address that starts with a zero byte loses it: what AllocateNext returns is not an IP address.\<close>

lemma low_network_loses_byte: "length (addIPOffset 1 0) = 1"
  by (simp add: addIPOffset_def big_Bytes_def bytes_le.simps)

end
