(* ===== verification/ServiceREST.thy ===== *)
theory ServiceREST
  imports IPAllocator
begin

section \<open>The storage of services (\<^verbatim>\<open>pkg/registry/core/service/rest.go\<close>)\<close>

text \<open>
  The handlers that create, update and delete a service, with the cluster IP and the node ports
  they allocate and release. What they call outside this package is a parameter, the fields of
  \<open>api_env\<close>: the registry in etcd, the endpoints, the generic checks before a creation and the
  validation of an update. A panic is \<open>None\<close>. The random numbers of the allocators are the
  argument \<open>rnd\<close>: the call for the port with index i uses \<open>rnd i\<close>, the calls for the IP and for
  the health check port use numbers beyond the ports.
\<close>

subsection \<open>Services\<close>

datatype service_type =
    ServiceTypeClusterIP
  | ServiceTypeNodePort
  | ServiceTypeLoadBalancer
  | ServiceTypeExternalName
  | UnknownServiceType string

text \<open>The numbers of a port are of type \<^verbatim>\<open>int32\<close>; a conversion of an \<^verbatim>\<open>int\<close> wraps.\<close>

record ServicePort =
  sp_Name :: string
  sp_Protocol :: string
  sp_Port :: int
  sp_NodePort :: int

record Service =
  svc_Name :: string
  svc_Namespace :: string
  svc_Annotations :: "string \<rightharpoonup> string"
  svc_Type :: service_type
  svc_ClusterIP :: string
  svc_Ports :: "ServicePort list"
  svc_LoadBalancer :: "string list"

datatype service_error =
    RequestRejected string
  | NamespaceConflict string
  | InvalidClusterIP string ip_error
  | IPNotAllocated ip_error
  | InvalidNodePort nat int port_error
  | NodePortNotAllocated port_error
  | BadHealthCheckAnnotation string
  | HealthCheckPortTaken int port_error
  | HealthCheckPortNotFreed int port_error
  | InvalidHealthCheckAnnotation string
  | NotFound string
  | RegistryError string

definition IsServiceIPSet :: "Service \<Rightarrow> bool" where
  "IsServiceIPSet service \<longleftrightarrow> svc_ClusterIP service \<noteq> ''None'' \<and> svc_ClusterIP service \<noteq> ''''"

definition IsServiceIPRequested :: "Service \<Rightarrow> bool" where
  "IsServiceIPRequested service \<longleftrightarrow> svc_Type service \<noteq> ServiceTypeExternalName \<and> svc_ClusterIP service = ''''"

definition AlphaAnnotationHealthCheckNodePort :: string where
  "AlphaAnnotationHealthCheckNodePort = ''service.alpha.kubernetes.io/healthcheck-nodeport''"

definition AlphaAnnotationExternalTraffic :: string where
  "AlphaAnnotationExternalTraffic = ''service.alpha.kubernetes.io/external-traffic''"

definition BetaAnnotationHealthCheckNodePort :: string where
  "BetaAnnotationHealthCheckNodePort = ''service.beta.kubernetes.io/healthcheck-nodeport''"

definition BetaAnnotationExternalTraffic :: string where
  "BetaAnnotationExternalTraffic = ''service.beta.kubernetes.io/external-traffic''"

text \<open>A value that is neither of the two is logged and the next annotation is looked at.\<close>

fun needs_health_check :: "(string \<rightharpoonup> string) \<Rightarrow> string list \<Rightarrow> bool" where
  "needs_health_check annotations [] = False"
| "needs_health_check annotations (annotation # rest) =
     (case annotations annotation of
        None \<Rightarrow> needs_health_check annotations rest
      | Some l \<Rightarrow> if l = ''OnlyLocal'' then True else if l = ''Global'' then False else needs_health_check annotations rest)"

definition NeedsHealthCheck :: "Service \<Rightarrow> bool" where
  "NeedsHealthCheck service =
     needs_health_check (svc_Annotations service) [AlphaAnnotationExternalTraffic, BetaAnnotationExternalTraffic]"

fun health_check_port :: "(string \<rightharpoonup> string) \<Rightarrow> string list \<Rightarrow> int" where
  "health_check_port annotations [] = 0"
| "health_check_port annotations (annotation # rest) =
     (case annotations annotation of
        None \<Rightarrow> health_check_port annotations rest
      | Some l \<Rightarrow> (case ParseInt64 l of None \<Rightarrow> health_check_port annotations rest | Some p \<Rightarrow> wrap32 p))"

definition GetServiceHealthCheckNodePort :: "Service \<Rightarrow> int" where
  "GetServiceHealthCheckNodePort service =
     (if \<not> NeedsHealthCheck service then 0
      else health_check_port (svc_Annotations service) [AlphaAnnotationHealthCheckNodePort, BetaAnnotationHealthCheckNodePort])"

definition CollectServiceNodePorts :: "Service \<Rightarrow> int list" where
  "CollectServiceNodePorts service = filter (\<lambda>p. p \<noteq> 0) (map sp_NodePort (svc_Ports service))"

definition shouldAssignNodePorts :: "Service \<Rightarrow> bool" where
  "shouldAssignNodePorts service =
     (case svc_Type service of
        ServiceTypeLoadBalancer \<Rightarrow> True
      | ServiceTypeNodePort \<Rightarrow> True
      | ServiceTypeClusterIP \<Rightarrow> False
      | _ \<Rightarrow> False)"

definition findRequestedNodePort :: "int \<Rightarrow> ServicePort list \<Rightarrow> int" where
  "findRequestedNodePort port servicePorts =
     (case List.find (\<lambda>sp. port = sp_Port sp \<and> sp_NodePort sp \<noteq> 0) servicePorts of None \<Rightarrow> 0 | Some sp \<Rightarrow> sp_NodePort sp)"

subsection \<open>The state and the environment\<close>

record 'r REST =
  rs_registry :: 'r
  rs_serviceIPs :: Range
  rs_serviceNodePorts :: PortAllocator

record 'r api_env =
  ExternalTrafficLocalOnly :: bool
  BeforeCreate :: "Service \<Rightarrow> service_error + Service"
  CheckGeneratedNameError :: "service_error \<Rightarrow> Service \<Rightarrow> service_error"
  ValidateServiceUpdate :: "Service \<Rightarrow> Service \<Rightarrow> string option"
  CreateService :: "Service \<Rightarrow> 'r \<Rightarrow> (service_error + Service) \<times> 'r"
  GetService :: "string \<Rightarrow> 'r \<Rightarrow> service_error + Service"
  UpdateService :: "Service \<Rightarrow> 'r \<Rightarrow> (service_error + Service) \<times> 'r"
  DeleteService :: "string \<Rightarrow> 'r \<Rightarrow> service_error option \<times> 'r"
  DeleteEndpoints :: "string \<Rightarrow> 'r \<Rightarrow> service_error option \<times> 'r"

definition shouldCheckOrAssignHealthCheckNodePort :: "'r api_env \<Rightarrow> Service \<Rightarrow> bool" where
  "shouldCheckOrAssignHealthCheckNodePort env service =
     (if svc_Type service = ServiceTypeLoadBalancer then ExternalTrafficLocalOnly env \<and> NeedsHealthCheck service else False)"

text \<open>The namespace of the context, if it has one.\<close>

definition ValidNamespace :: "string option \<Rightarrow> Service \<Rightarrow> bool \<times> Service" where
  "ValidNamespace ctx service =
     (let ns = (case ctx of None \<Rightarrow> '''' | Some ns \<Rightarrow> ns);
          service' = (if svc_Namespace service = '''' then service\<lparr>svc_Namespace := ns\<rparr> else service)
      in (ns = svc_Namespace service' \<and> ctx \<noteq> None, service'))"

subsection \<open>Create\<close>

definition create_alloc_ip :: "nat \<Rightarrow> Service \<Rightarrow> Range \<Rightarrow> (service_error option \<times> Service \<times> bool \<times> Range) option" where
  "create_alloc_ip seed service ips =
     (if IsServiceIPRequested service then
        (case r_AllocateNext seed ips of
           (_, Some err, ips') \<Rightarrow> Some (Some (IPNotAllocated err), service, False, ips')
         | (addr, None, ips') \<Rightarrow> Some (None, service\<lparr>svc_ClusterIP := ip_String addr\<rparr>, True, ips'))
      else if IsServiceIPSet service then
        (case r_Allocate (ParseIP (svc_ClusterIP service)) ips of
           None \<Rightarrow> None
         | Some (Some err, ips') \<Rightarrow> Some (Some (InvalidClusterIP (svc_ClusterIP service) err), service, False, ips')
         | Some (None, ips') \<Rightarrow> Some (None, service, True, ips'))
      else Some (None, service, False, ips))"

text \<open>The loop over the indices of the ports; \<open>m\<close> is \<^verbatim>\<open>svcPortToNodePort\<close>.\<close>

fun create_ports ::
    "bool \<Rightarrow> (nat \<Rightarrow> nat) \<Rightarrow> nat list \<Rightarrow> ServicePort list \<Rightarrow> (int \<rightharpoonup> int) \<Rightarrow> portAllocationOperation \<Rightarrow> PortAllocator
       \<Rightarrow> (service_error option \<times> ServicePort list \<times> portAllocationOperation \<times> PortAllocator) option" where
  "create_ports assign rnd [] ps m op pa = Some (None, ps, op, pa)"
| "create_ports assign rnd (i # is) ps m op pa =
     (let sp = ps ! i;
          allocatedNodePort = (case m (sp_Port sp) of None \<Rightarrow> 0 | Some n \<Rightarrow> n);
          np = findRequestedNodePort (sp_Port sp) ps
      in if allocatedNodePort = 0 then
           (if np \<noteq> 0 then
              (case op_Allocate pa_Allocate np op pa of
                 None \<Rightarrow> None
               | Some (Some err, op', pa') \<Rightarrow> Some (Some (InvalidNodePort i np err), ps, op', pa')
               | Some (None, op', pa') \<Rightarrow>
                   create_ports assign rnd is (ps[i := sp\<lparr>sp_NodePort := wrap32 np\<rparr>]) (m(sp_Port sp \<mapsto> np)) op' pa')
            else if assign then
              (case op_AllocateNext pa_AllocateNext (rnd i) op pa of
                 (_, Some err, op', pa') \<Rightarrow> Some (Some (NodePortNotAllocated err), ps, op', pa')
               | (nodePort, None, op', pa') \<Rightarrow>
                   create_ports assign rnd is (ps[i := sp\<lparr>sp_NodePort := wrap32 nodePort\<rparr>]) (m(sp_Port sp \<mapsto> nodePort)) op' pa')
            else create_ports assign rnd is ps m op pa)
         else if sp_NodePort sp \<noteq> allocatedNodePort then
           (if sp_NodePort sp = 0 then
              create_ports assign rnd is (ps[i := sp\<lparr>sp_NodePort := wrap32 allocatedNodePort\<rparr>]) m op pa
            else
              (case op_Allocate pa_Allocate (sp_NodePort sp) op pa of
                 None \<Rightarrow> None
               | Some (Some err, op', pa') \<Rightarrow> Some (Some (InvalidNodePort i (sp_NodePort sp) err), ps, op', pa')
               | Some (None, op', pa') \<Rightarrow> create_ports assign rnd is ps m op' pa'))
         else create_ports assign rnd is ps m op pa)"

definition create_health ::
    "'r api_env \<Rightarrow> nat \<Rightarrow> Service \<Rightarrow> portAllocationOperation \<Rightarrow> PortAllocator
       \<Rightarrow> (service_error option \<times> Service \<times> portAllocationOperation \<times> PortAllocator) option" where
  "create_health env seed service op pa =
     (if \<not> shouldCheckOrAssignHealthCheckNodePort env service then Some (None, service, op, pa)
      else case svc_Annotations service BetaAnnotationHealthCheckNodePort of
             Some l \<Rightarrow>
               (case ParseInt64 l of
                  None \<Rightarrow> Some (Some (BadHealthCheckAnnotation l), service, op, pa)
                | Some healthCheckNodePort \<Rightarrow>
                    if healthCheckNodePort \<le> 0 then Some (Some (BadHealthCheckAnnotation l), service, op, pa)
                    else (case op_Allocate pa_Allocate healthCheckNodePort op pa of
                            None \<Rightarrow> None
                          | Some (Some err, op', pa') \<Rightarrow> Some (Some (HealthCheckPortTaken healthCheckNodePort err), service, op', pa')
                          | Some (None, op', pa') \<Rightarrow> Some (None, service, op', pa')))
           | None \<Rightarrow>
               (case op_AllocateNext pa_AllocateNext seed op pa of
                  (_, Some err, op', pa') \<Rightarrow> Some (Some (NodePortNotAllocated err), service, op', pa')
                | (healthCheckNodePort, None, op', pa') \<Rightarrow>
                    Some (None, service\<lparr>svc_Annotations := (svc_Annotations service)(BetaAnnotationHealthCheckNodePort \<mapsto> Itoa healthCheckNodePort)\<rparr>,
                          op', pa')))"

definition create_store ::
    "'r api_env \<Rightarrow> Service \<Rightarrow> bool \<Rightarrow> portAllocationOperation \<Rightarrow> 'r REST
       \<Rightarrow> ((service_error + Service) \<times> Service \<times> bool \<times> portAllocationOperation \<times> 'r REST) option" where
  "create_store env service releaseServiceIP op rs =
     (case CreateService env service (rs_registry rs) of
        (Inl err, reg) \<Rightarrow>
          Some (Inl (CheckGeneratedNameError env err service), service, releaseServiceIP, op, rs\<lparr>rs_registry := reg\<rparr>)
      | (Inr out, reg) \<Rightarrow>
          (case op_Commit pa_Release op (rs_serviceNodePorts rs) of
             None \<Rightarrow> None
           | Some (_, op', pa) \<Rightarrow> Some (Inr out, service, False, op', rs\<lparr>rs_registry := reg, rs_serviceNodePorts := pa\<rparr>)))"

text \<open>The body up to its return, with what the deferred calls read.\<close>

definition create_body ::
    "'r api_env \<Rightarrow> (nat \<Rightarrow> nat) \<Rightarrow> Service \<Rightarrow> 'r REST
       \<Rightarrow> ((service_error + Service) \<times> Service \<times> bool \<times> portAllocationOperation \<times> 'r REST) option" where
  "create_body env rnd service rs =
     (let n = length (svc_Ports service)
      in case create_alloc_ip (rnd (n + 1)) service (rs_serviceIPs rs) of
           None \<Rightarrow> None
         | Some (Some err, svc1, rel, ips) \<Rightarrow> Some (Inl err, svc1, rel, StartOperation, rs\<lparr>rs_serviceIPs := ips\<rparr>)
         | Some (None, svc1, rel, ips) \<Rightarrow>
             (case create_ports (shouldAssignNodePorts svc1) rnd [0..<n] (svc_Ports svc1) Map.empty StartOperation (rs_serviceNodePorts rs) of
                None \<Rightarrow> None
              | Some (Some err, ps, op, pa) \<Rightarrow>
                  Some (Inl err, svc1\<lparr>svc_Ports := ps\<rparr>, rel, op, rs\<lparr>rs_serviceIPs := ips, rs_serviceNodePorts := pa\<rparr>)
              | Some (None, ps, op, pa) \<Rightarrow>
                  (case create_health env (rnd n) (svc1\<lparr>svc_Ports := ps\<rparr>) op pa of
                     None \<Rightarrow> None
                   | Some (Some err, svc2, op2, pa2) \<Rightarrow>
                       Some (Inl err, svc2, rel, op2, rs\<lparr>rs_serviceIPs := ips, rs_serviceNodePorts := pa2\<rparr>)
                   | Some (None, svc2, op2, pa2) \<Rightarrow>
                       create_store env svc2 rel op2 (rs\<lparr>rs_serviceIPs := ips, rs_serviceNodePorts := pa2\<rparr>))))"

text \<open>The deferred calls, last in, first out.\<close>

definition create_defers :: "Service \<Rightarrow> bool \<Rightarrow> portAllocationOperation \<Rightarrow> 'r REST \<Rightarrow> 'r REST option" where
  "create_defers service releaseServiceIP op rs =
     (case op_Finish pa_Release op (rs_serviceNodePorts rs) of
        None \<Rightarrow> None
      | Some pa \<Rightarrow>
          if releaseServiceIP \<and> IsServiceIPSet service then
            map_option (\<lambda>(_, ips). rs\<lparr>rs_serviceNodePorts := pa, rs_serviceIPs := ips\<rparr>)
              (r_Release (ParseIP (svc_ClusterIP service)) (rs_serviceIPs rs))
          else Some (rs\<lparr>rs_serviceNodePorts := pa\<rparr>))"

definition service_Create ::
    "'r api_env \<Rightarrow> (nat \<Rightarrow> nat) \<Rightarrow> Service \<Rightarrow> 'r REST \<Rightarrow> ((service_error + Service) \<times> 'r REST) option" where
  "service_Create env rnd obj rs =
     (case BeforeCreate env obj of
        Inl err \<Rightarrow> Some (Inl err, rs)
      | Inr service \<Rightarrow>
          (case create_body env rnd service rs of
             None \<Rightarrow> None
           | Some (res, service', releaseServiceIP, op, rs') \<Rightarrow>
               map_option (\<lambda>rs''. (res, rs'')) (create_defers service' releaseServiceIP op rs')))"

subsection \<open>Delete\<close>

definition IsNotFound :: "service_error \<Rightarrow> bool" where
  "IsNotFound err = (case err of NotFound _ \<Rightarrow> True | _ \<Rightarrow> False)"

definition delete_ports :: "'r api_env \<Rightarrow> Service \<Rightarrow> PortAllocator \<Rightarrow> PortAllocator option" where
  "delete_ports env service pa =
     (case release_all pa_Release (CollectServiceNodePorts service) [] pa of
        None \<Rightarrow> None
      | Some (_, pa1) \<Rightarrow>
          if shouldCheckOrAssignHealthCheckNodePort env service \<and> GetServiceHealthCheckNodePort service > 0
          then map_option snd (pa_Release (GetServiceHealthCheckNodePort service) pa1)
          else Some pa1)"

definition service_Delete :: "'r api_env \<Rightarrow> string \<Rightarrow> 'r REST \<Rightarrow> (service_error option \<times> 'r REST) option" where
  "service_Delete env name rs =
     (case GetService env name (rs_registry rs) of
        Inl err \<Rightarrow> Some (Some err, rs)
      | Inr service \<Rightarrow>
          (case DeleteService env name (rs_registry rs) of
             (Some err, reg) \<Rightarrow> Some (Some err, rs\<lparr>rs_registry := reg\<rparr>)
           | (None, reg) \<Rightarrow>
               (case DeleteEndpoints env name reg of
                  (err, reg') \<Rightarrow>
                    if err \<noteq> None \<and> \<not> IsNotFound (the err) then Some (err, rs\<lparr>rs_registry := reg'\<rparr>)
                    else
                      case (if IsServiceIPSet service then map_option snd (r_Release (ParseIP (svc_ClusterIP service)) (rs_serviceIPs rs))
                            else Some (rs_serviceIPs rs)) of
                        None \<Rightarrow> None
                      | Some ips \<Rightarrow>
                          map_option (\<lambda>pa. (None, rs\<lparr>rs_registry := reg', rs_serviceIPs := ips, rs_serviceNodePorts := pa\<rparr>))
                            (delete_ports env service (rs_serviceNodePorts rs)))))"

subsection \<open>Update\<close>

definition healthCheckNodePortUpdate ::
    "'r api_env \<Rightarrow> nat \<Rightarrow> Service \<Rightarrow> Service \<Rightarrow> PortAllocator \<Rightarrow> (service_error option \<times> Service \<times> PortAllocator) option" where
  "healthCheckNodePortUpdate env seed oldService service pa =
     (let oldHas = shouldCheckOrAssignHealthCheckNodePort env oldService;
          oldPort = GetServiceHealthCheckNodePort oldService;
          assign = shouldCheckOrAssignHealthCheckNodePort env service;
          requested = GetServiceHealthCheckNodePort service
      in if \<not> oldHas \<and> assign then
           (if requested > 0 then
              (case pa_Allocate requested pa of
                 None \<Rightarrow> None
               | Some (Some err, pa') \<Rightarrow> Some (Some (HealthCheckPortTaken requested err), service, pa')
               | Some (None, pa') \<Rightarrow> Some (None, service, pa'))
            else
              (case pa_AllocateNext seed pa of
                 (_, Some err, pa') \<Rightarrow> Some (Some (NodePortNotAllocated err), service, pa')
               | (port, None, pa') \<Rightarrow>
                   Some (None, service\<lparr>svc_Annotations := (svc_Annotations service)(BetaAnnotationHealthCheckNodePort \<mapsto> Itoa port)\<rparr>, pa')))
         else if oldHas \<and> \<not> assign then
           (case pa_Release oldPort pa of
              None \<Rightarrow> None
            | Some (Some err, pa') \<Rightarrow> Some (Some (HealthCheckPortNotFreed oldPort err), service, pa')
            | Some (None, pa') \<Rightarrow>
                Some (None, service\<lparr>svc_Annotations := (svc_Annotations service)
                        (BetaAnnotationHealthCheckNodePort := None, AlphaAnnotationHealthCheckNodePort := None)\<rparr>, pa'))
         else if \<not> oldHas \<and> \<not> assign then
           (if svc_Annotations service BetaAnnotationHealthCheckNodePort \<noteq> None
            then Some (Some (InvalidHealthCheckAnnotation ''Cannot insert healthcheck nodePort annotation''), service, pa)
            else Some (None, service, pa))
         else if svc_Annotations service BetaAnnotationHealthCheckNodePort = None
         then Some (Some (InvalidHealthCheckAnnotation ''Cannot delete healthcheck nodePort annotation''), service, pa)
         else if oldPort \<noteq> requested
         then Some (Some (InvalidHealthCheckAnnotation ''Cannot change healthcheck nodePort during update''), service, pa)
         else Some (None, service, pa))"

text \<open>The loop over the indices of the ports; a duplicate node port panics.\<close>

fun update_ports ::
    "(nat \<Rightarrow> nat) \<Rightarrow> int list \<Rightarrow> nat list \<Rightarrow> ServicePort list \<Rightarrow> int list \<Rightarrow> portAllocationOperation \<Rightarrow> PortAllocator
       \<Rightarrow> (service_error option \<times> ServicePort list \<times> int list \<times> portAllocationOperation \<times> PortAllocator) option" where
  "update_ports rnd old [] ps new op pa = Some (None, ps, new, op, pa)"
| "update_ports rnd old (i # is) ps new op pa =
     (let sp = ps ! i; nodePort = sp_NodePort sp
      in if nodePort \<noteq> 0 then
           (if nodePort \<notin> set old then
              (case op_Allocate pa_Allocate nodePort op pa of
                 None \<Rightarrow> None
               | Some (Some err, op', pa') \<Rightarrow> Some (Some (InvalidNodePort i nodePort err), ps, new, op', pa')
               | Some (None, op', pa') \<Rightarrow>
                   if nodePort \<in> set new then None else update_ports rnd old is ps (new @ [nodePort]) op' pa')
            else if nodePort \<in> set new then None
            else update_ports rnd old is ps (new @ [nodePort]) op pa)
         else
           (case op_AllocateNext pa_AllocateNext (rnd i) op pa of
              (_, Some err, op', pa') \<Rightarrow> Some (Some (NodePortNotAllocated err), ps, new, op', pa')
            | (np, None, op', pa') \<Rightarrow>
                if np \<in> set new then None
                else update_ports rnd old is (ps[i := sp\<lparr>sp_NodePort := wrap32 np\<rparr>]) (new @ [np]) op' pa'))"

definition defer_releases :: "int list \<Rightarrow> int list \<Rightarrow> portAllocationOperation \<Rightarrow> portAllocationOperation" where
  "defer_releases old new op =
     fold (\<lambda>oldNodePort op. if oldNodePort \<notin> set new then op else op_ReleaseDeferred oldNodePort op) old op"

text \<open>From the transaction on, up to the return; the deferred Finish follows.\<close>

definition update_body ::
    "'r api_env \<Rightarrow> (nat \<Rightarrow> nat) \<Rightarrow> Service \<Rightarrow> Service \<Rightarrow> 'r REST
       \<Rightarrow> ((service_error + Service) \<times> portAllocationOperation \<times> 'r REST) option" where
  "update_body env rnd oldService service rs =
     (let n = length (svc_Ports service); old = CollectServiceNodePorts oldService
      in case (if shouldAssignNodePorts service
               then update_ports rnd old [0..<n] (svc_Ports service) [] StartOperation (rs_serviceNodePorts rs)
               else Some (None, svc_Ports service, [], StartOperation, rs_serviceNodePorts rs)) of
           None \<Rightarrow> None
         | Some (Some err, _, _, op, pa) \<Rightarrow> Some (Inl err, op, rs\<lparr>rs_serviceNodePorts := pa\<rparr>)
         | Some (None, ps, new, op, pa) \<Rightarrow>
             (let op1 = defer_releases old new op;
                  svc1 = service\<lparr>svc_Ports := ps\<rparr>;
                  svc2 = (if svc_Type svc1 \<noteq> ServiceTypeLoadBalancer then svc1\<lparr>svc_LoadBalancer := []\<rparr> else svc1)
              in case healthCheckNodePortUpdate env (rnd n) oldService svc2 pa of
                   None \<Rightarrow> None
                 | Some (Some err, _, pa1) \<Rightarrow> Some (Inl err, op1, rs\<lparr>rs_serviceNodePorts := pa1\<rparr>)
                 | Some (None, svc3, pa1) \<Rightarrow>
                     (case UpdateService env svc3 (rs_registry rs) of
                        (Inl err, reg) \<Rightarrow> Some (Inl err, op1, rs\<lparr>rs_registry := reg, rs_serviceNodePorts := pa1\<rparr>)
                      | (Inr out, reg) \<Rightarrow>
                          (case op_Commit pa_Release op1 pa1 of
                             None \<Rightarrow> None
                           | Some (_, op2, pa2) \<Rightarrow> Some (Inr out, op2, rs\<lparr>rs_registry := reg, rs_serviceNodePorts := pa2\<rparr>)))))"

definition service_Update ::
    "'r api_env \<Rightarrow> string option \<Rightarrow> (nat \<Rightarrow> nat) \<Rightarrow> string \<Rightarrow> (Service \<Rightarrow> service_error + Service) \<Rightarrow> 'r REST
       \<Rightarrow> ((service_error + Service) \<times> 'r REST) option" where
  "service_Update env ctx rnd name updatedObject rs =
     (case GetService env name (rs_registry rs) of
        Inl err \<Rightarrow> Some (Inl err, rs)
      | Inr oldService \<Rightarrow>
          (case updatedObject oldService of
             Inl err \<Rightarrow> Some (Inl err, rs)
           | Inr service0 \<Rightarrow>
               (case ValidNamespace ctx service0 of
                  (ok, service) \<Rightarrow>
                    if \<not> ok then Some (Inl (NamespaceConflict (svc_Namespace service)), rs)
                    else case ValidateServiceUpdate env service oldService of
                           Some err \<Rightarrow> Some (Inl (RequestRejected err), rs)
                         | None \<Rightarrow>
                             (case update_body env rnd oldService service rs of
                                None \<Rightarrow> None
                              | Some (res, op, rs') \<Rightarrow>
                                  map_option (\<lambda>pa. (res, rs'\<lparr>rs_serviceNodePorts := pa\<rparr>))
                                    (op_Finish pa_Release op (rs_serviceNodePorts rs'))))))"

end
