(* ===== verification/ServiceAllocation.thy ===== *)
theory ServiceAllocation
  imports ServiceREST
begin

section \<open>What the service handlers allocate\<close>

text \<open>
  The proofs about the handlers of \<^verbatim>\<open>rest.go\<close>: what a creation, an update and a deletion leave
  allocated of the cluster IPs and the node ports, on success and on every error.
\<close>

subsection \<open>The transaction of a handler\<close>

text \<open>The transaction invariant, for a range that does not contain the number 0, which stands for no port.\<close>

definition tx_inv :: "PortRange \<Rightarrow> PortAllocator \<Rightarrow> portAllocationOperation \<Rightarrow> int set \<Rightarrow> bool" where
  "tx_inv pr pa op held \<longleftrightarrow> op_inv pa_ok pa_ports pa op held \<and> pa_portRange pa = pr \<and> range_ok pr \<and> 0 < pr_Base pr"

lemma tx_port:
  assumes "tx_inv pr pa op held" "port \<in> pa_ports pa"
  shows "0 < port" "wrap32 port = port"
proof -
  have "pr_Contains pr port" using assms pa_ports_in_range [of pa port] by (auto simp: tx_inv_def op_inv_def)
  then have "0 < port \<and> port \<le> 65535" using assms(1) by (simp add: tx_inv_def range_ok_def pr_Contains_def)
  then show "0 < port" "wrap32 port = port" by (auto simp: wrap32_id is_int32_def)
qed

lemma tx_start:
  assumes "pa_ok pa" "range_ok (pa_portRange pa)" "0 < pr_Base (pa_portRange pa)"
  shows "tx_inv (pa_portRange pa) pa StartOperation (pa_ports pa)"
  using assms by (simp add: tx_inv_def op_inv_def StartOperation_def)

lemma tx_Allocate:
  assumes "tx_inv pr pa op held"
  shows "\<exists>err op' pa'. op_Allocate pa_Allocate port op pa = Some (err, op', pa') \<and> tx_inv pr pa' op' held
    \<and> op_releaseDeferred op' = op_releaseDeferred op
    \<and> (if err = None then op_allocated op' = op_allocated op @ [port] \<and> 0 < port \<and> wrap32 port = port else op' = op)"
proof -
  have ok: "pa_ok pa" using assms by (simp add: tx_inv_def op_inv_def)
  obtain err pa' where a: "pa_Allocate port pa = Some (err, pa')" "pa_portRange pa' = pa_portRange pa"
      "pa_ports pa' = (if err = None then insert port (pa_ports pa) else pa_ports pa)"
    using pa_Allocate_law [OF ok, of port] by blast
  define op' where "op' = (if err = None then op\<lparr>op_allocated := op_allocated op @ [port]\<rparr> else op)"
  have o: "op_Allocate pa_Allocate port op pa = Some (err, op', pa')" by (simp add: op_Allocate_def a(1) op'_def)
  have inv: "tx_inv pr pa' op' held"
    using assms pi.op_Allocate_inv [OF _ o] a(2) by (simp add: tx_inv_def)
  have "err = None \<Longrightarrow> 0 < port \<and> wrap32 port = port" using tx_port [OF inv, of port] a(3) by auto
  then show ?thesis using o inv by (auto simp: op'_def)
qed

lemma tx_AllocateNext:
  assumes "tx_inv pr pa op held" "op_AllocateNext pa_AllocateNext seed op pa = (port, err, op', pa')"
  shows "tx_inv pr pa' op' held \<and> op_releaseDeferred op' = op_releaseDeferred op
    \<and> (if err = None then op_allocated op' = op_allocated op @ [port] \<and> 0 < port \<and> wrap32 port = port else op' = op)"
proof -
  have a: "pa_AllocateNext seed pa = (port, err, pa')" "op' = (if err = None then op\<lparr>op_allocated := op_allocated op @ [port]\<rparr> else op)"
    using assms(2) by (auto simp: op_AllocateNext_def split: prod.splits)
  have ok: "pa_ok pa" using assms by (simp add: tx_inv_def op_inv_def)
  note l = pa_AllocateNext_law [OF ok a(1)]
  have inv: "tx_inv pr pa' op' held" using assms(1) pi.op_AllocateNext_inv [OF _ assms(2)] l by (simp add: tx_inv_def)
  have "err = None \<Longrightarrow> 0 < port \<and> wrap32 port = port" using tx_port [OF inv, of port] l by auto
  then show ?thesis using inv a(2) by auto
qed

subsection \<open>The ports of a new service\<close>

definition node_ports :: "ServicePort list \<Rightarrow> int set" where
  "node_ports ps = sp_NodePort ` set ps - {0}"

lemma node_ports_snoc: "node_ports (ps @ [sp]) = (if sp_NodePort sp = 0 then node_ports ps else insert (sp_NodePort sp) (node_ports ps))"
  by (auto simp: node_ports_def)

lemma take_update: "i < length ps \<Longrightarrow> take (Suc i) (ps[i := sp]) = take i ps @ [sp]"
  by (simp add: take_Suc_conv_app_nth)

lemma findRequestedNodePort_0:
  "findRequestedNodePort (sp_Port sp) ps = 0 \<Longrightarrow> sp \<in> set ps \<Longrightarrow> sp_NodePort sp = 0"
proof -
  assume "findRequestedNodePort (sp_Port sp) ps = 0" "sp \<in> set ps"
  then show ?thesis
    by (cases "List.find (\<lambda>q. sp_Port sp = sp_Port q \<and> sp_NodePort q \<noteq> 0) ps")
      (auto simp: findRequestedNodePort_def find_None_iff find_Some_iff)
qed

lemma create_ports_inv:
  assumes "tx_inv pr pa op held" "is = [i..<length ps]" "i \<le> length ps"
    "node_ports (take i ps) = set (op_allocated op)" "ran m \<subseteq> set (op_allocated op)"
  shows "\<exists>err ps' op' pa'. create_ports assign rnd is ps m op pa = Some (err, ps', op', pa') \<and> tx_inv pr pa' op' held
    \<and> op_releaseDeferred op' = op_releaseDeferred op \<and> (err = None \<longrightarrow> node_ports ps' = set (op_allocated op'))"
  using assms
proof (induction "is" arbitrary: i ps m op pa)
  case Nil
  then have "take i ps = ps" using upt_eq_Nil_conv [of i "length ps"] by auto
  then show ?case using Nil by simp
next
  case (Cons i0 "is")
  let ?P = "\<lambda>r op. \<exists>err ps' op' pa'. r = Some (err, ps', op', pa') \<and> tx_inv pr pa' op' held
    \<and> op_releaseDeferred op' = op_releaseDeferred op \<and> (err = None \<longrightarrow> node_ports ps' = set (op_allocated op'))"
  have i: "i0 = i" "i < length ps" "is = [Suc i..<length ps]"
    using Cons.prems(2) [symmetric] by (auto simp: upt_eq_Cons_conv)
  define sp where "sp = ps ! i"
  have sp: "sp \<in> set ps" "take (Suc i) ps = take i ps @ [sp]" using i(2) by (simp_all add: sp_def take_Suc_conv_app_nth)
  note taken = Cons.prems(4)
  have go: "?P (create_ports assign rnd is ps' m' op' pa') op"
    if "tx_inv pr pa' op' held" "op_releaseDeferred op' = op_releaseDeferred op" "length ps' = length ps"
      "node_ports (take (Suc i) ps') = set (op_allocated op')" "ran m' \<subseteq> set (op_allocated op')" for ps' m' op' pa'
    using Cons.IH [OF that(1), of "Suc i" ps' m'] that i by simp
  have keep: "?P (create_ports assign rnd is ps m op pa) op" if "sp_NodePort sp = 0 \<or> sp_NodePort sp \<in> set (op_allocated op)"
    using that taken Cons.prems(1,5) by (intro go) (auto simp: sp(2) node_ports_snoc)
  have set: "?P (create_ports assign rnd is (ps[i := sp\<lparr>sp_NodePort := wrap32 np\<rparr>]) m' op' pa') op"
    if "tx_inv pr pa' op' held" "op_releaseDeferred op' = op_releaseDeferred op" "wrap32 np = np" "0 < np" "ran m' \<subseteq> set (op_allocated op')"
      "set (op_allocated op') = insert np (set (op_allocated op))" for np m' op' pa'
    using that taken i(2) by (intro go) (auto simp: take_update node_ports_snoc)
  have m: "n \<in> set (op_allocated op) \<and> 0 < n \<and> wrap32 n = n" if "m (sp_Port sp) = Some n" for n
  proof -
    have n: "n \<in> set (op_allocated op)" using that Cons.prems(5) by (auto simp: ran_def)
    then have "n \<in> pa_ports pa" using Cons.prems(1) by (auto simp: tx_inv_def op_inv_def)
    then show ?thesis using n tx_port [OF Cons.prems(1)] by blast
  qed
  have ran: "ran (m(k \<mapsto> n)) \<subseteq> insert n (set (op_allocated op))" for k n
    using Cons.prems(5) by (auto simp: ran_def)
  show ?case
  proof (cases "m (sp_Port sp)")
    case (Some n)
    show ?thesis
    proof (cases "sp_NodePort sp = n")
      case True
      then show ?thesis using Some m [OF Some] keep by (simp add: i(1) Let_def flip: sp_def)
    next
      case diff: False
      show ?thesis
      proof (cases "sp_NodePort sp = 0")
        case True
        then show ?thesis
          using Some m [OF Some] diff set [OF Cons.prems(1), of n m] Cons.prems(5) by (auto simp: i(1) Let_def insert_absorb simp flip: sp_def)
      next
        case False
        obtain err op' pa' where a: "op_Allocate pa_Allocate (sp_NodePort sp) op pa = Some (err, op', pa')" "tx_inv pr pa' op' held"
            "op_releaseDeferred op' = op_releaseDeferred op"
            "if err = None then op_allocated op' = op_allocated op @ [sp_NodePort sp] \<and> 0 < sp_NodePort sp \<and> wrap32 (sp_NodePort sp) = sp_NodePort sp else op' = op"
          using tx_Allocate [OF Cons.prems(1)] by blast
        show ?thesis
        proof (cases err)
          case None
          have "?P (create_ports assign rnd is ps m op' pa') op"
            using a None False taken Cons.prems(5) by (intro go) (auto simp: sp(2) node_ports_snoc)
          then show ?thesis using Some m [OF Some] diff False None a(1) by (simp add: i(1) Let_def flip: sp_def)
        next
          case (Some e)
          then show ?thesis using \<open>m (sp_Port sp) = Some n\<close> m diff False a by (simp add: i(1) Let_def flip: sp_def)
        qed
      qed
    qed
  next
    case None
    define np where "np = findRequestedNodePort (sp_Port sp) ps"
    show ?thesis
    proof (cases "np = 0")
      case True
      show ?thesis
      proof (cases assign)
        case False
        have "sp_NodePort sp = 0" using True findRequestedNodePort_0 sp(1) by (simp add: np_def)
        then show ?thesis using None True False keep by (simp add: i(1) Let_def flip: sp_def np_def)
      next
        case assign: True
        obtain port err op' pa' where n: "op_AllocateNext pa_AllocateNext (rnd i) op pa = (port, err, op', pa')" by (metis prod_cases4)
        note l = tx_AllocateNext [OF Cons.prems(1) n]
        show ?thesis
        proof (cases err)
          case e: None
          have "?P (create_ports assign rnd is (ps[i := sp\<lparr>sp_NodePort := wrap32 port\<rparr>]) (m(sp_Port sp \<mapsto> port)) op' pa') op"
            using l e ran [of "sp_Port sp" port] by (intro set) auto
          then show ?thesis using None True assign n e by (simp add: i(1) Let_def flip: sp_def np_def)
        next
          case (Some e)
          then show ?thesis using None True assign n l by (auto simp: i(1) Let_def simp flip: sp_def np_def)
        qed
      qed
    next
      case False
      obtain err op' pa' where a: "op_Allocate pa_Allocate np op pa = Some (err, op', pa')" "tx_inv pr pa' op' held"
          "op_releaseDeferred op' = op_releaseDeferred op"
          "if err = None then op_allocated op' = op_allocated op @ [np] \<and> 0 < np \<and> wrap32 np = np else op' = op"
        using tx_Allocate [OF Cons.prems(1)] by blast
      show ?thesis
      proof (cases err)
        case e: None
        have "?P (create_ports assign rnd is (ps[i := sp\<lparr>sp_NodePort := wrap32 np\<rparr>]) (m(sp_Port sp \<mapsto> np)) op' pa') op"
          using a e ran [of "sp_Port sp" np] by (intro set) auto
        then show ?thesis using None False a(1) e by (simp add: i(1) Let_def flip: sp_def np_def)
      next
        case (Some e)
        then show ?thesis using None False a by (simp add: i(1) Let_def flip: sp_def np_def)
      qed
    qed
  qed
qed

subsection \<open>The cluster IP of a new service\<close>

definition cluster_ips :: "Service \<Rightarrow> nat set" where
  "cluster_ips service = (if IsServiceIPSet service then {ip_num (ParseIP (svc_ClusterIP service))} else {})"

lemma ip_String_set:
  assumes "length addr = 4"
  shows "ip_num (ParseIP (ip_String addr)) = ip_num addr" "ip_String addr \<noteq> ''''" "ip_String addr \<noteq> ''None''"
proof -
  obtain a b c d where addr: "addr = [a, b, c, d]" using assms by (auto simp: length_Suc_conv numeral_eq_Suc)
  have u: "uitoa a \<noteq> []" "is_digit (hd (uitoa a))"
    using digits_decimal [of "unat a"] by (auto simp: uitoa_def list_all_iff)
  then show "ip_String addr \<noteq> ''''" by (simp add: addr ip_String_def To4_def)
  have "hd (ip_String addr) = hd (uitoa a)" using u by (simp add: addr ip_String_def To4_def)
  moreover have "\<not> is_digit (CHR ''N'')" by (simp add: is_digit_iff)
  ultimately show "ip_String addr \<noteq> ''None''" using u(2) by (metis list.sel(1))
  show "ip_num (ParseIP (ip_String addr)) = ip_num addr"
    by (simp add: addr ParseIP_String ip_num_def To4_def v4InV6Prefix_def)
qed

lemma create_alloc_ip_law:
  assumes ok: "r_ok ips ones"
  shows "\<exists>err service' rel ips'. create_alloc_ip seed service ips = Some (err, service', rel, ips') \<and> r_ok ips' ones
    \<and> (\<exists>addr. service' = service\<lparr>svc_ClusterIP := addr\<rparr>)
    \<and> (if err = None then rel = IsServiceIPSet service' \<and> cluster_ips service' \<inter> r_ips ips = {} \<and> r_ips ips' = r_ips ips \<union> cluster_ips service'
       else \<not> rel \<and> r_ips ips' = r_ips ips)"
proof (cases "IsServiceIPRequested service")
  case True
  obtain addr err ips' where n: "r_AllocateNext seed ips = (addr, err, ips')" by (metis prod_cases3)
  note l = r_AllocateNext_law [OF ok n]
  show ?thesis
  proof (cases err)
    case None
    define service' where "service' = service\<lparr>svc_ClusterIP := ip_String addr\<rparr>"
    have len: "length addr = 4" using l None by simp
    have "IsServiceIPSet service'" "cluster_ips service' = {ip_num addr}"
      using ip_String_set [OF len] by (simp_all add: service'_def IsServiceIPSet_def cluster_ips_def)
    moreover have "create_alloc_ip seed service ips = Some (None, service', True, ips')"
      using True n None by (simp add: create_alloc_ip_def service'_def)
    ultimately show ?thesis using l None service'_def by auto
  next
    case (Some e)
    have "\<exists>addr. service = service\<lparr>svc_ClusterIP := addr\<rparr>" by (rule exI [of _ "svc_ClusterIP service"]) simp
    moreover have "create_alloc_ip seed service ips = Some (Some (IPNotAllocated e), service, False, ips')"
      using True n Some by (simp add: create_alloc_ip_def)
    ultimately show ?thesis using l Some by auto
  qed
next
  case False
  have self: "\<exists>addr. service = service\<lparr>svc_ClusterIP := addr\<rparr>" by (rule exI [of _ "svc_ClusterIP service"]) simp
  show ?thesis
  proof (cases "IsServiceIPSet service")
    case set: True
    let ?a = "ParseIP (svc_ClusterIP service)"
    obtain err ips' where a: "r_Allocate ?a ips = Some (err, ips')" "r_ok ips' ones"
        "err = (if \<not> fst (r_contains ips ?a) then Some IPErrNotInRange else if ip_num ?a \<in> r_ips ips then Some IPErrAllocated else None)"
        "r_ips ips' = (if err = None then insert (ip_num ?a) (r_ips ips) else r_ips ips)"
      using r_Allocate_law [OF ok, of ?a] by blast
    show ?thesis
    proof (cases err)
      case None
      then have "ip_num ?a \<notin> r_ips ips" using a(3) by (auto split: if_splits)
      then show ?thesis using False set self a None by (auto simp: create_alloc_ip_def cluster_ips_def)
    next
      case (Some e)
      then show ?thesis using False set self a(1,2,4) by (auto simp: create_alloc_ip_def)
    qed
  next
    case unset: False
    then show ?thesis using False self ok by (auto simp: create_alloc_ip_def cluster_ips_def)
  qed
qed

subsection \<open>The health check port\<close>

definition health_ports :: "'r api_env \<Rightarrow> Service \<Rightarrow> int set" where
  "health_ports env service =
     (if shouldCheckOrAssignHealthCheckNodePort env service \<and> GetServiceHealthCheckNodePort service > 0
      then {GetServiceHealthCheckNodePort service} else {})"

lemma annotation_names:
  "AlphaAnnotationExternalTraffic \<noteq> BetaAnnotationHealthCheckNodePort" "BetaAnnotationExternalTraffic \<noteq> BetaAnnotationHealthCheckNodePort"
  "AlphaAnnotationHealthCheckNodePort \<noteq> BetaAnnotationHealthCheckNodePort"
  by (simp_all add: AlphaAnnotationExternalTraffic_def BetaAnnotationHealthCheckNodePort_def BetaAnnotationExternalTraffic_def
      AlphaAnnotationHealthCheckNodePort_def)

lemma needs_health_check_upd: "k \<notin> set ks \<Longrightarrow> needs_health_check (as(k := v)) ks = needs_health_check as ks"
  by (induction ks) (auto split: option.splits)

lemma GetServiceHealthCheckNodePort_beta:
  assumes "NeedsHealthCheck service" "svc_Annotations service AlphaAnnotationHealthCheckNodePort = None"
    "svc_Annotations service BetaAnnotationHealthCheckNodePort = Some l" "ParseInt64 l = Some p"
  shows "GetServiceHealthCheckNodePort service = wrap32 p"
  using assms by (simp add: GetServiceHealthCheckNodePort_def)

lemma create_health_law:
  assumes inv: "tx_inv pr pa op held" and alpha: "svc_Annotations service AlphaAnnotationHealthCheckNodePort = None"
  shows "\<exists>err service' op' pa'. create_health env seed service op pa = Some (err, service', op', pa') \<and> tx_inv pr pa' op' held
    \<and> op_releaseDeferred op' = op_releaseDeferred op \<and> (\<exists>as. service' = service\<lparr>svc_Annotations := as\<rparr>)
    \<and> (err = None \<longrightarrow> set (op_allocated op') = set (op_allocated op) \<union> health_ports env service')"
proof (cases "shouldCheckOrAssignHealthCheckNodePort env service")
  case False
  have self: "\<exists>as. service = service\<lparr>svc_Annotations := as\<rparr>" by (rule exI [of _ "svc_Annotations service"]) simp
  then show ?thesis using False inv by (simp add: create_health_def health_ports_def)
next
  case True
  have self: "\<exists>as. service = service\<lparr>svc_Annotations := as\<rparr>" by (rule exI [of _ "svc_Annotations service"]) simp
  have needs: "NeedsHealthCheck service" using True by (auto simp: shouldCheckOrAssignHealthCheckNodePort_def split: if_splits)
  show ?thesis
  proof (cases "svc_Annotations service BetaAnnotationHealthCheckNodePort")
    case (Some l)
    show ?thesis
    proof (cases "ParseInt64 l = None \<or> the (ParseInt64 l) \<le> 0")
      case bad: True
      then show ?thesis using True Some inv self by (cases "ParseInt64 l") (simp_all add: create_health_def)
    next
      case False
      then obtain p where p: "ParseInt64 l = Some p" "\<not> p \<le> 0" by auto
      obtain err op' pa' where a: "op_Allocate pa_Allocate p op pa = Some (err, op', pa')" "tx_inv pr pa' op' held"
          "op_releaseDeferred op' = op_releaseDeferred op"
          "if err = None then op_allocated op' = op_allocated op @ [p] \<and> 0 < p \<and> wrap32 p = p else op' = op"
        using tx_Allocate [OF inv] by blast
      show ?thesis
      proof (cases err)
        case None
        then have "health_ports env service = {p}"
          using GetServiceHealthCheckNodePort_beta [OF needs alpha Some p(1)] True a(4) by (simp add: health_ports_def)
        then show ?thesis using True Some p a None self by (simp add: create_health_def)
      next
        case e: (Some e)
        then show ?thesis using True Some p a self by (simp add: create_health_def)
      qed
    qed
  next
    case None
    obtain port err op' pa' where n: "op_AllocateNext pa_AllocateNext seed op pa = (port, err, op', pa')" by (metis prod_cases4)
    note l = tx_AllocateNext [OF inv n]
    show ?thesis
    proof (cases err)
      case e: None
      define service' where "service' = service\<lparr>svc_Annotations := (svc_Annotations service)(BetaAnnotationHealthCheckNodePort \<mapsto> Itoa port)\<rparr>"
      have "BetaAnnotationHealthCheckNodePort \<notin> set [AlphaAnnotationExternalTraffic, BetaAnnotationExternalTraffic]"
        using annotation_names by auto
      then have needs': "NeedsHealthCheck service'"
        using needs by (simp add: service'_def NeedsHealthCheck_def needs_health_check_upd del: needs_health_check.simps)
      have "is_int64 port" using l e wrap32_range [of port] by (auto simp: is_int32_def is_int64_def)
      then have "GetServiceHealthCheckNodePort service' = wrap32 port"
        using alpha by (intro GetServiceHealthCheckNodePort_beta [OF needs', of "Itoa port"])
          (simp_all add: service'_def annotation_names ParseInt64_Itoa)
      moreover have "shouldCheckOrAssignHealthCheckNodePort env service'"
        using True needs' by (simp add: shouldCheckOrAssignHealthCheckNodePort_def service'_def split: if_splits)
      ultimately have "health_ports env service' = {port}" using l e by (simp add: health_ports_def)
      moreover have "create_health env seed service op pa = Some (None, service', op', pa')"
        using True None n e by (simp add: create_health_def service'_def)
      ultimately show ?thesis using l e service'_def by auto
    next
      case (Some e)
      then show ?thesis using True None n l self by (auto simp: create_health_def)
    qed
  qed
qed

subsection \<open>The end of a transaction\<close>

lemma release_all_range:
  "pa_ok pa \<Longrightarrow> release_all pa_Release ports errs pa = Some (errs', pa') \<Longrightarrow> pa_portRange pa' = pa_portRange pa"
proof (induction ports arbitrary: pa)
  case (Cons port ports)
  obtain pa1 where "pa_Release port pa = Some (None, pa1)" "pa_ok pa1" "pa_portRange pa1 = pa_portRange pa"
    using pa_Release_law [OF Cons.prems(1)] by blast
  then show ?case using Cons by simp
qed simp

lemma tx_Finish:
  assumes "tx_inv pr pa op held"
  shows "\<exists>pa'. op_Finish pa_Release op pa = Some pa' \<and> pa_ok pa' \<and> pa_ports pa' = held \<and> pa_portRange pa' = pr"
proof -
  have inv: "op_inv pa_ok pa_ports pa op held" "pa_ok pa" "op_shouldRollback op" "pa_portRange pa = pr"
    using assms by (auto simp: tx_inv_def op_inv_def)
  obtain pa' where f: "op_Finish pa_Release op pa = Some pa'" "pa_ok pa'" "pa_ports pa' = held"
    using pi.op_Finish_law [OF inv(1)] by blast
  then obtain errs where "release_all pa_Release (op_allocated op) [] pa = Some (errs, pa')"
    using inv(3) by (auto simp: op_Finish_def op_Rollback_def)
  then show ?thesis using f release_all_range [OF inv(2)] inv(4) by simp
qed

lemma tx_Commit:
  assumes "tx_inv pr pa op held"
  shows "\<exists>op' pa'. op_Commit pa_Release op pa = Some ([], op', pa') \<and> pa_ok pa' \<and> pa_portRange pa' = pr
    \<and> pa_ports pa' = (held \<union> set (op_allocated op)) - set (op_releaseDeferred op) \<and> op_Finish pa_Release op' pa' = Some pa'"
proof -
  have inv: "op_inv pa_ok pa_ports pa op held" "pa_ok pa" "pa_portRange pa = pr" using assms by (auto simp: tx_inv_def op_inv_def)
  obtain op' pa' where c: "op_Commit pa_Release op pa = Some ([], op', pa')" "pa_ok pa'"
      "pa_ports pa' = (held \<union> set (op_allocated op)) - set (op_releaseDeferred op)" "op_Finish pa_Release op' pa' = Some pa'"
    using pi.op_Commit_law [OF inv(1)] by blast
  then obtain errs where "release_all pa_Release (op_releaseDeferred op) [] pa = Some (errs, pa')"
    by (auto simp: op_Commit_def)
  then show ?thesis using c release_all_range [OF inv(2)] inv(3) by auto
qed

subsection \<open>Create and Delete\<close>

definition rest_ok :: "'r REST \<Rightarrow> nat \<Rightarrow> bool" where
  "rest_ok rs ones \<longleftrightarrow> pa_ok (rs_serviceNodePorts rs) \<and> range_ok (pa_portRange (rs_serviceNodePorts rs))
     \<and> 0 < pr_Base (pa_portRange (rs_serviceNodePorts rs)) \<and> r_ok (rs_serviceIPs rs) ones"

definition used_ports :: "'r REST \<Rightarrow> int set" where
  "used_ports rs = pa_ports (rs_serviceNodePorts rs)"

definition used_ips :: "'r REST \<Rightarrow> nat set" where
  "used_ips rs = r_ips (rs_serviceIPs rs)"

text \<open>The ports that a service holds.\<close>

definition service_ports :: "'r api_env \<Rightarrow> Service \<Rightarrow> int set" where
  "service_ports env service = set (CollectServiceNodePorts service) \<union> health_ports env service"

lemma Collect_node_ports: "set (CollectServiceNodePorts service) = node_ports (svc_Ports service)"
  by (auto simp: CollectServiceNodePorts_def node_ports_def)

lemma rest_tx:
  "rest_ok rs ones \<Longrightarrow> tx_inv (pa_portRange (rs_serviceNodePorts rs)) (rs_serviceNodePorts rs) StartOperation (used_ports rs)"
  using tx_start by (simp add: rest_ok_def used_ports_def)

text \<open>
  What the body of Create leaves to the deferred calls: the transaction holds the new ports,
  \<open>held\<close> are those allocated before; the range is the one before with the cluster IP of the
  service, which is to be released when \<open>rel\<close> is set.
\<close>

definition create_pending ::
    "PortRange \<Rightarrow> nat \<Rightarrow> int set \<Rightarrow> nat set \<Rightarrow> Service \<Rightarrow> bool \<Rightarrow> portAllocationOperation \<Rightarrow> 'r REST \<Rightarrow> bool" where
  "create_pending pr ones held ips service rel op rs \<longleftrightarrow>
     tx_inv pr (rs_serviceNodePorts rs) op held \<and> r_ok (rs_serviceIPs rs) ones
     \<and> (if rel then IsServiceIPSet service \<and> cluster_ips service \<inter> ips = {} \<and> used_ips rs = ips \<union> cluster_ips service
        else used_ips rs = ips)"

lemma create_defers_pending:
  assumes "create_pending pr ones held ips service rel op rs"
  shows "\<exists>rs'. create_defers service rel op rs = Some rs' \<and> rest_ok rs' ones \<and> used_ports rs' = held \<and> used_ips rs' = ips"
proof -
  have tx: "tx_inv pr (rs_serviceNodePorts rs) op held" and r: "r_ok (rs_serviceIPs rs) ones"
    using assms by (auto simp: create_pending_def)
  obtain pa where pa: "op_Finish pa_Release op (rs_serviceNodePorts rs) = Some pa" "pa_ok pa" "pa_ports pa = held" "pa_portRange pa = pr"
    using tx_Finish [OF tx] by blast
  have pr: "range_ok pr" "0 < pr_Base pr" using tx by (auto simp: tx_inv_def)
  show ?thesis
  proof (cases rel)
    case False
    then show ?thesis
      using pa pr r assms by (simp add: create_defers_def create_pending_def rest_ok_def used_ports_def used_ips_def)
  next
    case True
    then have s: "IsServiceIPSet service" "cluster_ips service \<inter> ips = {}" "r_ips (rs_serviceIPs rs) = ips \<union> cluster_ips service"
      using assms by (auto simp: create_pending_def used_ips_def)
    obtain ips' where i: "r_Release (ParseIP (svc_ClusterIP service)) (rs_serviceIPs rs) = Some (None, ips')" "r_ok ips' ones"
        "r_ips ips' = r_ips (rs_serviceIPs rs) - {ip_num (ParseIP (svc_ClusterIP service))}"
      using r_Release_law [OF r] by blast
    have "r_ips ips' = ips" using i(3) s by (auto simp: cluster_ips_def)
    then show ?thesis
      using True s(1) pa pr i by (simp add: create_defers_def rest_ok_def used_ports_def used_ips_def)
  qed
qed

text \<open>
  What the handlers rely on: a service that passes the checks before its creation has no alpha
  annotation of the health check port, and the registry returns the service it stored.
\<close>

definition checks_reject_alpha :: "'r api_env \<Rightarrow> bool" where
  "checks_reject_alpha env \<longleftrightarrow>
     (\<forall>obj service. BeforeCreate env obj = Inr service \<longrightarrow> svc_Annotations service AlphaAnnotationHealthCheckNodePort = None)"

definition create_returns_stored :: "'r api_env \<Rightarrow> bool" where
  "create_returns_stored env \<longleftrightarrow> (\<forall>service reg out reg'. CreateService env service reg = (Inr out, reg') \<longrightarrow> out = service)"

definition created ::
    "'r api_env \<Rightarrow> nat \<Rightarrow> int set \<Rightarrow> nat set \<Rightarrow> Service \<Rightarrow> 'r REST \<Rightarrow> bool" where
  "created env ones held ips out rs \<longleftrightarrow> rest_ok rs ones
     \<and> service_ports env out \<inter> held = {} \<and> used_ports rs = held \<union> service_ports env out
     \<and> cluster_ips out \<inter> ips = {} \<and> used_ips rs = ips \<union> cluster_ips out"

lemma create_store_law:
  assumes ret: "create_returns_stored env" and tx: "tx_inv pr (rs_serviceNodePorts rs) op held" and r: "r_ok (rs_serviceIPs rs) ones"
    and none: "op_releaseDeferred op = []" and all: "set (op_allocated op) = service_ports env service"
    and rel: "rel = IsServiceIPSet service" "cluster_ips service \<inter> ips = {}" "used_ips rs = ips \<union> cluster_ips service"
  shows "\<exists>res rel' op' rs'. create_store env service rel op rs = Some (res, service, rel', op', rs')
    \<and> (case res of Inl _ \<Rightarrow> create_pending pr ones held ips service rel' op' rs'
        | Inr out \<Rightarrow> create_defers service rel' op' rs' = Some rs' \<and> created env ones held ips out rs')"
proof -
  obtain res reg where c: "CreateService env service (rs_registry rs) = (res, reg)" by fastforce
  show ?thesis
  proof (cases res)
    case (Inl err)
    have "cluster_ips service = {}" if "\<not> IsServiceIPSet service" using that by (simp add: cluster_ips_def)
    then have "create_pending pr ones held ips service rel op (rs\<lparr>rs_registry := reg\<rparr>)"
      using tx r rel by (auto simp: create_pending_def used_ips_def)
    then show ?thesis using c Inl by (simp add: create_store_def)
  next
    case (Inr out)
    then have out: "out = service" using ret c unfolding create_returns_stored_def by blast
    obtain op' pa where m: "op_Commit pa_Release op (rs_serviceNodePorts rs) = Some ([], op', pa)" "pa_ok pa" "pa_portRange pa = pr"
        "pa_ports pa = held \<union> service_ports env service" "op_Finish pa_Release op' pa = Some pa"
      using tx_Commit [OF tx] none all by auto
    let ?rs = "rs\<lparr>rs_registry := reg, rs_serviceNodePorts := pa\<rparr>"
    have "service_ports env service \<inter> held = {}" using tx all by (auto simp: tx_inv_def op_inv_def)
    then have "created env ones held ips out ?rs"
      using m rel tx r by (simp add: created_def out rest_ok_def tx_inv_def used_ports_def used_ips_def)
    moreover have "create_defers service False op' ?rs = Some ?rs" using m(5) by (simp add: create_defers_def)
    ultimately show ?thesis using c Inr m(1) by (auto simp: create_store_def)
  qed
qed

lemma create_body_law:
  assumes ok: "rest_ok rs ones" and alpha: "svc_Annotations service AlphaAnnotationHealthCheckNodePort = None"
    and ret: "create_returns_stored env"
  shows "\<exists>res service' rel op rs'. create_body env rnd service rs = Some (res, service', rel, op, rs')
    \<and> (case res of Inl _ \<Rightarrow> create_pending (pa_portRange (rs_serviceNodePorts rs)) ones (used_ports rs) (used_ips rs) service' rel op rs'
        | Inr out \<Rightarrow> create_defers service' rel op rs' = Some rs' \<and> created env ones (used_ports rs) (used_ips rs) out rs')"
proof -
  let ?pr = "pa_portRange (rs_serviceNodePorts rs)" and ?held = "used_ports rs" and ?ips = "used_ips rs"
  let ?n = "length (svc_Ports service)"
  have r: "r_ok (rs_serviceIPs rs) ones" using ok by (simp add: rest_ok_def)
  from create_alloc_ip_law [OF r, of "rnd (?n + 1)" service, folded used_ips_def]
  obtain err svc1 rel ips addr where ip: "create_alloc_ip (rnd (?n + 1)) service (rs_serviceIPs rs) = Some (err, svc1, rel, ips)" "r_ok ips ones"
      "svc1 = service\<lparr>svc_ClusterIP := addr\<rparr>"
      "if err = None then rel = IsServiceIPSet svc1 \<and> cluster_ips svc1 \<inter> ?ips = {} \<and> r_ips ips = ?ips \<union> cluster_ips svc1
       else \<not> rel \<and> r_ips ips = ?ips"
    by (elim exE conjE) (rule that)
  note svc1 = ip(3)
  have tx0: "tx_inv ?pr (rs_serviceNodePorts rs) StartOperation ?held" by (rule rest_tx [OF ok])
  have pend: "create_pending ?pr ones ?held ?ips s rel op (rs\<lparr>rs_serviceIPs := ips, rs_serviceNodePorts := pa\<rparr>)"
    if "tx_inv ?pr pa op ?held" "svc_ClusterIP s = addr" "err = None" for s op pa
  proof -
    have same: "IsServiceIPSet s = IsServiceIPSet svc1" "cluster_ips s = cluster_ips svc1"
      using that(2) by (simp_all add: svc1 IsServiceIPSet_def cluster_ips_def)
    have "cluster_ips svc1 = {}" if "\<not> IsServiceIPSet svc1" using that by (simp add: cluster_ips_def)
    then show ?thesis using that same ip(2,4) by (auto simp: create_pending_def used_ips_def)
  qed
  show ?thesis
  proof (cases err)
    case (Some e)
    then have "create_pending ?pr ones ?held ?ips svc1 rel StartOperation (rs\<lparr>rs_serviceIPs := ips\<rparr>)"
      using tx0 ip(2,4) by (simp add: create_pending_def used_ips_def)
    then show ?thesis using ip(1) Some by (simp add: create_body_def Let_def)
  next
    case noerr: None
    obtain err1 ps op pa where p: "create_ports (shouldAssignNodePorts svc1) rnd [0..<?n] (svc_Ports svc1) Map.empty StartOperation
          (rs_serviceNodePorts rs) = Some (err1, ps, op, pa)" "tx_inv ?pr pa op ?held" "op_releaseDeferred op = []"
        "err1 = None \<longrightarrow> node_ports ps = set (op_allocated op)"
      using create_ports_inv [OF tx0, of "[0..<?n]" 0 "svc_Ports svc1" Map.empty "shouldAssignNodePorts svc1" rnd]
      by (auto simp: svc1 node_ports_def StartOperation_def)
    show ?thesis
    proof (cases err1)
      case (Some e)
      then show ?thesis using ip(1) noerr p(1) pend [OF p(2), of "svc1\<lparr>svc_Ports := ps\<rparr>"] by (simp add: create_body_def Let_def svc1)
    next
      case None
      let ?s = "svc1\<lparr>svc_Ports := ps\<rparr>"
      have "svc_Annotations ?s AlphaAnnotationHealthCheckNodePort = None" using alpha by (simp add: svc1)
      from create_health_law [OF p(2) this, of env "rnd ?n"]
      obtain err2 svc2 op2 pa2 as where h: "create_health env (rnd ?n) ?s op pa = Some (err2, svc2, op2, pa2)" "tx_inv ?pr pa2 op2 ?held"
          "op_releaseDeferred op2 = op_releaseDeferred op" "svc2 = ?s\<lparr>svc_Annotations := as\<rparr>"
          "err2 = None \<longrightarrow> set (op_allocated op2) = set (op_allocated op) \<union> health_ports env svc2"
        by (elim exE conjE) (rule that)
      have s2: "svc_ClusterIP svc2 = addr" "svc_Ports svc2 = ps" by (simp_all add: h(4) svc1)
      show ?thesis
      proof (cases err2)
        case (Some e)
        then show ?thesis using ip(1) noerr p(1) None h(1) pend [OF h(2) s2(1)] by (simp add: create_body_def Let_def)
      next
        case n2: None
        let ?rs = "rs\<lparr>rs_serviceIPs := ips, rs_serviceNodePorts := pa2\<rparr>"
        have all: "set (op_allocated op2) = service_ports env svc2"
          using h(5) n2 p(4) None by (simp add: service_ports_def Collect_node_ports s2(2))
        have same: "IsServiceIPSet svc2 = IsServiceIPSet svc1" "cluster_ips svc2 = cluster_ips svc1"
          using s2(1) by (simp_all add: svc1 IsServiceIPSet_def cluster_ips_def)
        have "\<exists>res rel' op' rs'. create_store env svc2 rel op2 ?rs = Some (res, svc2, rel', op', rs')
            \<and> (case res of Inl _ \<Rightarrow> create_pending ?pr ones ?held ?ips svc2 rel' op' rs'
                | Inr out \<Rightarrow> create_defers svc2 rel' op' rs' = Some rs' \<and> created env ones ?held ?ips out rs')"
          using h(2,3) p(3) ip(2,4) noerr same by (intro create_store_law [OF ret _ _ _ all]) (simp_all add: used_ips_def)
        then show ?thesis using ip(1) noerr p(1) None h(1) n2 by (auto simp: create_body_def Let_def)
      qed
    qed
  qed
qed

lemma delete_ports_law:
  assumes "pa_ok pa"
  shows "\<exists>pa'. delete_ports env service pa = Some pa' \<and> pa_ok pa' \<and> pa_portRange pa' = pa_portRange pa
    \<and> pa_ports pa' = pa_ports pa - service_ports env service"
proof -
  obtain pa1 where 1: "release_all pa_Release (CollectServiceNodePorts service) [] pa = Some ([], pa1)" "pa_ok pa1"
      "pa_ports pa1 = pa_ports pa - set (CollectServiceNodePorts service)" "pa_portRange pa1 = pa_portRange pa"
    using pi.release_all_law [OF assms, of "CollectServiceNodePorts service" "[]"] release_all_range [OF assms] by blast
  show ?thesis
  proof (cases "shouldCheckOrAssignHealthCheckNodePort env service \<and> GetServiceHealthCheckNodePort service > 0")
    case True
    then show ?thesis
      using 1 pa_Release_law [OF 1(2), of "GetServiceHealthCheckNodePort service"]
      by (auto simp: delete_ports_def service_ports_def health_ports_def)
  next
    case False
    then have "health_ports env service = {}" by (auto simp: health_ports_def)
    then show ?thesis using 1 False by (auto simp: delete_ports_def service_ports_def)
  qed
qed

lemma service_Delete_law:
  assumes ok: "rest_ok rs ones"
  shows "\<exists>err rs'. service_Delete env name rs = Some (err, rs') \<and> rest_ok rs' ones
    \<and> (case err of
         Some _ \<Rightarrow> used_ports rs' = used_ports rs \<and> used_ips rs' = used_ips rs
       | None \<Rightarrow> \<exists>service. GetService env name (rs_registry rs) = Inr service
           \<and> used_ports rs' = used_ports rs - service_ports env service \<and> used_ips rs' = used_ips rs - cluster_ips service)"
proof -
  have pa: "pa_ok (rs_serviceNodePorts rs)" and r: "r_ok (rs_serviceIPs rs) ones" using ok by (auto simp: rest_ok_def)
  have same: "rest_ok (rs\<lparr>rs_registry := reg\<rparr>) ones \<and> used_ports (rs\<lparr>rs_registry := reg\<rparr>) = used_ports rs \<and> used_ips (rs\<lparr>rs_registry := reg\<rparr>) = used_ips rs" for reg
    using ok by (simp add: rest_ok_def used_ports_def used_ips_def)
  show ?thesis
  proof (cases "GetService env name (rs_registry rs)")
    case (Inl err)
    then show ?thesis using ok by (simp add: service_Delete_def)
  next
    case (Inr service)
    obtain derr reg where d: "DeleteService env name (rs_registry rs) = (derr, reg)" by fastforce
    obtain eerr reg' where e: "DeleteEndpoints env name reg = (eerr, reg')" by fastforce
    obtain ips where i: "(if IsServiceIPSet service then map_option snd (r_Release (ParseIP (svc_ClusterIP service)) (rs_serviceIPs rs))
        else Some (rs_serviceIPs rs)) = Some ips" "r_ok ips ones" "r_ips ips = r_ips (rs_serviceIPs rs) - cluster_ips service"
      using r_Release_law [OF r, of "ParseIP (svc_ClusterIP service)"] r by (cases "IsServiceIPSet service") (auto simp: cluster_ips_def)
    obtain pa' where p: "delete_ports env service (rs_serviceNodePorts rs) = Some pa'" "pa_ok pa'"
        "pa_portRange pa' = pa_portRange (rs_serviceNodePorts rs)" "pa_ports pa' = pa_ports (rs_serviceNodePorts rs) - service_ports env service"
      using delete_ports_law [OF pa] by blast
    let ?rs = "rs\<lparr>rs_registry := reg', rs_serviceIPs := ips, rs_serviceNodePorts := pa'\<rparr>"
    have fin: "rest_ok ?rs ones \<and> used_ports ?rs = used_ports rs - service_ports env service \<and> used_ips ?rs = used_ips rs - cluster_ips service"
      using ok i p by (simp add: rest_ok_def used_ports_def used_ips_def)
    show ?thesis
    proof (cases derr)
      case (Some err)
      then show ?thesis using Inr d same [of reg] by (simp add: service_Delete_def)
    next
      case None
      show ?thesis
      proof (cases "eerr \<noteq> None \<and> \<not> IsNotFound (the eerr)")
        case True
        then show ?thesis using Inr d None e same [of reg'] by (auto simp: service_Delete_def)
      next
        case False
        then show ?thesis using Inr d None e i(1) p(1) fin by (auto simp: service_Delete_def)
      qed
    qed
  qed
qed

subsection \<open>Update\<close>

lemma node_ports_map: "0 \<notin> set (map sp_NodePort ps) \<Longrightarrow> node_ports ps = set (map sp_NodePort ps)"
  by (auto simp: node_ports_def)

lemma update_ports_inv:
  assumes "tx_inv pr pa op held" "is = [i..<length ps]" "i \<le> length ps" "set old \<subseteq> held"
    "new = map sp_NodePort (take i ps)" "0 \<notin> set new" "set (op_allocated op) = set new - set old"
    "distinct (filter (\<lambda>p. p \<in> set old) (new @ map sp_NodePort (drop i ps)))"
  shows "\<exists>err ps' new' op' pa'. update_ports rnd old is ps new op pa = Some (err, ps', new', op', pa') \<and> tx_inv pr pa' op' held
    \<and> op_releaseDeferred op' = op_releaseDeferred op
    \<and> (err = None \<longrightarrow> new' = map sp_NodePort ps' \<and> 0 \<notin> set new' \<and> set (op_allocated op') = set new' - set old)"
  using assms
proof (induction "is" arbitrary: i ps new op pa)
  case Nil
  then have "take i ps = ps" using upt_eq_Nil_conv [of i "length ps"] by auto
  then show ?case using Nil by simp
next
  case (Cons i0 "is")
  let ?P = "\<lambda>r op. \<exists>err ps' new' op' pa'. r = Some (err, ps', new', op', pa') \<and> tx_inv pr pa' op' held
    \<and> op_releaseDeferred op' = op_releaseDeferred op
    \<and> (err = None \<longrightarrow> new' = map sp_NodePort ps' \<and> 0 \<notin> set new' \<and> set (op_allocated op') = set new' - set old)"
  have i: "i0 = i" "i < length ps" "is = [Suc i..<length ps]"
    using Cons.prems(2) [symmetric] by (auto simp: upt_eq_Cons_conv)
  define sp where "sp = ps ! i"
  have split: "take (Suc i) ps = take i ps @ [sp]" "drop i ps = sp # drop (Suc i) ps"
    using i(2) by (simp_all add: sp_def take_Suc_conv_app_nth Cons_nth_drop_Suc)
  note old = Cons.prems(4) and new = Cons.prems(5,6) and alloc = Cons.prems(7) and dist = Cons.prems(8)
  have used: "set new \<subseteq> pa_ports pa" using alloc old Cons.prems(1) by (auto simp: tx_inv_def op_inv_def)
  have held: "held \<union> set (op_allocated op) = pa_ports pa" using Cons.prems(1) by (simp add: tx_inv_def op_inv_def)
  have go: "?P (update_ports rnd old is ps' (new @ [np]) op' pa') op"
    if "tx_inv pr pa' op' held" "op_releaseDeferred op' = op_releaseDeferred op" "ps' = ps[i := sp\<lparr>sp_NodePort := np\<rparr>]" "np \<noteq> 0"
      "set (op_allocated op') = set (new @ [np]) - set old"
      "distinct (filter (\<lambda>p. p \<in> set old) (new @ np # map sp_NodePort (drop (Suc i) ps)))" for ps' np op' pa'
  proof -
    have new': "new @ [np] = map sp_NodePort (take (Suc i) ps')" using that(3) i(2) new(1) by (simp add: take_update)
    have tail: "drop (Suc i) ps' = drop (Suc i) ps" and len: "length ps' = length ps" using that(3) by simp_all
    have "is = [Suc i..<length ps']" "Suc i \<le> length ps'" "0 \<notin> set (new @ [np])"
      "distinct (filter (\<lambda>p. p \<in> set old) ((new @ [np]) @ map sp_NodePort (drop (Suc i) ps')))"
      using i(2,3) len that(4,6) new(2) by (simp_all add: tail)
    from Cons.IH [OF that(1) this(1,2) old new' this(3) that(5) this(4)] show ?thesis by (simp only: that(2))
  qed
  have free: "np \<notin> set new \<and> np \<notin> set old \<and> 0 < np \<and> wrap32 np = np \<and> set (op_allocated op') = set (new @ [np]) - set old"
    if "tx_inv pr pa' op' held" "op_allocated op' = op_allocated op @ [np]" for np op' pa'
  proof -
    have d: "np \<notin> held" "np \<notin> set (op_allocated op)" "np \<in> pa_ports pa'" using that by (auto simp: tx_inv_def op_inv_def)
    then have "np \<notin> pa_ports pa" using held by blast
    then have "np \<notin> set new" "np \<notin> set old" using used old d(1) by auto
    then show ?thesis using tx_port [OF that(1) d(3)] that(2) alloc by auto
  qed
  show ?case
  proof (cases "sp_NodePort sp = 0")
    case True
    obtain port err op' pa' where n: "op_AllocateNext pa_AllocateNext (rnd i) op pa = (port, err, op', pa')" by (metis prod_cases4)
    note l = tx_AllocateNext [OF Cons.prems(1) n]
    show ?thesis
    proof (cases err)
      case None
      then have f: "port \<notin> set new \<and> port \<notin> set old \<and> 0 < port \<and> wrap32 port = port \<and> set (op_allocated op') = set (new @ [port]) - set old"
        using l free [of pa' op' port] by simp
      have "?P (update_ports rnd old is (ps[i := sp\<lparr>sp_NodePort := port\<rparr>]) (new @ [port]) op' pa') op"
        using l f dist True None by (intro go) (auto simp: split(2) split: if_splits)
      then show ?thesis using True n None f by (simp add: i(1) Let_def flip: sp_def)
    next
      case (Some e)
      then show ?thesis using True n l by (auto simp: i(1) Let_def simp flip: sp_def)
    qed
  next
    case False
    have self: "ps = ps[i := sp\<lparr>sp_NodePort := sp_NodePort sp\<rparr>]" by (simp add: sp_def)
    show ?thesis
    proof (cases "sp_NodePort sp \<in> set old")
      case kept: True
      then have "sp_NodePort sp \<notin> set new" using dist by (auto simp: split(2))
      moreover have "?P (update_ports rnd old is ps (new @ [sp_NodePort sp]) op pa) op"
        using Cons.prems(1) self False kept alloc dist by (intro go) (auto simp: split(2) split: if_splits)
      ultimately show ?thesis using False kept by (simp add: i(1) Let_def flip: sp_def)
    next
      case fresh: False
      obtain err op' pa' where a: "op_Allocate pa_Allocate (sp_NodePort sp) op pa = Some (err, op', pa')" "tx_inv pr pa' op' held"
          "op_releaseDeferred op' = op_releaseDeferred op"
          "if err = None then op_allocated op' = op_allocated op @ [sp_NodePort sp] \<and> 0 < sp_NodePort sp \<and> wrap32 (sp_NodePort sp) = sp_NodePort sp else op' = op"
        using tx_Allocate [OF Cons.prems(1)] by blast
      show ?thesis
      proof (cases err)
        case None
        then have f: "sp_NodePort sp \<notin> set new \<and> set (op_allocated op') = set (new @ [sp_NodePort sp]) - set old"
          using a free [of pa' op' "sp_NodePort sp"] by simp
        have "?P (update_ports rnd old is ps (new @ [sp_NodePort sp]) op' pa') op"
          using a(2,3) f self False fresh dist by (intro go) (auto simp: split(2) split: if_splits)
        then show ?thesis using False fresh a(1) None f by (simp add: i(1) Let_def flip: sp_def)
      next
        case (Some e)
        then show ?thesis using False fresh a by (simp add: i(1) Let_def flip: sp_def)
      qed
    qed
  qed
qed

lemma defer_releases_fields:
  "op_allocated (defer_releases old new op) = op_allocated op \<and> op_shouldRollback (defer_releases old new op) = op_shouldRollback op
    \<and> set (op_releaseDeferred (defer_releases old new op)) = set (op_releaseDeferred op) \<union> (set old \<inter> set new)"
  unfolding defer_releases_def by (induction old arbitrary: op) (auto simp: op_ReleaseDeferred_def)

lemma tx_defer: "tx_inv pr pa op held \<Longrightarrow> tx_inv pr pa (defer_releases old new op) held"
  using defer_releases_fields [of old new op] by (simp add: tx_inv_def op_inv_def)

lemma health_update_none:
  assumes "svc_Type old \<noteq> ServiceTypeLoadBalancer" "svc_Type service \<noteq> ServiceTypeLoadBalancer"
  shows "\<exists>err. healthCheckNodePortUpdate env seed old service pa = Some (err, service, pa)"
  using assms by (simp add: healthCheckNodePortUpdate_def shouldCheckOrAssignHealthCheckNodePort_def)

definition update_returns_stored :: "'r api_env \<Rightarrow> bool" where
  "update_returns_stored env \<longleftrightarrow> (\<forall>service reg out reg'. UpdateService env service reg = (Inr out, reg') \<longrightarrow> out = service)"

text \<open>The node ports that an update counts as those of the new version.\<close>

definition assigned_ports :: "Service \<Rightarrow> int set" where
  "assigned_ports service = (if shouldAssignNodePorts service then set (CollectServiceNodePorts service) else {})"

lemma update_body_law:
  assumes ok: "rest_ok rs ones" and held: "set (CollectServiceNodePorts old) \<subseteq> used_ports rs"
    and dist: "distinct (filter (\<lambda>p. p \<in> set (CollectServiceNodePorts old)) (map sp_NodePort (svc_Ports service)))"
    and types: "svc_Type old \<noteq> ServiceTypeLoadBalancer" "svc_Type service \<noteq> ServiceTypeLoadBalancer"
    and ret: "update_returns_stored env"
  shows "\<exists>res op rs' pa. update_body env rnd old service rs = Some (res, op, rs') \<and> rs_serviceIPs rs' = rs_serviceIPs rs
    \<and> op_Finish pa_Release op (rs_serviceNodePorts rs') = Some pa \<and> pa_ok pa \<and> pa_portRange pa = pa_portRange (rs_serviceNodePorts rs)
    \<and> (case res of
         Inl _ \<Rightarrow> pa_ports pa = used_ports rs
       | Inr out \<Rightarrow> pa_ports pa = (used_ports rs - set (CollectServiceNodePorts old)) \<union> (set (CollectServiceNodePorts old) - assigned_ports out)
           \<union> (assigned_ports out - set (CollectServiceNodePorts old)))"
proof -
  let ?pa = "rs_serviceNodePorts rs" and ?old = "CollectServiceNodePorts old" and ?n = "length (svc_Ports service)"
  let ?pr = "pa_portRange ?pa"
  have tx: "tx_inv ?pr ?pa StartOperation (used_ports rs)" by (rule rest_tx [OF ok])
  define r where "r = (if shouldAssignNodePorts service then update_ports rnd ?old [0..<?n] (svc_Ports service) [] StartOperation ?pa
      else Some (None, svc_Ports service, [], StartOperation, ?pa))"
  obtain err ps new op pa where u: "r = Some (err, ps, new, op, pa)" "tx_inv ?pr pa op (used_ports rs)" "op_releaseDeferred op = []"
      "err = None \<longrightarrow> set (op_allocated op) = set new - set ?old \<and> set new = (if shouldAssignNodePorts service then node_ports ps else {})"
  proof (cases "shouldAssignNodePorts service")
    case True
    have "\<exists>err ps' new' op' pa'. update_ports rnd ?old [0..<?n] (svc_Ports service) [] StartOperation ?pa = Some (err, ps', new', op', pa')
        \<and> tx_inv ?pr pa' op' (used_ports rs) \<and> op_releaseDeferred op' = op_releaseDeferred StartOperation
        \<and> (err = None \<longrightarrow> new' = map sp_NodePort ps' \<and> 0 \<notin> set new' \<and> set (op_allocated op') = set new' - set ?old)"
      using dist held by (intro update_ports_inv [OF tx, of _ 0]) (simp_all add: StartOperation_def)
    then show ?thesis using that True node_ports_map by (fastforce simp: r_def StartOperation_def)
  next
    case False
    then show ?thesis using tx by (intro that [of None "svc_Ports service" "[]" StartOperation ?pa]) (simp_all add: r_def StartOperation_def)
  qed
  show ?thesis
  proof (cases err)
    case (Some e)
    then show ?thesis
      using u tx_Finish [OF u(2)] by (auto simp: update_body_def Let_def simp flip: r_def)
  next
    case None
    let ?op = "defer_releases ?old new op"
    have tx1: "tx_inv ?pr pa ?op (used_ports rs)" by (rule tx_defer [OF u(2)])
    define svc where "svc = service\<lparr>svc_Ports := ps, svc_LoadBalancer := []\<rparr>"
    have t: "svc_Type svc \<noteq> ServiceTypeLoadBalancer" using types(2) by (simp add: svc_def)
    obtain herr where h: "healthCheckNodePortUpdate env (rnd ?n) old svc pa = Some (herr, svc, pa)"
      using health_update_none [OF types(1) t] by blast
    obtain res reg where s: "UpdateService env svc (rs_registry rs) = (res, reg)" by fastforce
    have body: "update_body env rnd old service rs = (case herr of
        Some e \<Rightarrow> Some (Inl e, ?op, rs\<lparr>rs_serviceNodePorts := pa\<rparr>)
      | None \<Rightarrow> (case res of
          Inl e \<Rightarrow> Some (Inl e, ?op, rs\<lparr>rs_registry := reg, rs_serviceNodePorts := pa\<rparr>)
        | Inr out \<Rightarrow> (case op_Commit pa_Release ?op pa of None \<Rightarrow> None
            | Some (_, op2, pa2) \<Rightarrow> Some (Inr out, op2, rs\<lparr>rs_registry := reg, rs_serviceNodePorts := pa2\<rparr>))))"
      using u(1) None types h s by (simp add: update_body_def Let_def svc_def flip: r_def split: option.split sum.split)
    show ?thesis
    proof (cases "herr = None \<and> (\<exists>out. res = Inr out)")
      case False
      then show ?thesis using body tx_Finish [OF tx1] by (cases herr; cases res) auto
    next
      case True
      then obtain out where out: "herr = None" "res = Inr out" "out = svc" using ret s unfolding update_returns_stored_def by blast
      obtain op2 pa2 where c: "op_Commit pa_Release ?op pa = Some ([], op2, pa2)" "pa_ok pa2" "pa_portRange pa2 = ?pr"
          "pa_ports pa2 = (used_ports rs \<union> set (op_allocated ?op)) - set (op_releaseDeferred ?op)" "op_Finish pa_Release op2 pa2 = Some pa2"
        using tx_Commit [OF tx1] by blast
      have new: "set new = assigned_ports out"
        using u(4) None by (simp add: out(3) svc_def assigned_ports_def shouldAssignNodePorts_def Collect_node_ports)
      have "pa_ports pa2 = (used_ports rs - set ?old) \<union> (set ?old - set new) \<union> (set new - set ?old)"
        using c(4) defer_releases_fields [of ?old new op] u(3,4) None held by auto
      then show ?thesis using body out c new by simp
    qed
  qed
qed

lemma service_Update_law:
  assumes ok: "rest_ok rs ones" and get: "GetService env name (rs_registry rs) = Inr old" and upd: "updatedObject old = Inr service"
    and held: "set (CollectServiceNodePorts old) \<subseteq> used_ports rs"
    and dist: "distinct (filter (\<lambda>p. p \<in> set (CollectServiceNodePorts old)) (map sp_NodePort (svc_Ports service)))"
    and types: "svc_Type old \<noteq> ServiceTypeLoadBalancer" "svc_Type service \<noteq> ServiceTypeLoadBalancer"
    and ret: "update_returns_stored env"
  shows "\<exists>res rs'. service_Update env ctx rnd name updatedObject rs = Some (res, rs') \<and> rest_ok rs' ones \<and> used_ips rs' = used_ips rs
    \<and> (case res of
         Inl _ \<Rightarrow> used_ports rs' = used_ports rs
       | Inr out \<Rightarrow> used_ports rs' = (used_ports rs - set (CollectServiceNodePorts old)) \<union> (set (CollectServiceNodePorts old) - assigned_ports out)
           \<union> (assigned_ports out - set (CollectServiceNodePorts old)))"
proof -
  obtain valid service' where v: "ValidNamespace ctx service = (valid, service')" by fastforce
  then have s': "svc_Ports service' = svc_Ports service" "svc_Type service' = svc_Type service"
    by (auto simp: ValidNamespace_def Let_def split: if_splits)
  obtain res op rs' pa where b: "update_body env rnd old service' rs = Some (res, op, rs')" "rs_serviceIPs rs' = rs_serviceIPs rs"
      "op_Finish pa_Release op (rs_serviceNodePorts rs') = Some pa" "pa_ok pa" "pa_portRange pa = pa_portRange (rs_serviceNodePorts rs)"
      "case res of Inl _ \<Rightarrow> pa_ports pa = used_ports rs
       | Inr out \<Rightarrow> pa_ports pa = (used_ports rs - set (CollectServiceNodePorts old)) \<union> (set (CollectServiceNodePorts old) - assigned_ports out)
           \<union> (assigned_ports out - set (CollectServiceNodePorts old))"
    using update_body_law [OF ok held, of service' env rnd] dist types ret by (auto simp: s')
  show ?thesis
  proof (cases "valid \<and> ValidateServiceUpdate env service' old = None")
    case False
    then show ?thesis using get upd v ok by (cases "ValidateServiceUpdate env service' old") (auto simp: service_Update_def)
  next
    case True
    have "service_Update env ctx rnd name updatedObject rs = Some (res, rs'\<lparr>rs_serviceNodePorts := pa\<rparr>)"
      using True get upd v b by (simp add: service_Update_def)
    then show ?thesis using ok b by (simp add: rest_ok_def used_ips_def used_ports_def split: sum.splits)
  qed
qed

text \<open>An update that keeps the node ports of a service panics when a port occurs twice among them.\<close>

lemma update_ports_panics:
  assumes "is = [i..<length ps]" "i \<le> length ps" "new = map sp_NodePort (take i ps)" "distinct new"
    "set (map sp_NodePort ps) \<subseteq> set old" "0 \<notin> set old" "\<not> distinct (map sp_NodePort ps)"
  shows "update_ports rnd old is ps new op pa = None"
  using assms
proof (induction "is" arbitrary: i new)
  case Nil
  then have "take i ps = ps" using upt_eq_Nil_conv [of i "length ps"] by auto
  then show ?case using Nil by simp
next
  case (Cons i0 "is")
  have i: "i0 = i" "i < length ps" "is = [Suc i..<length ps]"
    using Cons.prems(1) [symmetric] by (auto simp: upt_eq_Cons_conv)
  have mem: "sp_NodePort (ps ! i) \<in> set old" using i(2) Cons.prems(5) by auto
  then have sp: "sp_NodePort (ps ! i) \<in> set old" "sp_NodePort (ps ! i) \<noteq> 0" using Cons.prems(6) by metis+
  have "update_ports rnd old is ps (new @ [sp_NodePort (ps ! i)]) op pa = None" if "sp_NodePort (ps ! i) \<notin> set new"
    using Cons.IH [of "Suc i" "new @ [sp_NodePort (ps ! i)]"] Cons.prems that i by (simp add: take_Suc_conv_app_nth)
  then show ?case using sp by (simp add: i(1) Let_def)
qed

subsection \<open>A small registry\<close>

text \<open>A registry of services by name, at which the hypotheses of the properties hold.\<close>

definition example_service :: Service where
  "example_service =
     \<lparr>svc_Name = ''web'', svc_Namespace = ''default'', svc_Annotations = Map.empty, svc_Type = ServiceTypeNodePort,
      svc_ClusterIP = '''', svc_Ports = [\<lparr>sp_Name = ''http'', sp_Protocol = ''TCP'', sp_Port = 80, sp_NodePort = 30001\<rparr>],
      svc_LoadBalancer = []\<rparr>"

definition example_env :: "(string \<rightharpoonup> Service) api_env" where
  "example_env =
     \<lparr>ExternalTrafficLocalOnly = True,
      BeforeCreate = (\<lambda>s. if svc_Annotations s AlphaAnnotationHealthCheckNodePort = None then Inr s else Inl (RequestRejected ''annotations'')),
      CheckGeneratedNameError = (\<lambda>err s. err),
      ValidateServiceUpdate = (\<lambda>s old. None),
      CreateService = (\<lambda>s reg. (Inr s, reg(svc_Name s \<mapsto> s))),
      GetService = (\<lambda>name reg. case reg name of None \<Rightarrow> Inl (NotFound name) | Some s \<Rightarrow> Inr s),
      UpdateService = (\<lambda>s reg. (Inr s, reg(svc_Name s \<mapsto> s))),
      DeleteService = (\<lambda>name reg. (None, reg(name := None))),
      DeleteEndpoints = (\<lambda>name reg. (Some (NotFound name), reg))\<rparr>"

lemma example_env_laws: "checks_reject_alpha example_env" "create_returns_stored example_env" "update_returns_stored example_env"
  by (auto simp: checks_reject_alpha_def create_returns_stored_def update_returns_stored_def example_env_def split: if_splits)

lemma example_rest: "\<exists>rs. rest_ok rs 24 \<and> used_ports rs = {} \<and> used_ips rs = {} \<and> rs_registry rs = Map.empty
    \<and> pa_portRange (rs_serviceNodePorts rs) = \<lparr>pr_Base = 30000, pr_Size = 3\<rparr>"
proof -
  obtain r where "r_ok r 24" "r_ips r = {}" using r_new_ok [OF example_net_ok] by blast
  then show ?thesis
    using example_ports_ok example_range_ok
    by (intro exI [of _ "\<lparr>rs_registry = Map.empty, rs_serviceIPs = r, rs_serviceNodePorts = example_ports\<rparr>"])
      (simp add: rest_ok_def used_ports_def used_ips_def)
qed

lemma example_create:
  assumes ok: "rest_ok rs 24" "used_ports rs = {}" "used_ips rs = {}" "rs_registry rs = Map.empty"
    "pa_portRange (rs_serviceNodePorts rs) = \<lparr>pr_Base = 30000, pr_Size = 3\<rparr>"
  shows "\<exists>out rs'. service_Create example_env rnd example_service rs = Some (Inr out, rs') \<and> rs_registry rs' = [''web'' \<mapsto> out]
    \<and> svc_Name out = ''web'' \<and> svc_Type out = ServiceTypeNodePort \<and> svc_Ports out = svc_Ports example_service"
proof -
  let ?n = "length (svc_Ports example_service)"
  have pa: "pa_ok (rs_serviceNodePorts rs)" and r: "r_ok (rs_serviceIPs rs) 24" using ok(1) by (auto simp: rest_ok_def)
  obtain addr err ips where n: "r_AllocateNext (rnd (?n + 1)) (rs_serviceIPs rs) = (addr, err, ips)" by (metis prod_cases3)
  have "nat (r_max (rs_serviceIPs rs)) = 254" using r_limits(4) [OF r] by simp
  then have err: "err = None"
    using r_AllocateNext_law [OF r n] ok(3) by (cases err) (auto simp: used_ips_def)
  obtain pa' where a: "pa_Allocate 30001 (rs_serviceNodePorts rs) = Some (None, pa')"
    using pa_Allocate_law [OF pa, of 30001] ok(2,5) by (auto simp: used_ports_def pr_Contains_def)
  have w: "wrap32 30001 = 30001" by (simp add: wrap32_id is_int32_def)
  have ip: "create_alloc_ip (rnd (?n + 1)) example_service (rs_serviceIPs rs) = Some (None, example_service\<lparr>svc_ClusterIP := ip_String addr\<rparr>, True, ips)"
    using n err by (simp add: create_alloc_ip_def IsServiceIPRequested_def example_service_def)
  let ?op = "StartOperation\<lparr>op_allocated := [30001]\<rparr>"
  have np: "create_ports True rnd [0..<?n] (svc_Ports example_service) Map.empty StartOperation (rs_serviceNodePorts rs)
      = Some (None, svc_Ports example_service, ?op, pa')"
    by (simp add: example_service_def findRequestedNodePort_def op_Allocate_def a w StartOperation_def)
  let ?out = "example_service\<lparr>svc_ClusterIP := ip_String addr\<rparr>"
  let ?rs = "rs\<lparr>rs_serviceIPs := ips, rs_serviceNodePorts := pa', rs_registry := [''web'' \<mapsto> ?out]\<rparr>"
  have f: "svc_Type example_service = ServiceTypeNodePort" "svc_Name example_service = ''web''" by (simp_all add: example_service_def)
  have "create_body example_env rnd example_service rs = Some (Inr ?out, ?out, False, ?op\<lparr>op_shouldRollback := False\<rparr>, ?rs)"
    using ip np ok(4)
    by (simp add: create_body_def Let_def f shouldAssignNodePorts_def create_health_def shouldCheckOrAssignHealthCheckNodePort_def
        create_store_def example_env_def op_Commit_def StartOperation_def)
  then show ?thesis
    by (simp add: service_Create_def create_defers_def op_Finish_def example_env_def) (simp add: example_service_def)
qed

lemma service_Create_law:
  assumes ok: "rest_ok rs ones" and "checks_reject_alpha env" "create_returns_stored env"
  shows "\<exists>res rs'. service_Create env rnd obj rs = Some (res, rs') \<and> rest_ok rs' ones
    \<and> (case res of
         Inl _ \<Rightarrow> used_ports rs' = used_ports rs \<and> used_ips rs' = used_ips rs
       | Inr out \<Rightarrow> service_ports env out \<inter> used_ports rs = {} \<and> used_ports rs' = used_ports rs \<union> service_ports env out
           \<and> cluster_ips out \<inter> used_ips rs = {} \<and> used_ips rs' = used_ips rs \<union> cluster_ips out)"
proof (cases "BeforeCreate env obj")
  case (Inl err)
  then show ?thesis using ok by (simp add: service_Create_def)
next
  case (Inr service)
  then have "svc_Annotations service AlphaAnnotationHealthCheckNodePort = None"
    using assms(2) unfolding checks_reject_alpha_def by blast
  from create_body_law [OF ok this assms(3), of rnd]
  obtain res service' rel op rs' where b: "create_body env rnd service rs = Some (res, service', rel, op, rs')"
      "case res of Inl _ \<Rightarrow> create_pending (pa_portRange (rs_serviceNodePorts rs)) ones (used_ports rs) (used_ips rs) service' rel op rs'
        | Inr out \<Rightarrow> create_defers service' rel op rs' = Some rs' \<and> created env ones (used_ports rs) (used_ips rs) out rs'"
    by (elim exE conjE) (rule that)
  show ?thesis
  proof (cases res)
    case (Inl err)
    then show ?thesis using b \<open>BeforeCreate env obj = Inr service\<close> create_defers_pending by (fastforce simp: service_Create_def)
  next
    case (Inr out)
    then show ?thesis using b \<open>BeforeCreate env obj = Inr service\<close> by (simp add: service_Create_def created_def)
  qed
qed

subsection \<open>Properties\<close>

text \<open>
  C4. The creation of a service allocates all or nothing, whatever the service asks for and
  wherever it fails: it never panics; when it returns an error, from the checks, from an allocator
  or from the registry, exactly the node ports and cluster IPs of before are allocated; when it
  succeeds, those and the ports and the IP of the stored service, none of which was taken.
\<close>

theorem create_all_or_nothing:
  assumes ok: "rest_ok rs ones" and "checks_reject_alpha env" "create_returns_stored env"
  shows "\<exists>res rs'. service_Create env rnd obj rs = Some (res, rs') \<and> rest_ok rs' ones
    \<and> (case res of
         Inl _ \<Rightarrow> used_ports rs' = used_ports rs \<and> used_ips rs' = used_ips rs
       | Inr out \<Rightarrow> service_ports env out \<inter> used_ports rs = {} \<and> used_ports rs' = used_ports rs \<union> service_ports env out
           \<and> cluster_ips out \<inter> used_ips rs = {} \<and> used_ips rs' = used_ips rs \<union> cluster_ips out)"
  by (rule service_Create_law [OF assms])

theorem create_all_or_nothing_witness:
  "\<exists>rs out rs'. rest_ok rs 24 \<and> checks_reject_alpha example_env \<and> create_returns_stored example_env
    \<and> service_Create example_env id example_service rs = Some (Inr out, rs') \<and> used_ports rs' = used_ports rs \<union> service_ports example_env out"
proof -
  obtain rs :: "(string \<rightharpoonup> Service) REST" where rs: "rest_ok rs 24" "used_ports rs = {}" "used_ips rs = {}" "rs_registry rs = Map.empty"
      "pa_portRange (rs_serviceNodePorts rs) = \<lparr>pr_Base = 30000, pr_Size = 3\<rparr>"
    using example_rest by blast
  obtain out rs' where c: "service_Create example_env id example_service rs = Some (Inr out, rs')" using example_create [OF rs] by blast
  then have "used_ports rs' = used_ports rs \<union> service_ports example_env out"
    using create_all_or_nothing [OF rs(1) example_env_laws(1,2), of id example_service] by auto
  then show ?thesis using rs(1) example_env_laws c by blast
qed

text \<open>
  C22. A service that was created and then deleted leaves nothing behind: the same node ports and
  cluster IPs are allocated as before its creation, the health check port included.
\<close>

theorem create_then_delete:
  assumes ok: "rest_ok rs ones" and laws: "checks_reject_alpha env" "create_returns_stored env"
    and create: "service_Create env rnd obj rs = Some (Inr out, rs1)"
    and stored: "GetService env name (rs_registry rs1) = Inr out"
    and delete: "service_Delete env name rs1 = Some (None, rs2)"
  shows "used_ports rs2 = used_ports rs \<and> used_ips rs2 = used_ips rs \<and> rest_ok rs2 ones"
proof -
  obtain res rs' where c: "service_Create env rnd obj rs = Some (res, rs')" "rest_ok rs' ones"
      "case res of Inl _ \<Rightarrow> used_ports rs' = used_ports rs \<and> used_ips rs' = used_ips rs
       | Inr out \<Rightarrow> service_ports env out \<inter> used_ports rs = {} \<and> used_ports rs' = used_ports rs \<union> service_ports env out
           \<and> cluster_ips out \<inter> used_ips rs = {} \<and> used_ips rs' = used_ips rs \<union> cluster_ips out"
    using service_Create_law [OF ok laws, of rnd obj] by (elim exE conjE) (rule that)
  have 1: "rest_ok rs1 ones" "used_ports rs1 = used_ports rs \<union> service_ports env out" "used_ips rs1 = used_ips rs \<union> cluster_ips out"
      "service_ports env out \<inter> used_ports rs = {}" "cluster_ips out \<inter> used_ips rs = {}"
    using c create by auto
  have "rest_ok rs2 ones" "used_ports rs2 = used_ports rs1 - service_ports env out" "used_ips rs2 = used_ips rs1 - cluster_ips out"
    using service_Delete_law [OF 1(1), of env name] delete stored by auto
  then show ?thesis using 1 by blast
qed

theorem create_then_delete_witness:
  "\<exists>rs out rs1 rs2. rest_ok rs 24 \<and> service_Create example_env id example_service rs = Some (Inr out, rs1)
    \<and> service_Delete example_env ''web'' rs1 = Some (None, rs2) \<and> used_ports rs2 = used_ports rs"
proof -
  obtain rs :: "(string \<rightharpoonup> Service) REST" where rs: "rest_ok rs 24" "used_ports rs = {}" "used_ips rs = {}" "rs_registry rs = Map.empty"
      "pa_portRange (rs_serviceNodePorts rs) = \<lparr>pr_Base = 30000, pr_Size = 3\<rparr>"
    using example_rest by blast
  obtain out rs1 where c: "service_Create example_env id example_service rs = Some (Inr out, rs1)" "rs_registry rs1 = [''web'' \<mapsto> out]"
    using example_create [OF rs] by blast
  have g: "GetService example_env ''web'' (rs_registry rs1) = Inr out" using c(2) by (simp add: example_env_def)
  have ok: "rest_ok rs1 24" using service_Create_law [OF rs(1) example_env_laws(1,2), of id example_service] c(1) by auto
  have e: "DeleteService example_env ''web'' reg = (None, reg(''web'' := None))"
      "DeleteEndpoints example_env ''web'' reg = (Some (NotFound ''web''), reg)" for reg
    by (simp_all add: example_env_def)
  obtain err rs2 where d: "service_Delete example_env ''web'' rs1 = Some (err, rs2)" using service_Delete_law [OF ok] by blast
  then have "err = None" using g e by (auto simp: service_Delete_def IsNotFound_def split: option.splits)
  then show ?thesis using create_then_delete [OF rs(1) example_env_laws(1,2) c(1) g] d c(1) rs(1) by blast
qed

text \<open>
  C38. What an update of a service without a load balancer does to the node ports, when the old
  version holds its ports and none of the ports it keeps is named twice: it does not panic, and
  when it returns an error nothing has changed. When it succeeds, the ports that the old and the
  new version share are released although the stored service uses them, and the ports that only
  the old version had stay allocated although nothing uses them: the condition of the deferred
  release is the wrong way around.
\<close>

theorem update_releases_kept_ports:
  assumes "rest_ok rs ones" "GetService env name (rs_registry rs) = Inr old" "updatedObject old = Inr service"
    "set (CollectServiceNodePorts old) \<subseteq> used_ports rs"
    "distinct (filter (\<lambda>p. p \<in> set (CollectServiceNodePorts old)) (map sp_NodePort (svc_Ports service)))"
    "svc_Type old \<noteq> ServiceTypeLoadBalancer" "svc_Type service \<noteq> ServiceTypeLoadBalancer" "update_returns_stored env"
  shows "\<exists>res rs'. service_Update env ctx rnd name updatedObject rs = Some (res, rs') \<and> rest_ok rs' ones
    \<and> (case res of
         Inl _ \<Rightarrow> used_ports rs' = used_ports rs
       | Inr out \<Rightarrow>
           set (CollectServiceNodePorts old) \<inter> assigned_ports out \<inter> used_ports rs' = {}
           \<and> set (CollectServiceNodePorts old) - assigned_ports out \<subseteq> used_ports rs'
           \<and> used_ports rs' - set (CollectServiceNodePorts old) = (used_ports rs \<union> assigned_ports out) - set (CollectServiceNodePorts old))"
proof -
  let ?old = "set (CollectServiceNodePorts old)"
  obtain res rs' where u: "service_Update env ctx rnd name updatedObject rs = Some (res, rs')" "rest_ok rs' ones"
      "case res of Inl _ \<Rightarrow> used_ports rs' = used_ports rs
       | Inr out \<Rightarrow> used_ports rs' = (used_ports rs - ?old) \<union> (?old - assigned_ports out) \<union> (assigned_ports out - ?old)"
    using service_Update_law [of rs ones env name old updatedObject service ctx rnd, OF assms] by (elim exE conjE) (rule that)
  then show ?thesis by (cases res) auto
qed

theorem update_releases_kept_ports_witness:
  "\<exists>rs old out rs'. rest_ok rs 24 \<and> GetService example_env ''web'' (rs_registry rs) = Inr old \<and> CollectServiceNodePorts old = [30001]
    \<and> 30001 \<in> used_ports rs \<and> service_Update example_env (Some ''default'') id ''web'' Inr rs = Some (Inr out, rs')
    \<and> CollectServiceNodePorts out = [30001] \<and> 30001 \<notin> used_ports rs'"
proof -
  obtain rs0 :: "(string \<rightharpoonup> Service) REST" where rs0: "rest_ok rs0 24" "used_ports rs0 = {}" "used_ips rs0 = {}" "rs_registry rs0 = Map.empty"
      "pa_portRange (rs_serviceNodePorts rs0) = \<lparr>pr_Base = 30000, pr_Size = 3\<rparr>"
    using example_rest by blast
  obtain pa where pa: "pa_ok pa" "pa_portRange pa = \<lparr>pr_Base = 30000, pr_Size = 3\<rparr>" "pa_ports pa = {30001}"
    using pa_Allocate_law [of "rs_serviceNodePorts rs0" 30001] rs0 by (auto simp: rest_ok_def used_ports_def pr_Contains_def)
  let ?rs = "rs0\<lparr>rs_registry := [''web'' \<mapsto> example_service], rs_serviceNodePorts := pa\<rparr>"
  have ok: "rest_ok ?rs 24" "used_ports ?rs = {30001}" using rs0(1,5) pa by (simp_all add: rest_ok_def used_ports_def)
  have g: "GetService example_env ''web'' (rs_registry ?rs) = Inr example_service" by (simp add: example_env_def)
  have f: "CollectServiceNodePorts example_service = [30001]" "map sp_NodePort (svc_Ports example_service) = [30001]"
      "svc_Type example_service \<noteq> ServiceTypeLoadBalancer" "shouldAssignNodePorts example_service"
    by (simp_all add: CollectServiceNodePorts_def example_service_def shouldAssignNodePorts_def)
  have "\<exists>res rs'. service_Update example_env (Some ''default'') id ''web'' Inr ?rs = Some (res, rs') \<and> rest_ok rs' 24
    \<and> (case res of
         Inl _ \<Rightarrow> used_ports rs' = used_ports ?rs
       | Inr out \<Rightarrow>
           set (CollectServiceNodePorts example_service) \<inter> assigned_ports out \<inter> used_ports rs' = {}
           \<and> set (CollectServiceNodePorts example_service) - assigned_ports out \<subseteq> used_ports rs'
           \<and> used_ports rs' - set (CollectServiceNodePorts example_service) = (used_ports ?rs \<union> assigned_ports out) - set (CollectServiceNodePorts example_service))"
    using f(1,2) ok(2) by (intro update_releases_kept_ports [OF ok(1) g _ _ _ f(3) f(3) example_env_laws(3)]) simp_all
  then obtain res rs' where u: "service_Update example_env (Some ''default'') id ''web'' Inr ?rs = Some (res, rs')"
      "\<forall>out. res = Inr out \<longrightarrow> {30001} \<inter> assigned_ports out \<inter> used_ports rs' = {}"
    using f(1) by (elim exE conjE) (rule that, auto)
  have "res = Inr example_service"
    using u(1) by (auto simp: service_Update_def example_env_def ValidNamespace_def update_body_def example_service_def shouldAssignNodePorts_def
        CollectServiceNodePorts_def healthCheckNodePortUpdate_def shouldCheckOrAssignHealthCheckNodePort_def Let_def split: option.splits if_splits)
  then show ?thesis using ok g f u by (auto simp: assigned_ports_def)
qed

text \<open>
  A node port that a service uses for two of its ports, as Create assigns it to two protocols of
  the same port number, makes every update of that service panic that keeps its ports.
\<close>

theorem update_panics_on_shared_port:
  assumes "GetService env name (rs_registry rs) = Inr old" "shouldAssignNodePorts old" "0 \<notin> set (map sp_NodePort (svc_Ports old))"
    "\<not> distinct (map sp_NodePort (svc_Ports old))" "ValidateServiceUpdate env old old = None" "svc_Namespace old = ns" "ns \<noteq> ''''"
  shows "service_Update env (Some ns) rnd name Inr rs = None"
proof -
  have c: "CollectServiceNodePorts old = map sp_NodePort (svc_Ports old)"
    using assms(3) by (auto simp: CollectServiceNodePorts_def intro!: filter_True)
  have "update_ports rnd (CollectServiceNodePorts old) [0..<length (svc_Ports old)] (svc_Ports old) [] StartOperation (rs_serviceNodePorts rs) = None"
    using assms(3,4) by (intro update_ports_panics [of _ 0]) (simp_all add: c)
  then show ?thesis using assms by (simp add: service_Update_def ValidNamespace_def update_body_def)
qed

end
