(* ===== verification/PortRepair.thy ===== *)
theory PortRepair
  imports ServiceAllocation
begin

section \<open>The repair of the port allocations (\<^verbatim>\<open>portallocator/controller/repair.go\<close>)\<close>

text \<open>
  The controller that rebuilds the allocation of the node ports from the services. What it reads
  and writes is a parameter: what one attempt gets from the range registry and from the list of
  the services, and the answer to its write. A panic is \<open>None\<close>. The counters of the leaks are
  kept between the attempts. The errors are those of both repair controllers.
\<close>

datatype repair_error =
    Conflict string
  | UnableToRefresh string
  | UnableToRebuild port_error
  | UnableToRebuildIPs ip_error
  | RangeFull
  | UnableToAllocate ip_error
  | UnableToPersist string

record Repair =
  rp_portRange :: PortRange
  rp_leaks :: "int \<rightharpoonup> int"

record repair_round =
  rr_Get :: "string + RangeAllocation"
  rr_List :: "string + Service list"
  rr_CreateOrUpdate :: "RangeAllocation \<Rightarrow> repair_error option"

definition numRepairsBeforeLeakCleanup :: int where
  "numRepairsBeforeLeakCleanup = 3"

definition NewRepair :: "PortRange \<Rightarrow> Repair" where
  "NewRepair pr = \<lparr>rp_portRange = pr, rp_leaks = Map.empty\<rparr>"

text \<open>
  One node port of a service. After nil and \<^verbatim>\<open>ErrAllocated\<close> the switch asserts the type of the
  error, which panics for every other error than \<^verbatim>\<open>ErrNotInRange\<close>.
\<close>

definition repair_port ::
    "int \<Rightarrow> PortAllocator \<times> PortAllocator \<times> (int \<rightharpoonup> int) \<Rightarrow> (PortAllocator \<times> PortAllocator \<times> (int \<rightharpoonup> int)) option" where
  "repair_port port s =
     (case s of (rebuilt, stored, leaks) \<Rightarrow>
        (case pa_Allocate port rebuilt of
           None \<Rightarrow> None
         | Some (None, rebuilt') \<Rightarrow>
             (case pa_Has stored port of
                None \<Rightarrow> None
              | Some True \<Rightarrow> map_option (\<lambda>(_, stored'). (rebuilt', stored', leaks(port := None))) (pa_Release port stored)
              | Some False \<Rightarrow> Some (rebuilt', stored, leaks(port := None)))
         | Some (Some ErrAllocated, rebuilt') \<Rightarrow> Some (rebuilt', stored, leaks)
         | Some (Some (ErrNotInRange _), rebuilt') \<Rightarrow> Some (rebuilt', stored, leaks)
         | Some (Some _, _) \<Rightarrow> None))"

fun repair_ports ::
    "int list \<Rightarrow> PortAllocator \<times> PortAllocator \<times> (int \<rightharpoonup> int) \<Rightarrow> (PortAllocator \<times> PortAllocator \<times> (int \<rightharpoonup> int)) option" where
  "repair_ports [] s = Some s"
| "repair_ports (port # ports) s = (case repair_port port s of None \<Rightarrow> None | Some s' \<Rightarrow> repair_ports ports s')"

text \<open>One port that is left in the old set.\<close>

definition repair_leak :: "int \<Rightarrow> PortAllocator \<times> (int \<rightharpoonup> int) \<Rightarrow> (PortAllocator \<times> (int \<rightharpoonup> int)) option" where
  "repair_leak port s =
     (case s of (rebuilt, leaks) \<Rightarrow>
        let found = (leaks port \<noteq> None);
            count = (case leaks port of None \<Rightarrow> numRepairsBeforeLeakCleanup - 1 | Some c \<Rightarrow> c)
        in if \<not> found \<or> count > 0
           then map_option (\<lambda>(_, rebuilt'). (rebuilt', leaks(port \<mapsto> count - 1))) (pa_Allocate port rebuilt)
           else Some (rebuilt, leaks))"

fun repair_leaks :: "int list \<Rightarrow> PortAllocator \<times> (int \<rightharpoonup> int) \<Rightarrow> (PortAllocator \<times> (int \<rightharpoonup> int)) option" where
  "repair_leaks [] s = Some s"
| "repair_leaks (port # ports) s = (case repair_leak port s of None \<Rightarrow> None | Some s' \<Rightarrow> repair_leaks ports s')"

text \<open>The snapshot as it is read; the range is missing when it is not yet initialised.\<close>

definition repair_read :: "Repair \<Rightarrow> RangeAllocation \<Rightarrow> RangeAllocation" where
  "repair_read c snapshot = (if ra_Range snapshot = '''' then snapshot\<lparr>ra_Range := pr_String (rp_portRange c)\<rparr> else snapshot)"

text \<open>One attempt: the error, the snapshot it wrote if it came to that, and the counters.\<close>

definition repair_runOnce :: "repair_round \<Rightarrow> Repair \<Rightarrow> (repair_error option \<times> RangeAllocation option \<times> Repair) option" where
  "repair_runOnce rr c =
     (case rr_Get rr of
        Inl err \<Rightarrow> Some (Some (UnableToRefresh err), None, c)
      | Inr snapshot0 \<Rightarrow>
          (let snapshot = repair_read c snapshot0
           in case pa_NewFromSnapshot snapshot of
                Inl err \<Rightarrow> Some (Some (UnableToRebuild err), None, c)
              | Inr stored \<Rightarrow>
                  (case rr_List rr of
                     Inl err \<Rightarrow> Some (Some (UnableToRefresh err), None, c)
                   | Inr items \<Rightarrow>
                       (case repair_ports (concat (map CollectServiceNodePorts items)) (NewPortAllocator (rp_portRange c), stored, rp_leaks c) of
                          None \<Rightarrow> None
                        | Some (rebuilt, stored', leaks) \<Rightarrow>
                            (case repair_leaks (pa_ForEach stored') (rebuilt, leaks) of
                               None \<Rightarrow> None
                             | Some (rebuilt', leaks') \<Rightarrow>
                                 let snapshot' = pa_Snapshot rebuilt' snapshot; c' = c\<lparr>rp_leaks := leaks'\<rparr>
                                 in case rr_CreateOrUpdate rr snapshot' of
                                      None \<Rightarrow> Some (None, Some snapshot', c')
                                    | Some (Conflict err) \<Rightarrow> Some (Some (Conflict err), Some snapshot', c')
                                    | Some _ \<Rightarrow> Some (Some (UnableToPersist ''''), Some snapshot', c'))))))"

text \<open>
  \<^verbatim>\<open>RetryOnConflict\<close> over \<^verbatim>\<open>ExponentialBackoff\<close>: at most \<open>steps\<close> calls, without the time between
  them; the function is told the number of the attempt.
\<close>

fun RetryOnConflict ::
    "nat \<Rightarrow> nat \<Rightarrow> repair_error option \<Rightarrow> (nat \<Rightarrow> 'c \<Rightarrow> (repair_error option \<times> 'c) option) \<Rightarrow> 'c \<Rightarrow> (repair_error option \<times> 'c) option" where
  "RetryOnConflict 0 i lastConflictErr fn c = Some (lastConflictErr, c)"
| "RetryOnConflict (Suc steps) i lastConflictErr fn c =
     (case fn i c of
        None \<Rightarrow> None
      | Some (None, c') \<Rightarrow> Some (None, c')
      | Some (Some (Conflict err), c') \<Rightarrow> RetryOnConflict steps (i + 1) (Some (Conflict err)) fn c'
      | Some (Some err, c') \<Rightarrow> Some (Some err, c'))"

definition DefaultBackoff_Steps :: nat where
  "DefaultBackoff_Steps = 4"

definition repair_RunOnce :: "(nat \<Rightarrow> repair_round) \<Rightarrow> Repair \<Rightarrow> (repair_error option \<times> Repair) option" where
  "repair_RunOnce rounds c =
     RetryOnConflict DefaultBackoff_Steps 0 None (\<lambda>i c. map_option (\<lambda>(err, _, c'). (err, c')) (repair_runOnce (rounds i) c)) c"

subsection \<open>The rebuilt allocation\<close>

lemma repair_ports_law:
  assumes "pa_ok rebuilt" "pa_ok stored" "pa_ports rebuilt \<inter> pa_ports stored = {}" "\<forall>p \<in> pa_ports rebuilt. leaks p = None"
  shows "\<exists>rebuilt' stored' leaks'. repair_ports ports (rebuilt, stored, leaks) = Some (rebuilt', stored', leaks') \<and> pa_ok rebuilt' \<and> pa_ok stored'
    \<and> pa_portRange rebuilt' = pa_portRange rebuilt \<and> pa_portRange stored' = pa_portRange stored
    \<and> pa_ports rebuilt' = pa_ports rebuilt \<union> {p \<in> set ports. pr_Contains (pa_portRange rebuilt) p}
    \<and> pa_ports stored' = pa_ports stored - {p \<in> set ports. pr_Contains (pa_portRange rebuilt) p}
    \<and> leaks' = (\<lambda>p. if p \<in> set ports \<and> pr_Contains (pa_portRange rebuilt) p then None else leaks p)"
  using assms
proof (induction ports arbitrary: rebuilt stored leaks)
  case Nil
  then show ?case by auto
next
  case (Cons port ports)
  obtain err rb where a: "pa_Allocate port rebuilt = Some (err, rb)" "pa_ok rb" "pa_portRange rb = pa_portRange rebuilt"
      "err = (if \<not> pr_Contains (pa_portRange rebuilt) port then Some (ErrNotInRange (pr_String (pa_portRange rebuilt)))
              else if port \<in> pa_ports rebuilt then Some ErrAllocated else None)"
      "pa_ports rb = (if err = None then insert port (pa_ports rebuilt) else pa_ports rebuilt)"
    using pa_Allocate_law [OF Cons.prems(1), of port] by blast
  obtain st where r: "pa_Release port stored = Some (None, st)" "pa_ok st" "pa_portRange st = pa_portRange stored" "pa_ports st = pa_ports stored - {port}"
    using pa_Release_law [OF Cons.prems(2)] by blast
  have h: "pa_Has stored port = Some (port \<in> pa_ports stored)" by (rule pa_Has_iff [OF Cons.prems(2)])
  show ?case
  proof (cases "err = None")
    case False
    then have "repair_port port (rebuilt, stored, leaks) = Some (rb, stored, leaks)"
      using a(1,4) by (auto simp: repair_port_def split: if_splits)
    moreover have same: "pa_ports rb = pa_ports rebuilt" using a(5) False by simp
    moreover have "port \<in> pa_ports rebuilt \<or> \<not> pr_Contains (pa_portRange rebuilt) port" using a(4) False by (auto split: if_splits)
    moreover have "pa_ports rb \<inter> pa_ports stored = {}" "\<forall>p \<in> pa_ports rb. leaks p = None" using Cons.prems(3,4) same by simp_all
    from Cons.IH [OF a(2) Cons.prems(2) this] obtain rb2 st2 leaks2 where ih: "repair_ports ports (rb, stored, leaks) = Some (rb2, st2, leaks2)"
        "pa_ok rb2" "pa_ok st2" "pa_portRange rb2 = pa_portRange rb" "pa_portRange st2 = pa_portRange stored"
        "pa_ports rb2 = pa_ports rb \<union> {p \<in> set ports. pr_Contains (pa_portRange rb) p}"
        "pa_ports st2 = pa_ports stored - {p \<in> set ports. pr_Contains (pa_portRange rb) p}"
        "leaks2 = (\<lambda>p. if p \<in> set ports \<and> pr_Contains (pa_portRange rb) p then None else leaks p)"
      by (elim exE conjE) (rule that)
    ultimately have step: "repair_ports (port # ports) (rebuilt, stored, leaks) = Some (rb2, st2, leaks2)"
      and eqs: "pa_ports rb2 = pa_ports rebuilt \<union> {p \<in> set (port # ports). pr_Contains (pa_portRange rebuilt) p}"
      "pa_ports st2 = pa_ports stored - {p \<in> set (port # ports). pr_Contains (pa_portRange rebuilt) p}"
      "leaks2 = (\<lambda>p. if p \<in> set (port # ports) \<and> pr_Contains (pa_portRange rebuilt) p then None else leaks p)"
      using Cons.prems(3,4) a(3) by (auto simp: fun_eq_iff)
    show ?thesis
    proof (intro exI conjI)
      show "repair_ports (port # ports) (rebuilt, stored, leaks) = Some (rb2, st2, leaks2)" by (fact step)
      show "pa_ok rb2" "pa_ok st2" "pa_portRange st2 = pa_portRange stored" by (fact ih)+
      show "pa_portRange rb2 = pa_portRange rebuilt" using ih(4) a(3) by simp
    qed (fact eqs)+
  next
    case True
    have in_range: "pr_Contains (pa_portRange rebuilt) port" "port \<notin> pa_ports rebuilt" using a(4) True by (auto split: if_splits)
    define st' where "st' = (if port \<in> pa_ports stored then st else stored)"
    have s: "pa_ok st'" "pa_portRange st' = pa_portRange stored" "pa_ports st' = pa_ports stored - {port}"
      using r Cons.prems(2) by (auto simp: st'_def)
    have "repair_port port (rebuilt, stored, leaks) = Some (rb, st', leaks(port := None))"
      using a(1) True h r(1) by (simp add: repair_port_def st'_def)
    then have step: "repair_ports (port # ports) (rebuilt, stored, leaks) = repair_ports ports (rb, st', leaks(port := None))" by simp
    have rb: "pa_ports rb = insert port (pa_ports rebuilt)" using a(5) True by simp
    have "pa_ports rb \<inter> pa_ports st' = {}" "\<forall>p \<in> pa_ports rb. (leaks(port := None)) p = None"
      using Cons.prems(3,4) s(3) rb by auto
    from Cons.IH [OF a(2) s(1) this] obtain rb2 st2 leaks2 where ih: "repair_ports ports (rb, st', leaks(port := None)) = Some (rb2, st2, leaks2)"
        "pa_ok rb2" "pa_ok st2" "pa_portRange rb2 = pa_portRange rb" "pa_portRange st2 = pa_portRange st'"
        "pa_ports rb2 = pa_ports rb \<union> {p \<in> set ports. pr_Contains (pa_portRange rb) p}"
        "pa_ports st2 = pa_ports st' - {p \<in> set ports. pr_Contains (pa_portRange rb) p}"
        "leaks2 = (\<lambda>p. if p \<in> set ports \<and> pr_Contains (pa_portRange rb) p then None else (leaks(port := None)) p)"
      by (elim exE conjE) (rule that)
    have eqs: "pa_ports rb2 = pa_ports rebuilt \<union> {p \<in> set (port # ports). pr_Contains (pa_portRange rebuilt) p}"
      "pa_ports st2 = pa_ports stored - {p \<in> set (port # ports). pr_Contains (pa_portRange rebuilt) p}"
      "leaks2 = (\<lambda>p. if p \<in> set (port # ports) \<and> pr_Contains (pa_portRange rebuilt) p then None else leaks p)"
      using ih(6-8) in_range a(3) s(3) rb by (auto simp: fun_eq_iff)
    show ?thesis
    proof (intro exI conjI)
      show "repair_ports (port # ports) (rebuilt, stored, leaks) = Some (rb2, st2, leaks2)" using step ih(1) by simp
      show "pa_ok rb2" "pa_ok st2" by (fact ih)+
      show "pa_portRange rb2 = pa_portRange rebuilt" "pa_portRange st2 = pa_portRange stored" using ih(4,5) a(3) s(2) by simp_all
    qed (fact eqs)+
  qed
qed

text \<open>What becomes of a port in the old set: it is kept, or not, by its counter.\<close>

definition leak_kept :: "('k \<rightharpoonup> int) \<Rightarrow> 'k \<Rightarrow> bool" where
  "leak_kept leaks p = (case leaks p of None \<Rightarrow> True | Some c \<Rightarrow> c > 0)"

definition leak_next :: "('k \<rightharpoonup> int) \<Rightarrow> 'k \<Rightarrow> int option" where
  "leak_next leaks p = (case leaks p of None \<Rightarrow> Some 1 | Some c \<Rightarrow> Some (if c > 0 then c - 1 else c))"

lemma repair_leaks_law:
  assumes "pa_ok rebuilt" "distinct ports"
  shows "\<exists>rebuilt' leaks'. repair_leaks ports (rebuilt, leaks) = Some (rebuilt', leaks') \<and> pa_ok rebuilt' \<and> pa_portRange rebuilt' = pa_portRange rebuilt
    \<and> pa_ports rebuilt' = pa_ports rebuilt \<union> {p \<in> set ports. pr_Contains (pa_portRange rebuilt) p \<and> leak_kept leaks p}
    \<and> leaks' = (\<lambda>p. if p \<in> set ports then leak_next leaks p else leaks p)"
  using assms
proof (induction ports arbitrary: rebuilt leaks)
  case Nil
  then show ?case by auto
next
  case (Cons port ports)
  obtain err rb where a: "pa_Allocate port rebuilt = Some (err, rb)" "pa_ok rb" "pa_portRange rb = pa_portRange rebuilt"
      "pa_ports rb = (if pr_Contains (pa_portRange rebuilt) port then insert port (pa_ports rebuilt) else pa_ports rebuilt)"
    using pa_Allocate_law [OF Cons.prems(1), of port] by (auto split: if_splits)
  define rb' where "rb' = (if leak_kept leaks port then rb else rebuilt)"
  have step: "repair_leak port (rebuilt, leaks) = Some (rb', leaks(port := leak_next leaks port))"
    using a(1) by (cases "leaks port") (auto simp: repair_leak_def rb'_def leak_kept_def leak_next_def numRepairsBeforeLeakCleanup_def)
  have rb': "pa_ok rb'" "pa_portRange rb' = pa_portRange rebuilt"
      "pa_ports rb' = pa_ports rebuilt \<union> (if pr_Contains (pa_portRange rebuilt) port \<and> leak_kept leaks port then {port} else {})"
    using a Cons.prems(1) by (auto simp: rb'_def)
  have other: "leak_kept (leaks(port := v)) p = leak_kept leaks p" "leak_next (leaks(port := v)) p = leak_next leaks p" if "p \<in> set ports" for p v
    using that Cons.prems(2) by (auto simp: leak_kept_def leak_next_def)
  have "distinct ports" using Cons.prems(2) by simp
  from Cons.IH [OF rb'(1) this, of "leaks(port := leak_next leaks port)"]
  obtain rb2 leaks2 where ih: "repair_leaks ports (rb', leaks(port := leak_next leaks port)) = Some (rb2, leaks2)" "pa_ok rb2"
      "pa_portRange rb2 = pa_portRange rb'"
      "pa_ports rb2 = pa_ports rb' \<union> {p \<in> set ports. pr_Contains (pa_portRange rb') p \<and> leak_kept (leaks(port := leak_next leaks port)) p}"
      "leaks2 = (\<lambda>p. if p \<in> set ports then leak_next (leaks(port := leak_next leaks port)) p else (leaks(port := leak_next leaks port)) p)"
    by (elim exE conjE) (rule that)
  have "pa_ports rb2 = pa_ports rebuilt \<union> {p \<in> set (port # ports). pr_Contains (pa_portRange rebuilt) p \<and> leak_kept leaks p}"
    using ih(4) rb'(2,3) other(1) by (auto split: if_splits)
  moreover have "leaks2 = (\<lambda>p. if p \<in> set (port # ports) then leak_next leaks p else leaks p)"
    using ih(5) other(2) by (auto simp: fun_eq_iff)
  ultimately show ?case using step ih(1,2,3) rb'(2) by simp
qed

subsection \<open>Properties\<close>

text \<open>The node ports in the range that the listed services name, and the allocator a snapshot is read as.\<close>

definition listed_ports :: "Repair \<Rightarrow> Service list \<Rightarrow> int set" where
  "listed_ports c items = {p \<in> set (concat (map CollectServiceNodePorts items)). pr_Contains (rp_portRange c) p}"

definition reads :: "Repair \<Rightarrow> RangeAllocation \<Rightarrow> PortAllocator \<Rightarrow> bool" where
  "reads c snapshot r \<longleftrightarrow> pa_NewFromSnapshot (repair_read c snapshot) = Inr r \<and> pa_ok r"

lemma reads_Snapshot:
  assumes "pa_ok r" "pa_portRange r = rp_portRange c" "range_ok (rp_portRange c)"
  shows "\<exists>r'. reads c (pa_Snapshot r dst) r' \<and> pa_ports r' = pa_ports r"
proof -
  have "ra_Range (pa_Snapshot r dst) = pr_String (rp_portRange c)"
    using assms by (simp add: pa_Snapshot_def bm_Snapshot_def pa_ok_def)
  then have "repair_read c (pa_Snapshot r dst) = pa_Snapshot r dst" by (simp add: repair_read_def)
  then show ?thesis using pa_NewFromSnapshot_Snapshot [of r dst] assms by (auto simp: reads_def)
qed

lemma repair_runOnce_law:
  assumes range: "range_ok (rp_portRange c)" and get: "rr_Get rr = Inr snapshot" and read: "reads c snapshot stored"
    and list: "rr_List rr = Inr items"
  shows "\<exists>err snapshot' c' r. repair_runOnce rr c = Some (err, Some snapshot', c') \<and> rp_portRange c' = rp_portRange c
    \<and> reads c' snapshot' r
    \<and> pa_ports r = listed_ports c items \<union> {p \<in> pa_ports stored - listed_ports c items. pr_Contains (rp_portRange c) p \<and> leak_kept (rp_leaks c) p}
    \<and> rp_leaks c' = (\<lambda>p. if p \<in> listed_ports c items then None else if p \<in> pa_ports stored then leak_next (rp_leaks c) p else rp_leaks c p)"
proof -
  let ?pr = "rp_portRange c" and ?ports = "concat (map CollectServiceNodePorts items)" and ?L = "listed_ports c items"
  have st: "pa_NewFromSnapshot (repair_read c snapshot) = Inr stored" "pa_ok stored" using read by (auto simp: reads_def)
  have new: "pa_ok (NewPortAllocator ?pr)" "pa_ports (NewPortAllocator ?pr) = {}" "pa_portRange (NewPortAllocator ?pr) = ?pr"
    using range pa_new_ok [of ?pr] by (auto simp: range_ok_def)
  have "pa_ports (NewPortAllocator ?pr) \<inter> pa_ports stored = {}" "\<forall>p \<in> pa_ports (NewPortAllocator ?pr). rp_leaks c p = None"
    using new(2) by simp_all
  from repair_ports_law [OF new(1) st(2) this, of ?ports]
  obtain rb st' leaks where p: "repair_ports ?ports (NewPortAllocator ?pr, stored, rp_leaks c) = Some (rb, st', leaks)" "pa_ok rb"
      "pa_portRange rb = ?pr" "pa_ports rb = ?L" "pa_ports st' = pa_ports stored - ?L" "leaks = (\<lambda>p. if p \<in> ?L then None else rp_leaks c p)"
    unfolding new by (elim exE conjE) (rule that, simp_all add: listed_ports_def fun_eq_iff)
  have fin: "finite (pa_ports st')" by (simp add: pa_ports_def)
  have each: "set (pa_ForEach st') = pa_ports st'" "distinct (pa_ForEach st')" using fin by (simp_all add: pa_ForEach_eq)
  from repair_leaks_law [OF p(2) each(2), of leaks]
  obtain rb' leaks' where l: "repair_leaks (pa_ForEach st') (rb, leaks) = Some (rb', leaks')" "pa_ok rb'" "pa_portRange rb' = ?pr"
      "pa_ports rb' = ?L \<union> {p \<in> pa_ports st'. pr_Contains ?pr p \<and> leak_kept leaks p}"
      "leaks' = (\<lambda>p. if p \<in> pa_ports st' then leak_next leaks p else leaks p)"
    unfolding each p(3,4) by (elim exE conjE) (rule that)
  let ?s = "pa_Snapshot rb' (repair_read c snapshot)" and ?c = "c\<lparr>rp_leaks := leaks'\<rparr>"
  obtain r where r: "reads ?c ?s r" "pa_ports r = pa_ports rb'"
    using reads_Snapshot [of rb' ?c "repair_read c snapshot"] l(2,3) range by auto
  have run: "\<exists>err. repair_runOnce rr c = Some (err, Some ?s, ?c)"
    using get st(1) list p(1) l(1) by (cases "rr_CreateOrUpdate rr ?s") (auto simp: repair_runOnce_def Let_def split: repair_error.splits)
  have same: "leak_kept leaks p = leak_kept (rp_leaks c) p" "leak_next leaks p = leak_next (rp_leaks c) p" if "p \<notin> ?L" for p
    using that by (simp_all add: p(6) leak_kept_def leak_next_def)
  have "pa_ports r = ?L \<union> {p \<in> pa_ports stored - ?L. pr_Contains ?pr p \<and> leak_kept (rp_leaks c) p}"
    using r(2) l(4) p(5) same(1) by auto
  moreover have "leaks' = (\<lambda>p. if p \<in> ?L then None else if p \<in> pa_ports stored then leak_next (rp_leaks c) p else rp_leaks c p)"
    using l(5) p(5,6) same(2) by (auto simp: fun_eq_iff)
  ultimately show ?thesis using run r(1) by (elim exE) (intro exI conjI, assumption, simp_all)
qed

text \<open>
  C16. One run of the repair writes exactly the node ports in the range that the listed services
  name, and of the other ports that were allocated those in the range whose counter has not run
  out; it does not panic, whatever the services name. The counter of a used port is dropped, that
  of a leaked one is set or decremented.
\<close>

theorem repair_rebuilds:
  assumes "range_ok (rp_portRange c)" "rr_Get rr = Inr snapshot" "reads c snapshot stored" "rr_List rr = Inr items"
  shows "\<exists>err snapshot' c' r. repair_runOnce rr c = Some (err, Some snapshot', c') \<and> reads c' snapshot' r
    \<and> pa_ports r = listed_ports c items \<union> {p \<in> pa_ports stored - listed_ports c items. pr_Contains (rp_portRange c) p \<and> leak_kept (rp_leaks c) p}
    \<and> (\<forall>p. rp_leaks c' p = (if p \<in> listed_ports c items then None else if p \<in> pa_ports stored then leak_next (rp_leaks c) p else rp_leaks c p))"
  using repair_runOnce_law [OF assms] by (elim exE conjE) (intro exI conjI, assumption+, simp)

definition example_round :: repair_round where
  "example_round = \<lparr>rr_Get = Inr (pa_Snapshot example_ports \<lparr>ra_Range = '''', ra_Data = []\<rparr>), rr_List = Inr [example_service],
     rr_CreateOrUpdate = (\<lambda>_. None)\<rparr>"

definition example_repair :: Repair where
  "example_repair = NewRepair \<lparr>pr_Base = 30000, pr_Size = 3\<rparr>"

lemma example_reads: "\<exists>r. reads example_repair (pa_Snapshot example_ports \<lparr>ra_Range = '''', ra_Data = []\<rparr>) r \<and> pa_ports r = {}"
  using reads_Snapshot [of example_ports example_repair] example_ports_ok example_range_ok by (simp add: example_repair_def NewRepair_def)

theorem repair_rebuilds_witness:
  "\<exists>err snapshot c r. repair_runOnce example_round example_repair = Some (err, Some snapshot, c) \<and> reads c snapshot r \<and> 30001 \<in> pa_ports r"
proof -
  let ?s = "pa_Snapshot example_ports \<lparr>ra_Range = '''', ra_Data = []\<rparr>"
  obtain r where "reads example_repair ?s r" using example_reads by blast
  moreover have "range_ok (rp_portRange example_repair)" using example_range_ok by (simp add: example_repair_def NewRepair_def)
  moreover have "rr_Get example_round = Inr ?s" "rr_List example_round = Inr [example_service]" by (simp_all add: example_round_def)
  moreover have "30001 \<in> listed_ports example_repair [example_service]"
    by (simp add: listed_ports_def CollectServiceNodePorts_def example_service_def example_repair_def NewRepair_def pr_Contains_def)
  ultimately show ?thesis using repair_rebuilds [of example_repair example_round ?s r "[example_service]"] by blast
qed

text \<open>
  C39. A port that is allocated and that no listed service names as a node port survives two runs
  of the repair and is free after the third. The health check port of a service is such a port:
  the service holds it, but \<^verbatim>\<open>CollectServiceNodePorts\<close> does not name it, so three runs of the
  repair make it available for another service.
\<close>

theorem repair_frees_unnamed_port:
  assumes range: "range_ok (rp_portRange c0)" and new: "rp_leaks c0 port = None" and inr: "pr_Contains (rp_portRange c0) port"
    and run1: "rr_Get rr1 = Inr s0" "reads c0 s0 r0" "rr_List rr1 = Inr items1" "repair_runOnce rr1 c0 = Some (err1, Some s1, c1)"
    and run2: "rr_Get rr2 = Inr s1" "rr_List rr2 = Inr items2" "repair_runOnce rr2 c1 = Some (err2, Some s2, c2)"
    and run3: "rr_Get rr3 = Inr s2" "rr_List rr3 = Inr items3" "repair_runOnce rr3 c2 = Some (err3, Some s3, c3)"
    and unnamed: "port \<in> pa_ports r0" "\<forall>items \<in> {items1, items2, items3}. \<forall>svc \<in> set items. port \<notin> set (CollectServiceNodePorts svc)"
  shows "\<exists>r1 r2 r3. reads c1 s1 r1 \<and> port \<in> pa_ports r1 \<and> reads c2 s2 r2 \<and> port \<in> pa_ports r2 \<and> reads c3 s3 r3 \<and> port \<notin> pa_ports r3"
proof -
  have not: "port \<notin> listed_ports c items" if "items \<in> {items1, items2, items3}" for c items
    using that unnamed(2) by (auto simp: listed_ports_def)
  obtain r1 where 1: "rp_portRange c1 = rp_portRange c0" "reads c1 s1 r1" "port \<in> pa_ports r1" "rp_leaks c1 port = Some 1"
    using repair_runOnce_law [OF range run1(1,2,3)] run1(4) new inr unnamed(1) not [of items1 c0]
    by (auto simp: leak_kept_def leak_next_def)
  have range1: "range_ok (rp_portRange c1)" "pr_Contains (rp_portRange c1) port" using range inr 1(1) by simp_all
  obtain r2 where 2: "rp_portRange c2 = rp_portRange c1" "reads c2 s2 r2" "port \<in> pa_ports r2" "rp_leaks c2 port = Some 0"
    using repair_runOnce_law [OF range1(1) run2(1) 1(2) run2(2)] run2(3) 1 range1(2) not [of items2 c1]
    by (auto simp: leak_kept_def leak_next_def)
  have range2: "range_ok (rp_portRange c2)" using range1 2(1) by simp
  obtain r3 where "reads c3 s3 r3" "port \<notin> pa_ports r3"
    using repair_runOnce_law [OF range2 run3(1) 2(2) run3(2)] run3(3) 2(4) not [of items3 c2]
    by (auto simp: leak_kept_def)
  then show ?thesis using 1 2 by blast
qed

definition example_local :: Service where
  "example_local = example_service\<lparr>svc_Type := ServiceTypeLoadBalancer,
     svc_Annotations := [BetaAnnotationExternalTraffic \<mapsto> ''OnlyLocal'', BetaAnnotationHealthCheckNodePort \<mapsto> Itoa 30002]\<rparr>"

definition example_round_of :: "RangeAllocation \<Rightarrow> repair_round" where
  "example_round_of s = \<lparr>rr_Get = Inr s, rr_List = Inr [example_local], rr_CreateOrUpdate = (\<lambda>_. None)\<rparr>"

lemma example_local_ports: "CollectServiceNodePorts example_local = [30001]" "health_ports example_env example_local = {30002}"
proof -
  show "CollectServiceNodePorts example_local = [30001]" by (simp add: CollectServiceNodePorts_def example_local_def example_service_def)
  have n: "AlphaAnnotationExternalTraffic \<noteq> BetaAnnotationExternalTraffic" "AlphaAnnotationHealthCheckNodePort \<noteq> BetaAnnotationExternalTraffic"
    by (simp_all add: AlphaAnnotationExternalTraffic_def BetaAnnotationExternalTraffic_def AlphaAnnotationHealthCheckNodePort_def)
  have needs: "NeedsHealthCheck example_local"
    using n annotation_names by (simp add: NeedsHealthCheck_def example_local_def)
  have "ParseInt64 (Itoa 30002) = Some 30002" by (rule ParseInt64_Itoa) (simp add: is_int64_def)
  then have "GetServiceHealthCheckNodePort example_local = wrap32 30002"
    using n annotation_names by (intro GetServiceHealthCheckNodePort_beta [OF needs]) (simp_all add: example_local_def)
  moreover have "wrap32 30002 = 30002" by (simp add: wrap32_id is_int32_def)
  ultimately show "health_ports example_env example_local = {30002}"
    using needs by (simp add: health_ports_def shouldCheckOrAssignHealthCheckNodePort_def example_env_def) (simp add: example_local_def)
qed

theorem repair_frees_unnamed_port_witness:
  "\<exists>s0 r0 e1 s1 c1 e2 s2 c2 e3 s3 c3 r3. 30002 \<in> health_ports example_env example_local \<and> reads example_repair s0 r0 \<and> 30002 \<in> pa_ports r0
    \<and> repair_runOnce (example_round_of s0) example_repair = Some (e1, Some s1, c1)
    \<and> repair_runOnce (example_round_of s1) c1 = Some (e2, Some s2, c2)
    \<and> repair_runOnce (example_round_of s2) c2 = Some (e3, Some s3, c3) \<and> reads c3 s3 r3 \<and> 30002 \<notin> pa_ports r3"
proof -
  have pr: "rp_portRange example_repair = \<lparr>pr_Base = 30000, pr_Size = 3\<rparr>" "rp_leaks example_repair = Map.empty"
    by (simp_all add: example_repair_def NewRepair_def)
  obtain pa where pa: "pa_ok pa" "pa_portRange pa = \<lparr>pr_Base = 30000, pr_Size = 3\<rparr>" "pa_ports pa = {30002}"
    using pa_Allocate_law [of example_ports 30002] example_ports_ok by (auto simp: pr_Contains_def)
  define s0 where "s0 = pa_Snapshot pa \<lparr>ra_Range = '''', ra_Data = []\<rparr>"
  have range: "range_ok (rp_portRange example_repair)" using example_range_ok pr(1) by simp
  obtain r0 where r0: "reads example_repair s0 r0" "pa_ports r0 = {30002}"
    unfolding s0_def using reads_Snapshot [of pa example_repair "\<lparr>ra_Range = '''', ra_Data = []\<rparr>"] pa pr(1) range by auto
  have g: "rr_Get (example_round_of s) = Inr s" "rr_List (example_round_of s) = Inr [example_local]" for s
    by (simp_all add: example_round_of_def)
  obtain e1 s1 c1 r1 where 1: "repair_runOnce (example_round_of s0) example_repair = Some (e1, Some s1, c1)"
      "rp_portRange c1 = rp_portRange example_repair" "reads c1 s1 r1"
    using repair_runOnce_law [OF range g(1) r0(1) g(2)] by blast
  obtain e2 s2 c2 r2 where 2: "repair_runOnce (example_round_of s1) c1 = Some (e2, Some s2, c2)"
      "rp_portRange c2 = rp_portRange c1" "reads c2 s2 r2"
    using repair_runOnce_law [OF _ g(1) 1(3) g(2)] range 1(2) by auto
  obtain e3 s3 c3 where 3: "repair_runOnce (example_round_of s2) c2 = Some (e3, Some s3, c3)"
    using repair_runOnce_law [OF _ g(1) 2(3) g(2)] range 1(2) 2(2) by auto
  have "rp_leaks example_repair 30002 = None" "pr_Contains (rp_portRange example_repair) 30002" by (simp_all add: pr pr_Contains_def)
  from repair_frees_unnamed_port [OF range this g(1) r0(1) g(2) 1(1) g(1) g(2) 2(1) g(1) g(2) 3]
  obtain r3 where r3: "reads c3 s3 r3" "30002 \<notin> pa_ports r3" using r0(2) example_local_ports(1) by auto
  have p: "30002 \<in> health_ports example_env example_local" "30002 \<in> pa_ports r0" using example_local_ports(2) r0(2) by simp_all
  show ?thesis by (intro exI conjI) (rule p r0(1) 1(1) 2(1) 3 r3)+
qed

end
