(* ===== verification/IPRepair.thy ===== *)
theory IPRepair
  imports PortRepair
begin

section \<open>The repair of the cluster IPs (\<^verbatim>\<open>ipallocator/controller/repair.go\<close>)\<close>

text \<open>
  The controller that rebuilds the allocation of the cluster IPs from the services. It works as the
  one for the node ports, with the counters of the leaks under the text of the address. What one
  attempt reads and writes is the same parameter; the theorems are about IPv4 networks, as those of
  the IP allocator.
\<close>

record IPRepair =
  ir_network :: IPNet
  ir_leaks :: "string \<rightharpoonup> int"

definition NewIPRepair :: "IPNet \<Rightarrow> IPRepair" where
  "NewIPRepair network = \<lparr>ir_network = network, ir_leaks = Map.empty\<rparr>"

type_synonym ip_rebuild = "Range \<times> Range \<times> (string \<rightharpoonup> int)"

definition repair_ip :: "Service \<Rightarrow> ip_rebuild \<Rightarrow> (repair_error option \<times> ip_rebuild) option" where
  "repair_ip svc s =
     (case s of (rebuilt, stored, leaks) \<Rightarrow>
        if \<not> IsServiceIPSet svc then Some (None, s)
        else let addr = ParseIP (svc_ClusterIP svc)
             in if addr = [] then Some (None, s)
                else case r_Allocate addr rebuilt of
                       None \<Rightarrow> None
                     | Some (None, rebuilt') \<Rightarrow>
                         (case r_Has stored addr of
                            None \<Rightarrow> None
                          | Some True \<Rightarrow>
                              map_option (\<lambda>(_, stored'). (None, rebuilt', stored', leaks(ip_String addr := None))) (r_Release addr stored)
                          | Some False \<Rightarrow> Some (None, rebuilt', stored, leaks(ip_String addr := None)))
                     | Some (Some IPErrAllocated, rebuilt') \<Rightarrow> Some (None, rebuilt', stored, leaks)
                     | Some (Some IPErrNotInRange, rebuilt') \<Rightarrow> Some (None, rebuilt', stored, leaks)
                     | Some (Some IPErrFull, rebuilt') \<Rightarrow> Some (Some RangeFull, rebuilt', stored, leaks)
                     | Some (Some err, rebuilt') \<Rightarrow> Some (Some (UnableToAllocate err), rebuilt', stored, leaks))"

fun repair_ips :: "Service list \<Rightarrow> ip_rebuild \<Rightarrow> (repair_error option \<times> ip_rebuild) option" where
  "repair_ips [] s = Some (None, s)"
| "repair_ips (svc # items) s =
     (case repair_ip svc s of
        None \<Rightarrow> None
      | Some (Some err, s') \<Rightarrow> Some (Some err, s')
      | Some (None, s') \<Rightarrow> repair_ips items s')"

definition ip_leak :: "ip \<Rightarrow> Range \<times> (string \<rightharpoonup> int) \<Rightarrow> (Range \<times> (string \<rightharpoonup> int)) option" where
  "ip_leak addr s =
     (case s of (rebuilt, leaks) \<Rightarrow>
        let found = (leaks (ip_String addr) \<noteq> None);
            count = (case leaks (ip_String addr) of None \<Rightarrow> numRepairsBeforeLeakCleanup - 1 | Some c \<Rightarrow> c)
        in if \<not> found \<or> count > 0
           then map_option (\<lambda>(_, rebuilt'). (rebuilt', leaks(ip_String addr \<mapsto> count - 1))) (r_Allocate addr rebuilt)
           else Some (rebuilt, leaks))"

fun ip_leaks :: "ip list \<Rightarrow> Range \<times> (string \<rightharpoonup> int) \<Rightarrow> (Range \<times> (string \<rightharpoonup> int)) option" where
  "ip_leaks [] s = Some s"
| "ip_leaks (addr # addrs) s = (case ip_leak addr s of None \<Rightarrow> None | Some s' \<Rightarrow> ip_leaks addrs s')"

definition ip_repair_read :: "IPRepair \<Rightarrow> RangeAllocation \<Rightarrow> RangeAllocation" where
  "ip_repair_read c snapshot = (if ra_Range snapshot = '''' then snapshot\<lparr>ra_Range := net_String (ir_network c)\<rparr> else snapshot)"

definition ip_repair_runOnce :: "repair_round \<Rightarrow> IPRepair \<Rightarrow> (repair_error option \<times> RangeAllocation option \<times> IPRepair) option" where
  "ip_repair_runOnce rr c =
     (case rr_Get rr of
        Inl err \<Rightarrow> Some (Some (UnableToRefresh err), None, c)
      | Inr snapshot0 \<Rightarrow>
          (let snapshot = ip_repair_read c snapshot0
           in case r_NewFromSnapshot snapshot of
                None \<Rightarrow> None
              | Some (Inl err) \<Rightarrow> Some (Some (UnableToRebuildIPs err), None, c)
              | Some (Inr stored) \<Rightarrow>
                  (case rr_List rr of
                     Inl err \<Rightarrow> Some (Some (UnableToRefresh err), None, c)
                   | Inr items \<Rightarrow>
                       (case NewCIDRRange (ir_network c) of
                          None \<Rightarrow> None
                        | Some new \<Rightarrow>
                            (case repair_ips items (new, stored, ir_leaks c) of
                               None \<Rightarrow> None
                             | Some (Some err, _, _, leaks) \<Rightarrow> Some (Some err, None, c\<lparr>ir_leaks := leaks\<rparr>)
                             | Some (None, rebuilt, stored', leaks) \<Rightarrow>
                                 (case ip_leaks (r_ForEach stored') (rebuilt, leaks) of
                                    None \<Rightarrow> None
                                  | Some (rebuilt', leaks') \<Rightarrow>
                                      let snapshot' = r_Snapshot rebuilt' snapshot; c' = c\<lparr>ir_leaks := leaks'\<rparr>
                                      in case rr_CreateOrUpdate rr snapshot' of
                                           None \<Rightarrow> Some (None, Some snapshot', c')
                                         | Some (Conflict err) \<Rightarrow> Some (Some (Conflict err), Some snapshot', c')
                                         | Some _ \<Rightarrow> Some (Some (UnableToPersist ''''), Some snapshot', c')))))))"

definition ip_repair_RunOnce :: "(nat \<Rightarrow> repair_round) \<Rightarrow> IPRepair \<Rightarrow> (repair_error option \<times> IPRepair) option" where
  "ip_repair_RunOnce rounds c =
     RetryOnConflict DefaultBackoff_Steps 0 None (\<lambda>i c. map_option (\<lambda>(err, _, c'). (err, c')) (ip_repair_runOnce (rounds i) c)) c"

subsection \<open>The keys of the counters\<close>

definition ip_key :: "nat \<Rightarrow> string" where
  "ip_key n = ip_String (big_Bytes n)"

definition inside :: "IPNet \<Rightarrow> nat \<Rightarrow> nat set" where
  "inside n ones = {first_address n <..< first_address n + 2 ^ (32 - ones) - 1}"

lemma four_bytes: "length bs = 4 \<Longrightarrow> \<exists>a b c d. bs = [a, b, c, d]"
  by (simp add: numeral_eq_Suc length_Suc_conv) blast

lemma big_Bytes_To4:
  assumes "To4 addr \<noteq> []" "2 ^ 24 \<le> ip_num addr"
  shows "big_Bytes (ip_num addr) = To4 addr"
proof -
  obtain a b c d where t: "To4 addr = [a, b, c, d]" using four_bytes To4_length [OF assms(1)] by blast
  have "a \<noteq> 0"
  proof
    assume "a = 0"
    then have "ip_num addr = big_SetBytes [b, c, d]" by (simp add: ip_num_def t big_SetBytes_def)
    then show False using big_SetBytes_bound [of "[b, c, d]"] assms(2) by simp
  qed
  then show ?thesis using big_Bytes_SetBytes [of "To4 addr"] by (simp add: ip_num_def t)
qed

lemma ip_String_key:
  assumes "To4 addr \<noteq> []" "2 ^ 24 \<le> ip_num addr"
  shows "ip_String addr = ip_key (ip_num addr)"
proof -
  obtain a b c d where t: "To4 addr = [a, b, c, d]" using four_bytes To4_length [OF assms(1)] by blast
  have "addr \<noteq> []" using assms(1) by (auto simp: To4_def)
  then show ?thesis using t by (simp add: ip_key_def big_Bytes_To4 [OF assms] ip_String_def) (simp add: To4_def)
qed

lemma ip_key_inj:
  assumes "m \<in> {2 ^ 24 ..< 2 ^ 32}" "n \<in> {2 ^ 24 ..< 2 ^ 32}"
  shows "ip_key m = ip_key n \<longleftrightarrow> m = n"
proof -
  have l: "length (big_Bytes k) = 4" if "k \<in> {2 ^ 24 ..< 2 ^ 32}" for k by (rule big_Bytes_4) (use that in auto)
  obtain a b c d where m: "big_Bytes m = [a, b, c, d]" using four_bytes [OF l [OF assms(1)]] by blast
  obtain a' b' c' d' where n: "big_Bytes n = [a', b', c', d']" using four_bytes [OF l [OF assms(2)]] by blast
  show ?thesis
  proof
    assume "ip_key m = ip_key n"
    then have "ParseIP (ip_String [a, b, c, d]) = ParseIP (ip_String [a', b', c', d'])" unfolding ip_key_def m n by (rule arg_cong)
    then have "big_Bytes m = big_Bytes n" unfolding ParseIP_String m n by simp
    then have "big_SetBytes (big_Bytes m) = big_SetBytes (big_Bytes n)" by (rule arg_cong)
    then show "m = n" by simp
  qed simp
qed

lemma inside_eq:
  assumes "r_ok r ones"
  shows "inside (r_net r) ones = {r_base r ..< r_base r + nat (r_max r)}"
proof -
  have "{f <..< f + p - 1} = {f + 1 ..< f + 1 + (p - 2)}" for f p :: nat by auto
  then show ?thesis using assms r_limits(4) [OF assms] by (simp only: inside_def first_address_def r_ok_def)
qed

lemma r_contains_inside:
  assumes "r_ok r ones"
  shows "fst (r_contains r addr) \<longleftrightarrow> To4 addr \<noteq> [] \<and> ip_num addr \<in> inside (r_net r) ones"
proof -
  have "int x < int b + m \<longleftrightarrow> x < b + nat m" if "0 \<le> m" for x b m using that by linarith
  then show ?thesis using r_limits(3) [OF assms] by (simp add: inside_eq [OF assms] r_contains_iff [OF assms])
qed

lemma inside_bounds: "service_net n ones \<Longrightarrow> inside n ones \<subseteq> {2 ^ 24 ..< 2 ^ 32}"
  using service_net_bounds(1) [of n ones] by (auto simp: inside_def first_address_def service_net_def)

lemma r_ips_inside:
  assumes "r_ok r ones"
  shows "r_ips r \<subseteq> inside (r_net r) ones"
proof
  fix x
  assume "x \<in> r_ips r"
  then show "x \<in> inside (r_net r) ones" using r_ips_range [OF assms, of x] r_limits(3) [OF assms] unfolding inside_eq [OF assms] atLeastLessThan_iff by linarith
qed

subsection \<open>The rebuilt allocation\<close>

text \<open>The addresses of a network that the services of a list have.\<close>

definition listed_ips :: "nat set \<Rightarrow> Service list \<Rightarrow> nat set" where
  "listed_ips net items =
     {n \<in> net. \<exists>svc \<in> set items. IsServiceIPSet svc \<and> To4 (ParseIP (svc_ClusterIP svc)) \<noteq> [] \<and> ip_num (ParseIP (svc_ClusterIP svc)) = n}"

lemma repair_ip_law:
  assumes ok: "r_ok rebuilt ones" "r_ok stored ones'"
  shows "\<exists>rebuilt' stored'. repair_ip svc (rebuilt, stored, leaks)
      = Some (None, rebuilt', stored', (\<lambda>k. if k \<in> ip_key ` (listed_ips (inside (r_net rebuilt) ones) [svc] - r_ips rebuilt) then None else leaks k))
    \<and> r_ok rebuilt' ones \<and> r_net rebuilt' = r_net rebuilt \<and> r_ok stored' ones' \<and> r_net stored' = r_net stored
    \<and> r_ips rebuilt' = r_ips rebuilt \<union> listed_ips (inside (r_net rebuilt) ones) [svc]
    \<and> r_ips stored' = r_ips stored - (listed_ips (inside (r_net rebuilt) ones) [svc] - r_ips rebuilt)"
proof -
  let ?addr = "ParseIP (svc_ClusterIP svc)" and ?L = "listed_ips (inside (r_net rebuilt) ones) [svc]"
  obtain err rb where a: "r_Allocate ?addr rebuilt = Some (err, rb)" "r_ok rb ones" "r_net rb = r_net rebuilt"
      "err = (if \<not> fst (r_contains rebuilt ?addr) then Some IPErrNotInRange else if ip_num ?addr \<in> r_ips rebuilt then Some IPErrAllocated else None)"
      "r_ips rb = (if err = None then insert (ip_num ?addr) (r_ips rebuilt) else r_ips rebuilt)"
    using r_Allocate_law [OF ok(1), of ?addr] by blast
  obtain st where r: "r_Release ?addr stored = Some (None, st)" "r_ok st ones'" "r_net st = r_net stored" "r_ips st = r_ips stored - {ip_num ?addr}"
    using r_Release_law [OF ok(2)] by blast
  have h: "r_Has stored ?addr = Some (ip_num ?addr \<in> r_ips stored)" by (rule r_Has_iff [OF ok(2)])
  have L: "?L = (if IsServiceIPSet svc \<and> fst (r_contains rebuilt ?addr) then {ip_num ?addr} else {})"
    using r_contains_inside [OF ok(1)] by (auto simp: listed_ips_def)
  have To4: "To4 [] = []" by (simp add: To4_def)
  show ?thesis
  proof (cases "IsServiceIPSet svc \<and> ?addr \<noteq> [] \<and> err = None")
    case True
    have in_range: "fst (r_contains rebuilt ?addr)" "ip_num ?addr \<notin> r_ips rebuilt" using a(4) True by (auto split: if_splits)
    have key: "ip_String ?addr = ip_key (ip_num ?addr)"
    proof (rule ip_String_key)
      show "To4 ?addr \<noteq> []" "2 ^ 24 \<le> ip_num ?addr"
        using in_range(1) r_contains_inside [OF ok(1)] inside_bounds [of "r_net rebuilt" ones] ok(1) by (auto simp: r_ok_def)
    qed
    define st' where "st' = (if ip_num ?addr \<in> r_ips stored then st else stored)"
    have s: "r_ok st' ones'" "r_net st' = r_net stored" "r_ips st' = r_ips stored - {ip_num ?addr}"
      using r ok(2) by (auto simp: st'_def)
    have run: "repair_ip svc (rebuilt, stored, leaks) = Some (None, rb, st', leaks(ip_String ?addr := None))"
      using a(1) True h r(1) by (simp add: repair_ip_def Let_def st'_def)
    have L1: "?L = {ip_num ?addr}" "?L - r_ips rebuilt = {ip_num ?addr}" using True in_range by (auto simp: L)
    show ?thesis
    proof (intro exI conjI)
      show "repair_ip svc (rebuilt, stored, leaks)
          = Some (None, rb, st', (\<lambda>k. if k \<in> ip_key ` (?L - r_ips rebuilt) then None else leaks k))"
        unfolding run key L1(2) by (simp add: fun_upd_def)
      show "r_ips rb = r_ips rebuilt \<union> ?L" unfolding L1(1) using a(5) True by simp
      show "r_ips st' = r_ips stored - (?L - r_ips rebuilt)" unfolding L1(2) by (fact s)
    qed (fact a s)+
  next
    case False
    have "?L \<subseteq> r_ips rebuilt"
      using False a(4) r_contains_inside [OF ok(1), of ?addr] To4 by (auto simp: L split: if_splits)
    then have L0: "?L - r_ips rebuilt = {}" "r_ips rebuilt \<union> ?L = r_ips rebuilt" by blast+
    have "\<exists>rb'. repair_ip svc (rebuilt, stored, leaks) = Some (None, rb', stored, leaks) \<and> r_ok rb' ones \<and> r_net rb' = r_net rebuilt
        \<and> r_ips rb' = r_ips rebuilt"
      using False a ok(1) by (auto simp: repair_ip_def Let_def split: if_splits)
    then show ?thesis unfolding L0 using ok(2) by auto
  qed
qed

lemma listed_ips_Cons: "listed_ips net (svc # items) = listed_ips net [svc] \<union> listed_ips net items"
  by (auto simp: listed_ips_def)

lemma repair_ips_law:
  assumes "r_ok rebuilt ones" "r_ok stored ones'" "r_ips rebuilt \<inter> r_ips stored = {}"
  shows "\<exists>rebuilt' stored'. repair_ips items (rebuilt, stored, leaks)
      = Some (None, rebuilt', stored', (\<lambda>k. if k \<in> ip_key ` (listed_ips (inside (r_net rebuilt) ones) items - r_ips rebuilt) then None else leaks k))
    \<and> r_ok rebuilt' ones \<and> r_net rebuilt' = r_net rebuilt \<and> r_ok stored' ones' \<and> r_net stored' = r_net stored
    \<and> r_ips rebuilt' = r_ips rebuilt \<union> listed_ips (inside (r_net rebuilt) ones) items
    \<and> r_ips stored' = r_ips stored - listed_ips (inside (r_net rebuilt) ones) items"
  using assms
proof (induction items arbitrary: rebuilt stored leaks)
  case Nil
  then show ?case by (auto simp: listed_ips_def)
next
  case (Cons svc items)
  let ?N = "inside (r_net rebuilt) ones"
  let ?l1 = "\<lambda>k. if k \<in> ip_key ` (listed_ips ?N [svc] - r_ips rebuilt) then None else leaks k"
  obtain rb st where 1: "repair_ip svc (rebuilt, stored, leaks) = Some (None, rb, st, ?l1)" "r_ok rb ones" "r_net rb = r_net rebuilt"
      "r_ok st ones'" "r_net st = r_net stored" "r_ips rb = r_ips rebuilt \<union> listed_ips ?N [svc]"
      "r_ips st = r_ips stored - (listed_ips ?N [svc] - r_ips rebuilt)"
    using repair_ip_law [OF Cons.prems(1,2), of svc leaks] by (elim exE conjE) (rule that)
  have "r_ips rb \<inter> r_ips st = {}" using 1(6,7) Cons.prems(3) by blast
  from Cons.IH [OF 1(2,4) this, of ?l1] obtain rb2 st2 where
      2: "repair_ips items (rb, st, ?l1) = Some (None, rb2, st2, (\<lambda>k. if k \<in> ip_key ` (listed_ips ?N items - r_ips rb) then None else ?l1 k))"
      "r_ok rb2 ones" "r_net rb2 = r_net rebuilt" "r_ok st2 ones'" "r_net st2 = r_net st" "r_ips rb2 = r_ips rb \<union> listed_ips ?N items"
      "r_ips st2 = r_ips st - listed_ips ?N items"
    unfolding 1(3) by (elim exE conjE) (rule that)
  have "ip_key ` (listed_ips ?N (svc # items) - r_ips rebuilt)
      = ip_key ` (listed_ips ?N items - r_ips rb) \<union> ip_key ` (listed_ips ?N [svc] - r_ips rebuilt)"
    unfolding listed_ips_Cons [of ?N svc items] 1(6) by blast
  then have leaks: "(\<lambda>k. if k \<in> ip_key ` (listed_ips ?N items - r_ips rb) then None else ?l1 k)
      = (\<lambda>k. if k \<in> ip_key ` (listed_ips ?N (svc # items) - r_ips rebuilt) then None else leaks k)"
    by (simp add: fun_eq_iff)
  show ?case
  proof (intro exI conjI)
    show "repair_ips (svc # items) (rebuilt, stored, leaks)
        = Some (None, rb2, st2, (\<lambda>k. if k \<in> ip_key ` (listed_ips ?N (svc # items) - r_ips rebuilt) then None else leaks k))"
      using 1(1) 2(1) by (simp add: leaks)
    show "r_ok rb2 ones" "r_ok st2 ones'" by (fact 2)+
    show "r_net rb2 = r_net rebuilt" "r_net st2 = r_net stored" using 1(3,5) 2(3,5) by simp_all
    show "r_ips rb2 = r_ips rebuilt \<union> listed_ips ?N (svc # items)" using 1(6) 2(6) by (auto simp: listed_ips_Cons [of ?N svc items])
    show "r_ips st2 = r_ips stored - listed_ips ?N (svc # items)"
      unfolding 2(7) 1(7) listed_ips_Cons [of ?N svc items] using Cons.prems(3) by blast
  qed
qed

text \<open>The addresses that are left in the old set, each four bytes of another number.\<close>

lemma ip_leaks_law:
  assumes "r_ok rebuilt ones" "distinct (map ip_num addrs)" "\<forall>addr \<in> set addrs. To4 addr \<noteq> [] \<and> ip_num addr \<in> {2 ^ 24 ..< 2 ^ 32}"
  shows "\<exists>rebuilt' leaks'. ip_leaks addrs (rebuilt, leaks) = Some (rebuilt', leaks') \<and> r_ok rebuilt' ones \<and> r_net rebuilt' = r_net rebuilt
    \<and> r_ips rebuilt' = r_ips rebuilt \<union> {n \<in> ip_num ` set addrs. n \<in> inside (r_net rebuilt) ones \<and> leak_kept leaks (ip_key n)}
    \<and> leaks' = (\<lambda>k. if k \<in> ip_key ` ip_num ` set addrs then leak_next leaks k else leaks k)"
  using assms
proof (induction addrs arbitrary: rebuilt leaks)
  case Nil
  then show ?case by auto
next
  case (Cons addr addrs)
  let ?n = "ip_num addr" and ?N = "inside (r_net rebuilt) ones"
  have addr: "To4 addr \<noteq> []" "?n \<in> {2 ^ 24 ..< 2 ^ 32}" using Cons.prems(3) by simp_all
  have key: "ip_String addr = ip_key ?n" using ip_String_key [OF addr(1)] addr(2) by simp
  obtain err rb where a: "r_Allocate addr rebuilt = Some (err, rb)" "r_ok rb ones" "r_net rb = r_net rebuilt"
      "r_ips rb = r_ips rebuilt \<union> ({?n} \<inter> ?N)"
    using r_Allocate_law [OF Cons.prems(1), of addr] r_contains_inside [OF Cons.prems(1), of addr] addr(1) by (auto split: if_splits)
  define rb' where "rb' = (if leak_kept leaks (ip_key ?n) then rb else rebuilt)"
  let ?l1 = "leaks(ip_key ?n := leak_next leaks (ip_key ?n))"
  have step: "ip_leak addr (rebuilt, leaks) = Some (rb', ?l1)"
    using a(1) key by (cases "leaks (ip_key ?n)") (auto simp: ip_leak_def rb'_def leak_kept_def leak_next_def numRepairsBeforeLeakCleanup_def)
  have rb': "r_ok rb' ones" "r_net rb' = r_net rebuilt"
      "r_ips rb' = r_ips rebuilt \<union> {n \<in> {?n}. n \<in> ?N \<and> leak_kept leaks (ip_key n)}"
    using a Cons.prems(1) by (auto simp: rb'_def)
  have other: "ip_key n \<noteq> ip_key ?n" if "n \<in> ip_num ` set addrs" for n
  proof -
    have "?n \<notin> ip_num ` set addrs" using Cons.prems(2) by simp
    then have "n \<noteq> ?n" using that by blast
    moreover have "n \<in> {2 ^ 24 ..< 2 ^ 32}" using that Cons.prems(3) by auto
    ultimately show ?thesis using ip_key_inj [OF _ addr(2), of n] by blast
  qed
  have kept: "leak_kept ?l1 (ip_key n) = leak_kept leaks (ip_key n)" "leak_next ?l1 (ip_key n) = leak_next leaks (ip_key n)"
    if "n \<in> ip_num ` set addrs" for n
    using other [OF that] by (simp_all add: leak_kept_def leak_next_def)
  have rest: "distinct (map ip_num addrs)" "\<forall>addr \<in> set addrs. To4 addr \<noteq> [] \<and> ip_num addr \<in> {2 ^ 24 ..< 2 ^ 32}"
    using Cons.prems(2,3) by simp_all
  from Cons.IH [OF rb'(1) rest, of ?l1] obtain rb2 leaks2 where
      ih: "ip_leaks addrs (rb', ?l1) = Some (rb2, leaks2)" "r_ok rb2 ones" "r_net rb2 = r_net rebuilt"
      "r_ips rb2 = r_ips rb' \<union> {n \<in> ip_num ` set addrs. n \<in> ?N \<and> leak_kept ?l1 (ip_key n)}"
      "leaks2 = (\<lambda>k. if k \<in> ip_key ` ip_num ` set addrs then leak_next ?l1 k else ?l1 k)"
    unfolding rb'(2) by (elim exE conjE) (rule that)
  have "{n \<in> ip_num ` set addrs. n \<in> ?N \<and> leak_kept ?l1 (ip_key n)} = {n \<in> ip_num ` set addrs. n \<in> ?N \<and> leak_kept leaks (ip_key n)}"
    using kept(1) by blast
  then have ips: "r_ips rb2 = r_ips rebuilt \<union> {n \<in> ip_num ` set (addr # addrs). n \<in> ?N \<and> leak_kept leaks (ip_key n)}"
    unfolding ih(4) rb'(3) by auto
  have "leaks2 k = (if k \<in> ip_key ` ip_num ` set (addr # addrs) then leak_next leaks k else leaks k)" for k
  proof (cases "k \<in> ip_key ` ip_num ` set addrs")
    case True
    then obtain n where "n \<in> ip_num ` set addrs" "k = ip_key n" by blast
    then show ?thesis using True kept(2) by (simp add: ih(5))
  next
    case False
    then show ?thesis by (auto simp: ih(5))
  qed
  then have leaks: "leaks2 = (\<lambda>k. if k \<in> ip_key ` ip_num ` set (addr # addrs) then leak_next leaks k else leaks k)" by blast
  show ?case
  proof (intro exI conjI)
    show "ip_leaks (addr # addrs) (rebuilt, leaks) = Some (rb2, leaks2)" using step ih(1) by simp
  qed (fact ih ips leaks)+
qed

lemma r_ips_bounds: "r_ok r ones \<Longrightarrow> r_ips r \<subseteq> {2 ^ 24 ..< 2 ^ 32}"
  using r_ips_inside [of r ones] inside_bounds [of "r_net r" ones] by (auto simp: r_ok_def)

lemma r_ForEach_addresses:
  assumes "r_ok r ones"
  shows "ip_num ` set (r_ForEach r) = r_ips r" "distinct (map ip_num (r_ForEach r))"
    "\<forall>addr \<in> set (r_ForEach r). To4 addr \<noteq> [] \<and> ip_num addr \<in> {2 ^ 24 ..< 2 ^ 32}"
proof -
  have each: "map ip_num (r_ForEach r) = sorted_list_of_set (r_ips r)" "\<forall>addr \<in> set (r_ForEach r). length addr = 4"
    using r_ForEach_eq [OF assms] by simp_all
  have "finite (r_ips r)" by (simp add: r_ips_def)
  then have "set (map ip_num (r_ForEach r)) = r_ips r" unfolding each(1) by simp
  then show nums: "ip_num ` set (r_ForEach r) = r_ips r" by simp
  show "distinct (map ip_num (r_ForEach r))" unfolding each(1) by simp
  show "\<forall>addr \<in> set (r_ForEach r). To4 addr \<noteq> [] \<and> ip_num addr \<in> {2 ^ 24 ..< 2 ^ 32}"
  proof
    fix addr
    assume "addr \<in> set (r_ForEach r)"
    then have "ip_num addr \<in> r_ips r" "length addr = 4" using nums each(2) by blast+
    then show "To4 addr \<noteq> [] \<and> ip_num addr \<in> {2 ^ 24 ..< 2 ^ 32}" using r_ips_bounds [OF assms] by (auto simp: To4_def)
  qed
qed

text \<open>No address that is left in the old set shares its counter with a listed one.\<close>

lemma listed_key_sep:
  assumes "service_net net ones" "r_ok stored ones'" "n \<in> r_ips stored - listed_ips (inside net ones) items"
  shows "ip_key n \<notin> ip_key ` listed_ips (inside net ones) items"
proof
  assume "ip_key n \<in> ip_key ` listed_ips (inside net ones) items"
  then obtain m where m: "m \<in> listed_ips (inside net ones) items" "ip_key n = ip_key m" by blast
  have "m \<in> {2 ^ 24 ..< 2 ^ 32}" using m(1) inside_bounds [OF assms(1)] by (auto simp: listed_ips_def)
  moreover have "n \<in> {2 ^ 24 ..< 2 ^ 32}" using r_ips_bounds [OF assms(2)] assms(3) by blast
  ultimately show False using ip_key_inj [of n m] m assms(3) by blast
qed

subsection \<open>Properties\<close>

text \<open>The range a snapshot is read as, of some IPv4 network.\<close>

definition ip_reads :: "IPRepair \<Rightarrow> RangeAllocation \<Rightarrow> Range \<Rightarrow> nat \<Rightarrow> bool" where
  "ip_reads c snapshot r ones \<longleftrightarrow> r_NewFromSnapshot (ip_repair_read c snapshot) = Some (Inr r) \<and> r_ok r ones"

lemma ip_reads_Snapshot:
  assumes "r_ok r ones"
  shows "\<exists>r'. ip_reads c (r_Snapshot r dst) r' ones \<and> r_ips r' = r_ips r \<and> r_net r' = r_net r"
proof -
  have range: "ra_Range (r_Snapshot r dst) = net_String (r_net r)" using assms by (simp add: r_Snapshot_def bm_Snapshot_def r_ok_def)
  have "ParseCIDR (net_String (r_net r)) = Some (r_net r)" using assms ParseCIDR_String by (auto simp: r_ok_def service_net_def)
  moreover have "ParseCIDR [] = None" by code_simp
  ultimately have "ip_repair_read c (r_Snapshot r dst) = r_Snapshot r dst" using range by (auto simp: ip_repair_read_def)
  then show ?thesis using r_NewFromSnapshot_Snapshot [OF assms, of dst] by (auto simp: ip_reads_def)
qed

text \<open>
  C17. One run of the repair of the cluster IPs, for an IPv4 network and whatever the services
  contain, writes exactly the addresses inside the network that the listed services have, and of
  the other addresses that were allocated those inside the network whose counter has not run out.
  It does not panic and it does not fail on the way. The counter of a used address is dropped, that
  of a leaked one is set or decremented.
\<close>

theorem ip_repair_rebuilds:
  assumes net: "service_net (ir_network c) ones" and get: "rr_Get rr = Inr snapshot" and read: "ip_reads c snapshot stored ones'"
    and list: "rr_List rr = Inr items"
  shows "\<exists>err snapshot' c' r. ip_repair_runOnce rr c = Some (err, Some snapshot', c') \<and> ip_reads c' snapshot' r ones
    \<and> (let L = listed_ips (inside (ir_network c) ones) items
       in r_ips r = L \<union> {n \<in> r_ips stored - L. n \<in> inside (ir_network c) ones \<and> leak_kept (ir_leaks c) (ip_key n)}
          \<and> (\<forall>k. ir_leaks c' k = (if k \<in> ip_key ` L then None
                else if k \<in> ip_key ` (r_ips stored - L) then leak_next (ir_leaks c) k else ir_leaks c k)))"
proof -
  let ?N = "inside (ir_network c) ones" and ?L = "listed_ips (inside (ir_network c) ones) items"
  have st: "r_NewFromSnapshot (ip_repair_read c snapshot) = Some (Inr stored)" "r_ok stored ones'" using read by (auto simp: ip_reads_def)
  obtain new where new: "NewCIDRRange (ir_network c) = Some new" "r_ok new ones" "r_ips new = {}" "r_net new = ir_network c"
    using r_new_ok [OF net] by blast
  have "r_ips new \<inter> r_ips stored = {}" using new(3) by simp
  from repair_ips_law [OF new(2) st(2) this, of items "ir_leaks c"] obtain rb st' leaks where
      p: "repair_ips items (new, stored, ir_leaks c) = Some (None, rb, st', leaks)" "leaks = (\<lambda>k. if k \<in> ip_key ` ?L then None else ir_leaks c k)"
      "r_ok rb ones" "r_net rb = ir_network c" "r_ok st' ones'" "r_ips rb = ?L" "r_ips st' = r_ips stored - ?L"
    unfolding new(3,4) by (elim exE conjE) (rule that, assumption, simp_all)
  note each = r_ForEach_addresses [OF p(5)]
  from ip_leaks_law [OF p(3) each(2,3), of leaks] obtain rb' leaks' where
      l: "ip_leaks (r_ForEach st') (rb, leaks) = Some (rb', leaks')" "r_ok rb' ones" "r_net rb' = ir_network c"
      "r_ips rb' = ?L \<union> {n \<in> r_ips stored - ?L. n \<in> ?N \<and> leak_kept leaks (ip_key n)}"
      "leaks' = (\<lambda>k. if k \<in> ip_key ` (r_ips stored - ?L) then leak_next leaks k else leaks k)"
    unfolding each(1) p(4,6,7) by (elim exE conjE) (rule that)
  let ?s = "r_Snapshot rb' (ip_repair_read c snapshot)" and ?c = "c\<lparr>ir_leaks := leaks'\<rparr>"
  obtain r where r: "ip_reads ?c ?s r ones" "r_ips r = r_ips rb'" using ip_reads_Snapshot [OF l(2)] by blast
  have run: "\<exists>err. ip_repair_runOnce rr c = Some (err, Some ?s, ?c)"
    using get st(1) list new(1) p(1) l(1) by (cases "rr_CreateOrUpdate rr ?s") (auto simp: ip_repair_runOnce_def Let_def split: repair_error.splits)
  note sep = listed_key_sep [OF net st(2), of _ items]
  have kept: "leak_kept leaks (ip_key n) = leak_kept (ir_leaks c) (ip_key n)" "leak_next leaks (ip_key n) = leak_next (ir_leaks c) (ip_key n)"
    if "n \<in> r_ips stored - ?L" for n
    using sep [OF that] by (simp_all add: p(2) leak_kept_def leak_next_def)
  have "r_ips r = ?L \<union> {n \<in> r_ips stored - ?L. n \<in> ?N \<and> leak_kept (ir_leaks c) (ip_key n)}"
    unfolding r(2) l(4) using kept(1) by blast
  moreover have "ir_leaks ?c k = (if k \<in> ip_key ` ?L then None else if k \<in> ip_key ` (r_ips stored - ?L) then leak_next (ir_leaks c) k else ir_leaks c k)" for k
  proof (cases "k \<in> ip_key ` (r_ips stored - ?L)")
    case True
    then obtain n where "n \<in> r_ips stored - ?L" "k = ip_key n" by blast
    then show ?thesis using True kept(2) sep by (simp add: l(5))
  next
    case False
    then show ?thesis by (simp add: l(5) p(2))
  qed
  ultimately show ?thesis using run r(1) unfolding Let_def by blast
qed

definition example_ip_service :: Service where
  "example_ip_service = example_service\<lparr>svc_ClusterIP := ''10.0.0.7''\<rparr>"

definition example_ip_round :: "RangeAllocation \<Rightarrow> repair_round" where
  "example_ip_round snapshot = \<lparr>rr_Get = Inr snapshot, rr_List = Inr [example_ip_service], rr_CreateOrUpdate = (\<lambda>_. None)\<rparr>"

theorem ip_repair_rebuilds_witness:
  "\<exists>snapshot stored err snapshot' c' r. ip_reads (NewIPRepair example_net) snapshot stored 24 \<and> r_ips stored = {}
    \<and> ip_repair_runOnce (example_ip_round snapshot) (NewIPRepair example_net) = Some (err, Some snapshot', c')
    \<and> ip_reads c' snapshot' r 24 \<and> 167772167 \<in> r_ips r"
proof -
  obtain r0 where r0: "r_ok r0 24" "r_ips r0 = {}" using r_new_ok [OF example_net_ok] by blast
  define s where "s = r_Snapshot r0 \<lparr>ra_Range = '''', ra_Data = []\<rparr>"
  obtain stored where st: "ip_reads (NewIPRepair example_net) s stored 24" "r_ips stored = {}"
    using ip_reads_Snapshot [OF r0(1)] r0(2) unfolding s_def by metis
  have net: "service_net (ir_network (NewIPRepair example_net)) 24" using example_net_ok by (simp add: NewIPRepair_def)
  have svc: "IsServiceIPSet example_ip_service" "svc_ClusterIP example_ip_service = ''10.0.0.7''"
    by (simp_all add: IsServiceIPSet_def example_ip_service_def)
  have "''10.0.0.7'' = ip_String [10, 0, 0, 7]" by code_simp
  then have "ParseIP ''10.0.0.7'' = v4InV6Prefix @ [10, 0, 0, 7]" by (simp only: ParseIP_String)
  then have "To4 (ParseIP ''10.0.0.7'') = [10, 0, 0, 7]" by (simp add: To4_def v4InV6Prefix_def)
  then have addr: "To4 (ParseIP ''10.0.0.7'') \<noteq> []" "ip_num (ParseIP ''10.0.0.7'') = 167772167"
    by (simp_all add: ip_num_def big_SetBytes_def)
  have "167772167 \<in> inside example_net 24" by (simp add: inside_def first_address_def example_net_def big_SetBytes_def)
  then have "167772167 \<in> listed_ips (inside (ir_network (NewIPRepair example_net)) 24) [example_ip_service]"
    using svc addr by (simp add: listed_ips_def NewIPRepair_def)
  moreover have round: "rr_Get (example_ip_round s) = Inr s" "rr_List (example_ip_round s) = Inr [example_ip_service]"
    by (simp_all add: example_ip_round_def)
  obtain err s' c' r where "ip_repair_runOnce (example_ip_round s) (NewIPRepair example_net) = Some (err, Some s', c')" "ip_reads c' s' r 24"
      "listed_ips (inside (ir_network (NewIPRepair example_net)) 24) [example_ip_service] \<subseteq> r_ips r"
    using ip_repair_rebuilds [OF net round(1) st(1) round(2)] unfolding Let_def by (elim exE conjE) (rule that, assumption, assumption, blast)
  ultimately show ?thesis using st by blast
qed

end
