(* ===== verification/EtcdAllocator.thy ===== *)
theory EtcdAllocator
  imports PortAllocator
begin

section \<open>The allocator that is backed by etcd (\<^verbatim>\<open>allocator/etcd\<close>, \<^verbatim>\<open>storage/etcd3\<close>)\<close>

text \<open>
  Every API server keeps the allocations in a bitmap of its own and writes them to one key of
  etcd that all servers share. What etcd answers is a parameter: what the first read of a call
  returns, and the answers to its transactions in order. A value of etcd is the object it
  encodes. A resource version is a string, empty for an object that is not stored. \<open>None\<close> is a
  call that does not return: a panic, or a transaction that has no answer yet.
\<close>

subsection \<open>The store (\<^verbatim>\<open>pkg/storage/etcd3/store.go\<close>)\<close>

record StoredAllocation = RangeAllocation +
  ra_ResourceVersion :: string

type_synonym kv = "(nat \<times> RangeAllocation) option"

datatype etcd_error =
    ClientError string
  | KeyNotFound
  | ResourceNotFound
  | BadResourceVersion string
  | errorUnableToAllocate
  | CannotAllocate
  | RestoreFailed string
  | ResourceConflict string

datatype txn_answer =
    Succeeded nat
  | Compared kv
  | TxnError string

record objState =
  os_obj :: StoredAllocation
  os_rev :: nat
  os_data :: "RangeAllocation option"

text \<open>\<^verbatim>\<open>strconv.ParseUint(s, 10, 64)\<close>.\<close>

definition ParseUint64 :: "string \<Rightarrow> nat option" where
  "ParseUint64 s = (if s \<noteq> [] \<and> list_all is_digit s \<and> decimal s < 2 ^ 64 then Some (nat (decimal s)) else None)"

definition versionString :: "nat \<Rightarrow> string" where
  "versionString resourceVersion = (if resourceVersion \<noteq> 0 then Itoa (int resourceVersion) else '''')"

definition UpdateObject :: "nat \<Rightarrow> StoredAllocation \<Rightarrow> StoredAllocation" where
  "UpdateObject resourceVersion obj = obj\<lparr>ra_ResourceVersion := versionString resourceVersion\<rparr>"

definition ObjectResourceVersion :: "StoredAllocation \<Rightarrow> nat option" where
  "ObjectResourceVersion obj = (if ra_ResourceVersion obj = '''' then Some 0 else ParseUint64 (ra_ResourceVersion obj))"

definition zero_allocation :: StoredAllocation where
  "zero_allocation = \<lparr>ra_Range = '''', ra_Data = [], ra_ResourceVersion = ''''\<rparr>"

definition etcd_decode :: "RangeAllocation \<Rightarrow> nat \<Rightarrow> StoredAllocation" where
  "etcd_decode v rv = UpdateObject rv (RangeAllocation.extend v \<lparr>ra_ResourceVersion = ''''\<rparr>)"

definition etcd_encode :: "StoredAllocation \<Rightarrow> RangeAllocation" where
  "etcd_encode obj = RangeAllocation.truncate obj"

definition store_Get :: "bool \<Rightarrow> string + kv \<Rightarrow> etcd_error + StoredAllocation" where
  "store_Get ignoreNotFound get =
     (case get of
        Inl err \<Rightarrow> Inl (ClientError err)
      | Inr None \<Rightarrow> if ignoreNotFound then Inr zero_allocation else Inl KeyNotFound
      | Inr (Some (rv, v)) \<Rightarrow> Inr (etcd_decode v rv))"

definition getState :: "bool \<Rightarrow> kv \<Rightarrow> etcd_error + objState" where
  "getState ignoreNotFound kv =
     (case kv of
        None \<Rightarrow>
          if \<not> ignoreNotFound then Inl KeyNotFound
          else Inr \<lparr>os_obj = zero_allocation, os_rev = 0, os_data = None\<rparr>
      | Some (rv, v) \<Rightarrow> Inr \<lparr>os_obj = etcd_decode v rv, os_rev = rv, os_data = Some v\<rparr>)"

text \<open>The update function is a closure: it changes what it captured, \<open>'s\<close>.\<close>

type_synonym 's update_func = "StoredAllocation \<Rightarrow> 's \<Rightarrow> ((etcd_error + StoredAllocation) \<times> 's) option"

definition updateState :: "objState \<Rightarrow> 's update_func \<Rightarrow> 's \<Rightarrow> ((etcd_error + StoredAllocation) \<times> 's) option" where
  "updateState st userUpdate s =
     (case userUpdate (os_obj st) s of
        None \<Rightarrow> None
      | Some (Inl err, s') \<Rightarrow> Some (Inl err, s')
      | Some (Inr ret, s') \<Rightarrow>
          (case ObjectResourceVersion ret of
             None \<Rightarrow> Some (Inl (BadResourceVersion (ra_ResourceVersion ret)), s')
           | Some version \<Rightarrow> Some (Inr (if version \<noteq> 0 then UpdateObject 0 ret else ret), s')))"

text \<open>
  The loop of \<^verbatim>\<open>GuaranteedUpdate\<close>, from a state that was read. With the error it returns the
  values of the key that it read after the first one, and the value and the answer of the
  transaction it ended with. The update function is told the number of the attempt, which stands
  for the random numbers it draws.
\<close>

type_synonym update_trace = "kv list \<times> (RangeAllocation \<times> txn_answer) option"

fun guaranteed_loop ::
    "(nat \<Rightarrow> 's update_func) \<Rightarrow> bool \<Rightarrow> nat \<Rightarrow> txn_answer list \<Rightarrow> objState \<Rightarrow> 's \<Rightarrow> (etcd_error option \<times> update_trace \<times> 's) option" where
  "guaranteed_loop tryUpdate ignoreNotFound i answers origState s =
     (case updateState origState (tryUpdate i) s of
        None \<Rightarrow> None
      | Some (Inl err, s') \<Rightarrow> Some (Some err, ([], None), s')
      | Some (Inr ret, s') \<Rightarrow>
          let data = etcd_encode ret
          in if os_data origState = Some data then Some (None, ([], None), s')
             else case answers of
                    [] \<Rightarrow> None
                  | TxnError err # _ \<Rightarrow> Some (Some (ClientError err), ([], Some (data, TxnError err)), s')
                  | Succeeded rv # _ \<Rightarrow> Some (None, ([], Some (data, Succeeded rv)), s')
                  | Compared kv # answers' \<Rightarrow>
                      (case getState ignoreNotFound kv of
                         Inl err \<Rightarrow> Some (Some err, ([kv], None), s')
                       | Inr origState' \<Rightarrow>
                           map_option (\<lambda>(err, (reads, t), s''). (err, (kv # reads, t), s''))
                             (guaranteed_loop tryUpdate ignoreNotFound (i + 1) answers' origState' s')))"

declare guaranteed_loop.simps [simp del]

definition GuaranteedUpdate ::
    "string + kv \<Rightarrow> txn_answer list \<Rightarrow> bool \<Rightarrow> (nat \<Rightarrow> 's update_func) \<Rightarrow> 's \<Rightarrow> (etcd_error option \<times> update_trace \<times> 's) option" where
  "GuaranteedUpdate get answers ignoreNotFound tryUpdate s =
     (case get of
        Inl err \<Rightarrow> Some (Some (ClientError err), ([], None), s)
      | Inr kv \<Rightarrow>
          (case getState ignoreNotFound kv of
             Inl err \<Rightarrow> Some (Some err, ([kv], None), s)
           | Inr origState \<Rightarrow>
               map_option (\<lambda>(err, (reads, t), s'). (err, (kv # reads, t), s'))
                 (guaranteed_loop tryUpdate ignoreNotFound 0 answers origState s)))"

text \<open>Of the storage errors, the store returns only the one for a missing key.\<close>

definition InterpretUpdateError :: "etcd_error \<Rightarrow> etcd_error" where
  "InterpretUpdateError err = (case err of KeyNotFound \<Rightarrow> ResourceNotFound | _ \<Rightarrow> err)"

subsection \<open>The allocator (\<^verbatim>\<open>allocator/etcd/etcd.go\<close>)\<close>

record Etcd =
  e_alloc :: AllocationBitmap
  e_last :: string

definition NewEtcd :: "AllocationBitmap \<Rightarrow> Etcd" where
  "NewEtcd alloc = \<lparr>e_alloc = alloc, e_last = ''''\<rparr>"

text \<open>What etcd answers to one call, and the random numbers of the attempts.\<close>

record etcd_env =
  ee_Get :: "string + kv"
  ee_Txn :: "txn_answer list"
  ee_rnd :: "nat \<Rightarrow> nat"

text \<open>
  The function that \<^verbatim>\<open>tryUpdate\<close> hands to the store. The function \<open>fn\<close> of the caller changes the
  bitmap and the offset it captured.
\<close>

type_synonym alloc_func = "AllocationBitmap \<times> int \<Rightarrow> (etcd_error option \<times> AllocationBitmap \<times> int) option"

definition refresh_update :: "alloc_func \<Rightarrow> (Etcd \<times> int) update_func" where
  "refresh_update fn existing s =
     (case s of (e, offset) \<Rightarrow>
        if ra_ResourceVersion existing = '''' then Some (Inl CannotAllocate, e, offset)
        else
          case (if ra_ResourceVersion existing \<noteq> e_last e then
                  (case bm_Restore (ra_Range existing) (ra_Data existing) (e_alloc e) of
                     (Some err, a) \<Rightarrow> Some (Some (RestoreFailed err), a, offset)
                   | (None, a) \<Rightarrow> fn (a, offset))
                else Some (None, e_alloc e, offset)) of
            None \<Rightarrow> None
          | Some (Some err, a, offset') \<Rightarrow> Some (Inl err, e\<lparr>e_alloc := a\<rparr>, offset')
          | Some (None, a, offset') \<Rightarrow>
              (case bm_Snapshot a of (rangeSpec, data) \<Rightarrow>
                 Some (Inr (existing\<lparr>ra_Range := rangeSpec, ra_Data := data\<rparr>),
                       e\<lparr>e_alloc := a, e_last := ra_ResourceVersion existing\<rparr>, offset')))"

definition etcd_tryUpdate ::
    "etcd_env \<Rightarrow> (nat \<Rightarrow> alloc_func) \<Rightarrow> Etcd \<times> int \<Rightarrow> (etcd_error option \<times> update_trace \<times> Etcd \<times> int) option" where
  "etcd_tryUpdate env fn s =
     map_option (\<lambda>(err, r). (map_option InterpretUpdateError err, r))
       (GuaranteedUpdate (ee_Get env) (ee_Txn env) True (\<lambda>i. refresh_update (fn i)) s)"

definition allocate_again :: alloc_func where
  "allocate_again s =
     (case s of (a, offset) \<Rightarrow>
        map_option (\<lambda>(ok, a'). (if ok then None else Some errorUnableToAllocate, a', offset)) (bm_Allocate offset a))"

definition etcd_Allocate :: "etcd_env \<Rightarrow> int \<Rightarrow> Etcd \<Rightarrow> ((bool \<times> etcd_error option) \<times> update_trace \<times> Etcd) option" where
  "etcd_Allocate env offset e =
     (case bm_Allocate offset (e_alloc e) of
        None \<Rightarrow> None
      | Some (False, a) \<Rightarrow> Some ((False, None), ([], None), e\<lparr>e_alloc := a\<rparr>)
      | Some (True, a) \<Rightarrow>
          (case etcd_tryUpdate env (\<lambda>_. allocate_again) (e\<lparr>e_alloc := a\<rparr>, offset) of
             None \<Rightarrow> None
           | Some (None, t, e', _) \<Rightarrow> Some ((True, None), t, e')
           | Some (Some errorUnableToAllocate, t, e', _) \<Rightarrow> Some ((False, None), t, e')
           | Some (Some err, t, e', _) \<Rightarrow> Some ((False, Some err), t, e')))"

definition allocate_next_again :: "nat \<Rightarrow> alloc_func" where
  "allocate_next_again seed s =
     (case s of (a, offset) \<Rightarrow>
        (case bm_Allocate offset a of
           None \<Rightarrow> None
         | Some (True, a') \<Rightarrow> Some (None, a', offset)
         | Some (False, a') \<Rightarrow>
             (case bm_AllocateNext seed a' of
                (offset', ok, a'') \<Rightarrow> Some (if ok then None else Some errorUnableToAllocate, a'', int offset'))))"

text \<open>The variable \<open>ok\<close> of the closure hides the outer one, which stays true.\<close>

definition etcd_AllocateNext :: "etcd_env \<Rightarrow> Etcd \<Rightarrow> ((int \<times> bool \<times> etcd_error option) \<times> update_trace \<times> Etcd) option" where
  "etcd_AllocateNext env e =
     (case bm_AllocateNext (ee_rnd env 0) (e_alloc e) of
        (offset, False, a) \<Rightarrow> Some ((int offset, False, None), ([], None), e\<lparr>e_alloc := a\<rparr>)
      | (offset, True, a) \<Rightarrow>
          map_option (\<lambda>(err, t, e', offset'). ((offset', True, err), t, e'))
            (etcd_tryUpdate env (\<lambda>i. allocate_next_again (ee_rnd env (i + 1))) (e\<lparr>e_alloc := a\<rparr>, int offset)))"

definition release_again :: alloc_func where
  "release_again s = (case s of (a, item) \<Rightarrow> map_option (\<lambda>a'. (None, a', item)) (bm_Release item a))"

definition etcd_Release :: "etcd_env \<Rightarrow> int \<Rightarrow> Etcd \<Rightarrow> (etcd_error option \<times> update_trace \<times> Etcd) option" where
  "etcd_Release env item e =
     (case bm_Release item (e_alloc e) of
        None \<Rightarrow> None
      | Some a \<Rightarrow>
          map_option (\<lambda>(err, t, e', _). (err, t, e'))
            (etcd_tryUpdate env (\<lambda>_. release_again) (e\<lparr>e_alloc := a\<rparr>, item)))"

definition etcd_Get :: "etcd_env \<Rightarrow> etcd_error + StoredAllocation" where
  "etcd_Get env = (case store_Get True (ee_Get env) of Inl KeyNotFound \<Rightarrow> Inl ResourceNotFound | r \<Rightarrow> r)"

text \<open>
  The function that \<^verbatim>\<open>CreateOrUpdate\<close> hands to the store returns the snapshot itself, whose
  version the store then resets: the next attempt finds it empty.
\<close>

definition snapshot_update :: "(StoredAllocation \<times> string) update_func" where
  "snapshot_update existing s =
     (case s of (snapshot, lst) \<Rightarrow>
        if ra_ResourceVersion snapshot \<noteq> '''' \<and> ra_ResourceVersion existing \<noteq> '''' then
          (if ra_ResourceVersion snapshot \<noteq> ra_ResourceVersion existing
           then Some (Inl (ResourceConflict ''the provided resource version does not match''), s)
           else Some (Inr snapshot, snapshot\<lparr>ra_ResourceVersion := ''''\<rparr>, ra_ResourceVersion snapshot))
        else if ra_ResourceVersion existing \<noteq> ''''
        then Some (Inl (ResourceConflict ''another caller has already initialized the resource''), s)
        else Some (Inr snapshot, snapshot\<lparr>ra_ResourceVersion := ''''\<rparr>, ra_ResourceVersion snapshot))"

definition etcd_CreateOrUpdate :: "etcd_env \<Rightarrow> StoredAllocation \<Rightarrow> Etcd \<Rightarrow> (etcd_error option \<times> update_trace \<times> Etcd) option" where
  "etcd_CreateOrUpdate env snapshot e =
     (case GuaranteedUpdate (ee_Get env) (ee_Txn env) True (\<lambda>_. snapshot_update) (snapshot, '''') of
        None \<Rightarrow> None
      | Some (Some err, t, _) \<Rightarrow> Some (Some (InterpretUpdateError err), t, e)
      | Some (None, t, _, lst) \<Rightarrow>
          (case bm_Restore (ra_Range snapshot) (ra_Data snapshot) (e_alloc e) of
             (Some err, a) \<Rightarrow> Some (Some (RestoreFailed err), t, e\<lparr>e_alloc := a\<rparr>)
           | (None, a) \<Rightarrow> Some (None, t, e\<lparr>e_alloc := a, e_last := lst\<rparr>)))"

definition etcd_Has :: "int \<Rightarrow> Etcd \<Rightarrow> bool option" where
  "etcd_Has item e = bm_Has item (e_alloc e)"

definition etcd_Free :: "Etcd \<Rightarrow> int" where
  "etcd_Free e = bm_Free (e_alloc e)"

definition etcd_ForEach :: "Etcd \<Rightarrow> nat list" where
  "etcd_ForEach e = bm_ForEach (e_alloc e)"

end
