(* ===== verification/EtcdReplicas.thy ===== *)
theory EtcdReplicas
  imports EtcdAllocator
begin

section \<open>Several API servers on one key of etcd\<close>

text \<open>
  The servers of a cluster call their allocators concurrently. A call has one visible effect, the
  last transaction it sends: everything else it does is private to the server, whose lock it
  holds. So the calls of all servers are a sequence of steps, each at the moment of the last read
  or transaction of its call, and what etcd promises is a condition on the values a call read:
  revisions only grow, a transaction succeeds if and only if the key still has the revision it
  was compared with, and one that fails with an error may have been applied or not.
\<close>

subsection \<open>What etcd promises\<close>

definition kv_rev :: "kv \<Rightarrow> nat" where
  "kv_rev kv = (case kv of None \<Rightarrow> 0 | Some (r, _) \<Rightarrow> r)"

definition kv_ok :: "kv \<Rightarrow> bool" where
  "kv_ok kv = (case kv of None \<Rightarrow> True | Some (r, _) \<Rightarrow> 0 < r \<and> r < 2 ^ 63)"

text \<open>The value that a transaction leaves behind when it is applied.\<close>

definition applied :: "kv \<Rightarrow> RangeAllocation \<Rightarrow> kv \<Rightarrow> bool" where
  "applied kv v kv' \<longleftrightarrow> kv' = Some (kv_rev kv', v) \<and> kv_rev kv < kv_rev kv' \<and> kv_ok kv'"

text \<open>
  A call that read \<open>reads\<close> and ended with the transaction \<open>t\<close> is possible while the key has the
  value \<open>kv\<close>, and leaves \<open>kv'\<close>.
\<close>

definition served :: "kv \<Rightarrow> update_trace \<Rightarrow> kv \<Rightarrow> bool" where
  "served kv tr kv' =
     (case tr of (reads, t) \<Rightarrow>
        (\<forall>r \<in> set reads. kv_ok r) \<and> (\<forall>r \<in> set (butlast reads). kv_rev r < kv_rev kv)
        \<and> (case t of
             None \<Rightarrow> kv' = kv \<and> (reads = [] \<or> last reads = kv)
           | Some (v, Succeeded r) \<Rightarrow> last reads = kv \<and> kv_rev kv' = r \<and> applied kv v kv'
           | Some (v, TxnError err) \<Rightarrow>
               kv' = kv \<and> (last reads = kv \<or> kv_rev (last reads) < kv_rev kv) \<or> last reads = kv \<and> applied kv v kv'
           | Some (v, Compared _) \<Rightarrow> False))"

text \<open>The offsets that are stored, and those of the bitmap of a server.\<close>

definition stored :: "kv \<Rightarrow> nat set" where
  "stored kv = (case kv of None \<Rightarrow> {} | Some (_, v) \<Rightarrow> bits (big_SetBytes (ra_Data v)))"

abbreviation cached :: "Etcd \<Rightarrow> nat set" where
  "cached e \<equiv> offsets (e_alloc e)"

text \<open>The server takes its bitmap for the stored one: it does not restore it before the next write.\<close>

definition fresh :: "kv \<Rightarrow> Etcd \<Rightarrow> bool" where
  "fresh kv e \<longleftrightarrow> kv \<noteq> None \<and> e_last e = versionString (kv_rev kv)"

definition old :: "kv \<Rightarrow> Etcd \<Rightarrow> bool" where
  "old kv e \<longleftrightarrow> (\<exists>r \<le> kv_rev kv. e_last e = versionString r)"

subsection \<open>Versions and attempts\<close>

lemma versionString_inj: "versionString r = versionString r' \<longleftrightarrow> r = r'"
proof -
  have "decimal (Itoa (int r)) = int r" "Itoa (int r) \<noteq> []" for r using Itoa_nonneg [of "int r"] by simp_all
  then have "versionString r = versionString r' \<Longrightarrow> r = r'" by (metis of_nat_eq_iff versionString_def)
  then show ?thesis by blast
qed

lemma versionString_empty [simp]: "versionString r = [] \<longleftrightarrow> r = 0" "versionString 0 = []"
  using versionString_inj [of r 0] by (simp_all add: versionString_def)

lemma ParseUint64_versionString: "0 < r \<Longrightarrow> r < 2 ^ 63 \<Longrightarrow> ParseUint64 (versionString r) = Some r"
proof -
  assume r: "0 < r" "r < 2 ^ 63"
  then have "int r < 2 ^ 64" by simp
  then show ?thesis using r(1) Itoa_nonneg [of "int r"] by (simp add: ParseUint64_def versionString_def)
qed

lemma fresh_not_old: "old kv e \<Longrightarrow> kv_rev kv < kv_rev kv' \<Longrightarrow> \<not> fresh kv' e \<and> old kv' e"
  unfolding old_def fresh_def using versionString_inj by (metis leD less_imp_le_nat order_trans)

lemma bits_Snapshot: "bm_Snapshot a = (rs, data) \<Longrightarrow> bits (big_SetBytes data) = offsets a"
  by (auto simp: bm_Snapshot_def offsets_def)

lemma bits_Restore: "bm_Restore rs data a = (None, a') \<Longrightarrow> offsets a' = bits (big_SetBytes data)"
  by (auto simp: bm_Restore_def offsets_def split: if_splits)

lemma updateState_missing:
  "getState True None = Inr st \<Longrightarrow> updateState st (refresh_update f) (e, off) = Some (Inl CannotAllocate, e, off)"
  by (auto simp: getState_def updateState_def refresh_update_def zero_allocation_def)

text \<open>One attempt on a stored value.\<close>

lemma updateState_refresh:
  assumes st: "getState True (Some (r, v)) = Inr st" and r: "0 < r" "r < 2 ^ 63"
    and run: "updateState st (refresh_update f) (e, off) = Some (res, e1, off1)"
  shows "case res of
      Inl err \<Rightarrow> e_last e1 = e_last e \<and> e_last e \<noteq> versionString r
    | Inr ret \<Rightarrow> e_last e1 = versionString r \<and> bits (big_SetBytes (ra_Data (etcd_encode ret))) = cached e1
        \<and> (e_last e = versionString r \<and> e_alloc e1 = e_alloc e \<and> off1 = off
           \<or> e_last e \<noteq> versionString r \<and> (\<exists>a. offsets a = stored (Some (r, v)) \<and> f (a, off) = Some (None, e_alloc e1, off1)))"
proof -
  have obj: "ra_ResourceVersion (os_obj st) = versionString r" "ra_Data (os_obj st) = ra_Data v" "versionString r \<noteq> []"
    using st r by (auto simp: getState_def etcd_decode_def UpdateObject_def RangeAllocation.extend_def)
  have ver: "ObjectResourceVersion (ret\<lparr>ra_Range := rs, ra_Data := data\<rparr>) = Some r" if "ra_ResourceVersion ret = versionString r" for ret rs data
    using that obj(3) ParseUint64_versionString [OF r] by (simp add: ObjectResourceVersion_def)
  have enc: "ra_Data (etcd_encode (UpdateObject k (ret\<lparr>ra_Range := rs, ra_Data := data\<rparr>))) = data" for k ret rs data
    by (simp add: etcd_encode_def UpdateObject_def RangeAllocation.truncate_def)
  show ?thesis
  proof (cases "e_last e = versionString r")
    case True
    obtain rs data where sn: "bm_Snapshot (e_alloc e) = (rs, data)" by fastforce
    have "res = Inr (UpdateObject 0 ((os_obj st)\<lparr>ra_Range := rs, ra_Data := data\<rparr>)) \<and> e1 = e\<lparr>e_last := versionString r\<rparr> \<and> off1 = off"
      using run True sn obj r(1) ver [OF obj(1)] by (simp add: updateState_def refresh_update_def)
    then show ?thesis using True enc bits_Snapshot [OF sn] by simp
  next
    case False
    obtain err a where re: "bm_Restore (ra_Range (os_obj st)) (ra_Data (os_obj st)) (e_alloc e) = (err, a)" by fastforce
    show ?thesis
    proof (cases err)
      case (Some x)
      then show ?thesis using run False re obj by (auto simp: updateState_def refresh_update_def)
    next
      case None
      have a: "offsets a = stored (Some (r, v))" using bits_Restore re None obj(2) by (simp add: stored_def)
      obtain ferr a' off' where fn: "f (a, off) = Some (ferr, a', off')"
        using run False re None obj by (cases "f (a, off)") (auto simp: updateState_def refresh_update_def)
      show ?thesis
      proof (cases ferr)
        case (Some x)
        then show ?thesis using run False re None fn obj by (auto simp: updateState_def refresh_update_def)
      next
        case fine: None
        obtain rs data where sn: "bm_Snapshot a' = (rs, data)" by fastforce
        have "res = Inr (UpdateObject 0 ((os_obj st)\<lparr>ra_Range := rs, ra_Data := data\<rparr>))
            \<and> e1 = e\<lparr>e_alloc := a', e_last := versionString r\<rparr> \<and> off1 = off'"
          using run False re None fn fine sn obj r(1) ver [OF obj(1)] by (simp add: updateState_def refresh_update_def)
        then show ?thesis using False fn fine a enc bits_Snapshot [OF sn] by auto
      qed
    qed
  qed
qed

subsection \<open>The outcome of an update\<close>

text \<open>
  What a call of \<^verbatim>\<open>tryUpdate\<close> can end with, when the change \<open>R\<close> was made to the bitmap \<open>L0\<close> of the
  server: either the bitmap is the one that is stored, or the one of the server, with the change,
  and it was written or not; or the server knows that its bitmap is not the stored one.
\<close>

definition update_outcome ::
    "(nat set \<Rightarrow> int \<Rightarrow> nat set \<Rightarrow> bool) \<Rightarrow> nat set \<Rightarrow> kv \<Rightarrow> Etcd \<Rightarrow> etcd_error option \<Rightarrow> Etcd \<Rightarrow> int \<Rightarrow> kv \<Rightarrow> bool" where
  "update_outcome R L0 kv e err e' off' kv' \<longleftrightarrow> old kv e' \<and> kv_ok kv' \<and>
     (fresh kv e' \<and> (R (stored kv) off' (cached e') \<or> fresh kv e \<and> R L0 off' (cached e'))
        \<and> (kv' = kv \<and> (err = None \<longrightarrow> cached e' = stored kv)
           \<or> kv_rev kv < kv_rev kv' \<and> kv' \<noteq> None \<and> stored kv' = cached e')
      \<or> \<not> fresh kv e' \<and> err \<noteq> None \<and> kv' = kv)"

lemma applied_stored: "applied kv v kv' \<Longrightarrow> kv_rev kv < kv_rev kv' \<and> kv_ok kv' \<and> kv' \<noteq> None \<and> stored kv' = bits (big_SetBytes (ra_Data v))"
  by (cases kv') (auto simp: applied_def stored_def kv_rev_def)

lemma attempt_outcome:
  assumes st: "getState True (Some (r, v)) = Inr st" and ok: "kv_ok (Some (r, v))" "kv_ok kv"
    and run: "updateState st (refresh_update f) (e, off) = Some (Inr ret, e1, off1)"
    and f: "\<And>a off a' off'. f (a, off) = Some (None, a', off') \<Longrightarrow> R (offsets a) off' (offsets a')"
    and e: "fresh kv e \<Longrightarrow> R L0 off (cached e)"
    and final: "Some (r, v) = kv \<and> (kv' = kv \<and> (err = None \<longrightarrow> v = etcd_encode ret) \<or> applied kv (etcd_encode ret) kv')
      \<or> r < kv_rev kv \<and> err \<noteq> None \<and> kv' = kv"
  shows "update_outcome R L0 kv e err e1 off1 kv'"
proof -
  have r: "0 < r" "r < 2 ^ 63" using ok(1) by (simp_all add: kv_ok_def)
  have att: "e_last e1 = versionString r" "bits (big_SetBytes (ra_Data (etcd_encode ret))) = cached e1"
      "e_last e = versionString r \<and> e_alloc e1 = e_alloc e \<and> off1 = off
         \<or> e_last e \<noteq> versionString r \<and> (\<exists>a. offsets a = stored (Some (r, v)) \<and> f (a, off) = Some (None, e_alloc e1, off1))"
    using updateState_refresh [OF st r run] by simp_all
  show ?thesis
    using final
  proof
    assume now: "Some (r, v) = kv \<and> (kv' = kv \<and> (err = None \<longrightarrow> v = etcd_encode ret) \<or> applied kv (etcd_encode ret) kv')"
    then have kv: "kv_rev kv = r" "stored kv = bits (big_SetBytes (ra_Data v))" "kv \<noteq> None" by (auto simp: kv_rev_def stored_def)
    have "fresh kv e1" "old kv e1" using att(1) kv by (auto simp: fresh_def old_def)
    moreover have "R (stored kv) off1 (cached e1) \<or> fresh kv e \<and> R L0 off1 (cached e1)"
      using att(3)
    proof
      assume "e_last e = versionString r \<and> e_alloc e1 = e_alloc e \<and> off1 = off"
      then show ?thesis using e kv by (auto simp: fresh_def)
    next
      assume "e_last e \<noteq> versionString r \<and> (\<exists>a. offsets a = stored (Some (r, v)) \<and> f (a, off) = Some (None, e_alloc e1, off1))"
      then show ?thesis using f now by metis
    qed
    moreover have "kv_ok kv' \<and> (kv' = kv \<and> (err = None \<longrightarrow> cached e1 = stored kv)
        \<or> kv_rev kv < kv_rev kv' \<and> kv' \<noteq> None \<and> stored kv' = cached e1)"
      using now applied_stored [of kv "etcd_encode ret" kv'] att(2) kv(2) ok(2) by auto
    ultimately show ?thesis unfolding update_outcome_def by blast
  next
    assume "r < kv_rev kv \<and> err \<noteq> None \<and> kv' = kv"
    then show ?thesis
      using att(1) versionString_inj ok(2) unfolding update_outcome_def fresh_def old_def by (metis less_imp_le_nat less_irrefl_nat)
  qed
qed

lemma guaranteed_loop_cases [consumes 1, case_names failed ended again]:
  assumes run: "guaranteed_loop tryUpdate True i answers st s = Some (err, (reads, t), s')"
  obtains err0 where "updateState st (tryUpdate i) s = Some (Inl err0, s')" "err = Some err0" "reads = []" "t = None"
  | ret where "updateState st (tryUpdate i) s = Some (Inr ret, s')" "reads = []"
      "t = None \<and> err = None \<and> os_data st = Some (etcd_encode ret)
       \<or> (\<exists>x. t = Some (etcd_encode ret, TxnError x) \<and> err = Some (ClientError x))
       \<or> (\<exists>r. t = Some (etcd_encode ret, Succeeded r) \<and> err = None)"
  | ret s1 kv st' answers' reads' where "updateState st (tryUpdate i) s = Some (Inr ret, s1)" "answers = Compared kv # answers'"
      "getState True kv = Inr st'" "reads = kv # reads'"
      "guaranteed_loop tryUpdate True (i + 1) answers' st' s1 = Some (err, (reads', t), s')"
proof -
  note run = run [unfolded guaranteed_loop.simps [of tryUpdate True i answers st s]]
  obtain res s1 where u: "updateState st (tryUpdate i) s = Some (res, s1)" using run by (cases "updateState st (tryUpdate i) s") auto
  show thesis
  proof (cases res)
    case (Inl err0)
    then show thesis using run u that(1) by simp
  next
    case (Inr ret)
    show thesis
    proof (cases "os_data st = Some (etcd_encode ret)")
      case True
      then show thesis using run u Inr that(2) [of ret] by (simp add: Let_def)
    next
      case changed: False
      obtain ans answers' where a: "answers = ans # answers'" using run u Inr changed by (cases answers) (auto simp: Let_def)
      show thesis
      proof (cases ans)
        case (Compared kv)
        obtain st' where st': "getState True kv = Inr st'" by (cases kv) (auto simp: getState_def)
        then show thesis using run u Inr changed a Compared that(3) [of ret s1 kv answers' st'] by (auto simp: Let_def)
      qed (use run u Inr changed a that(2) [of ret] in \<open>auto simp: Let_def\<close>)
    qed
  qed
qed

lemma served_Cons: "served kv (kv0 # kv1 # reads, t) kv' \<Longrightarrow> kv_rev kv0 < kv_rev kv \<and> kv_ok kv0 \<and> served kv (kv1 # reads, t) kv'"
  by (auto simp: served_def split: option.splits prod.splits txn_answer.splits)

lemma served_last:
  assumes "served kv ([kv0], t) kv'"
  shows "kv_ok kv0" "t = None \<Longrightarrow> kv' = kv \<and> kv0 = kv"
    "t = Some (v, Succeeded r) \<Longrightarrow> kv0 = kv \<and> applied kv v kv'"
    "t = Some (v, TxnError x) \<Longrightarrow> kv0 = kv \<and> (kv' = kv \<or> applied kv v kv') \<or> kv_rev kv0 < kv_rev kv \<and> kv' = kv"
  using assms by (auto simp: served_def)

lemma loop_outcome:
  assumes "guaranteed_loop (\<lambda>i. refresh_update (fn i)) True i answers st (e, off) = Some (err, (reads, t), e', off')"
    and "getState True kv0 = Inr st" "served kv (kv0 # reads, t) kv'" "kv_ok kv" "old kv e" "fresh kv e \<Longrightarrow> R L0 off (cached e)"
    and f: "\<And>i a off a' off'. fn i (a, off) = Some (None, a', off') \<Longrightarrow> R (offsets a) off' (offsets a')"
  shows "update_outcome R L0 kv e err e' off' kv'"
  using assms(1-6)
proof (induction answers arbitrary: i st e off reads kv0 rule: measure_induct_rule [where f = length])
  case (less answers i st e off reads kv0)
  have some: "\<exists>r v. kv0 = Some (r, v)" if "updateState st (refresh_update (fn i)) (e, off) = Some (Inr ret, s1)" for ret s1
    using that updateState_missing less.prems(2) by (cases kv0) auto
  from less.prems(1) show ?case
  proof (cases rule: guaranteed_loop_cases)
    case (failed err0)
    have kv: "kv_ok kv0" "kv' = kv" "kv0 = kv" using served_last [of kv kv0 None kv'] less.prems(3) failed by simp_all
    have "\<not> fresh kv e' \<and> e_last e' = e_last e"
    proof (cases kv0)
      case None
      then show ?thesis using kv(3) failed(1) updateState_missing [of st "fn i" e off] less.prems(2) by (simp add: fresh_def)
    next
      case (Some rv)
      obtain r v where rv: "rv = (r, v)" by fastforce
      have r: "0 < r" "r < 2 ^ 63" using kv(1) Some rv by (simp_all add: kv_ok_def)
      show ?thesis
        using updateState_refresh [OF _ r failed(1), of v] less.prems(2) Some rv kv(3) by (auto simp: fresh_def kv_rev_def)
    qed
    then show ?thesis using failed(2) kv less.prems(4,5) by (simp add: update_outcome_def old_def)
  next
    case (ended ret)
    obtain r v where kv0: "kv0 = Some (r, v)" using some [OF ended(1)] by blast
    have st: "os_data st = Some v" using less.prems(2) kv0 by (auto simp: getState_def)
    have sv: "served kv ([kv0], t) kv'" using less.prems(3) ended(2) by simp
    have final: "kv0 = kv \<and> (kv' = kv \<and> (err = None \<longrightarrow> v = etcd_encode ret) \<or> applied kv (etcd_encode ret) kv')
        \<or> kv_rev kv0 < kv_rev kv \<and> err \<noteq> None \<and> kv' = kv"
      using ended(3)
    proof (elim disjE)
      assume "t = None \<and> err = None \<and> os_data st = Some (etcd_encode ret)"
      then show ?thesis using served_last(2) [OF sv] st by simp
    next
      assume "\<exists>x. t = Some (etcd_encode ret, TxnError x) \<and> err = Some (ClientError x)"
      then show ?thesis using served_last(4) [OF sv] by auto
    next
      assume "\<exists>r. t = Some (etcd_encode ret, Succeeded r) \<and> err = None"
      then show ?thesis using served_last(3) [OF sv] by auto
    qed
    have final': "Some (r, v) = kv \<and> (kv' = kv \<and> (err = None \<longrightarrow> v = etcd_encode ret) \<or> applied kv (etcd_encode ret) kv')
        \<or> r < kv_rev kv \<and> err \<noteq> None \<and> kv' = kv"
      using final kv0 by (auto simp: kv_rev_def)
    show ?thesis
    proof (rule attempt_outcome [where f = "fn i"])
      show "getState True (Some (r, v)) = Inr st" "kv_ok (Some (r, v))" using less.prems(2) served_last(1) [OF sv] kv0 by simp_all
    qed (fact less.prems(4) ended(1) final' | erule f less.prems(6))+
  next
    case (again ret s1 kv1 st' answers' reads')
    obtain e1 off1 where s1: "s1 = (e1, off1)" by fastforce
    obtain r v where kv0: "kv0 = Some (r, v)" using some [OF again(1)] by blast
    have sv: "kv_rev kv0 < kv_rev kv" "kv_ok kv0" "served kv (kv1 # reads', t) kv'"
      using served_Cons less.prems(3) again(4) by simp_all
    have r: "0 < r" "r < 2 ^ 63" "r < kv_rev kv" using sv(1,2) kv0 by (simp_all add: kv_ok_def kv_rev_def)
    have last: "e_last e1 = versionString r"
      using updateState_refresh [OF _ r(1,2) again(1) [unfolded s1], of v] less.prems(2) kv0 by simp
    then have e1: "old kv e1" "\<not> fresh kv e1"
      using r(3) versionString_inj unfolding old_def fresh_def by (auto intro: exI [of _ r])
    have "update_outcome R L0 kv e1 err e' off' kv'"
      using less.IH [OF _ again(5) [unfolded s1] again(3) sv(3) less.prems(4) e1(1)] again(2) e1(2) by simp
    then show ?thesis using e1(2) unfolding update_outcome_def by blast
  qed
qed

text \<open>The whole call, from a server \<open>e\<close> that made the change to its bitmap already.\<close>

lemma tryUpdate_outcome:
  assumes run: "etcd_tryUpdate env fn (e, off) = Some (err, tr, e', off')" and "served kv tr kv'" "kv_ok kv" "old kv e"
    and e: "R L0 off (cached e)"
    and f: "\<And>i a off a' off'. fn i (a, off) = Some (None, a', off') \<Longrightarrow> R (offsets a) off' (offsets a')"
  shows "update_outcome R L0 kv e err e' off' kv'"
proof (cases "ee_Get env")
  case (Inl x)
  then have "e' = e" "off' = off" "err \<noteq> None" "tr = ([], None)" using run by (auto simp: etcd_tryUpdate_def GuaranteedUpdate_def)
  moreover have "kv' = kv" using assms(2) calculation(4) by (simp add: served_def)
  ultimately show ?thesis using assms(3,4) e by (auto simp: update_outcome_def)
next
  case (Inr kv0)
  obtain st where st: "getState True kv0 = Inr st" by (cases kv0) (auto simp: getState_def)
  obtain err0 reads t where g: "guaranteed_loop (\<lambda>i. refresh_update (fn i)) True 0 (ee_Txn env) st (e, off) = Some (err0, (reads, t), e', off')"
      and r: "err = map_option InterpretUpdateError err0" "tr = (kv0 # reads, t)"
    using run Inr st by (auto simp: etcd_tryUpdate_def GuaranteedUpdate_def)
  have "update_outcome R L0 kv e err0 e' off' kv'"
    by (rule loop_outcome [where R = R and fn = fn and ?L0.0 = L0, OF g st assms(2) [unfolded r(2)] assms(3,4)]) (rule e, erule f)
  then show ?thesis unfolding update_outcome_def r(1) by simp
qed

text \<open>The update function of \<^verbatim>\<open>CreateOrUpdate\<close> writes the snapshot or nothing.\<close>

lemma updateState_snapshot:
  assumes "updateState st snapshot_update (snapshot, lst) = Some (res, snapshot', lst')"
  shows "case res of
      Inl _ \<Rightarrow> True
    | Inr ret \<Rightarrow> etcd_encode ret = etcd_encode snapshot \<and> etcd_encode snapshot' = etcd_encode snapshot
        \<and> ra_ResourceVersion snapshot' = '''' \<and> lst' = ra_ResourceVersion snapshot"
  using assms
  by (auto simp: updateState_def snapshot_update_def etcd_encode_def UpdateObject_def RangeAllocation.truncate_def
      split: if_splits option.splits)

lemma snapshot_loop_outcome:
  assumes "guaranteed_loop (\<lambda>_. snapshot_update) True i answers st (snapshot, lst) = Some (err, (reads, t), snapshot', lst')"
    and "getState True kv0 = Inr st" "served kv (kv0 # reads, t) kv'"
  shows "(kv' = kv \<and> (err = None \<longrightarrow> stored kv = bits (big_SetBytes (ra_Data snapshot))) \<or> applied kv (etcd_encode snapshot) kv')
    \<and> (err = None \<longrightarrow> lst' = ra_ResourceVersion snapshot \<or> lst' = '''')"
  using assms
proof (induction answers arbitrary: i st snapshot lst reads kv0 rule: measure_induct_rule [where f = length])
  case (less answers i st snapshot lst reads kv0)
  from less.prems(1) show ?case
  proof (cases rule: guaranteed_loop_cases)
    case (failed err0)
    then show ?thesis using served_last(2) [of kv kv0 t kv'] less.prems(3) by simp
  next
    case (ended ret)
    have sv: "served kv ([kv0], t) kv'" using less.prems(3) ended(2) by simp
    have u: "etcd_encode ret = etcd_encode snapshot" "lst' = ra_ResourceVersion snapshot"
      using updateState_snapshot [OF ended(1)] by simp_all
    have "kv' = kv \<and> (err = None \<longrightarrow> os_data st = Some (etcd_encode snapshot) \<and> kv0 = kv) \<or> applied kv (etcd_encode snapshot) kv'"
      using ended(3) u(1) served_last(2-4) [OF sv] by auto
    moreover have "stored kv = bits (big_SetBytes (ra_Data snapshot))" if "os_data st = Some (etcd_encode snapshot)" "kv0 = kv"
      using that less.prems(2) by (cases kv) (auto simp: getState_def stored_def etcd_encode_def RangeAllocation.truncate_def)
    ultimately show ?thesis using u(2) by blast
  next
    case (again ret s1 kv1 st' answers' reads')
    obtain snapshot1 lst1 where s1: "s1 = (snapshot1, lst1)" by fastforce
    have u: "etcd_encode snapshot1 = etcd_encode snapshot" "ra_ResourceVersion snapshot1 = ''''"
      using updateState_snapshot [OF again(1) [unfolded s1]] by simp_all
    have d: "ra_Data snapshot1 = ra_Data snapshot" using u(1) by (simp add: etcd_encode_def RangeAllocation.truncate_def)
    have "served kv (kv1 # reads', t) kv'" using served_Cons less.prems(3) again(4) by simp
    from less.IH [OF _ again(5) [unfolded s1] again(3) this] show ?thesis using again(2) u d by auto
  qed
qed

lemma CreateOrUpdate_outcome:
  assumes run: "etcd_CreateOrUpdate env snapshot e = Some (err, tr, e')" and "served kv tr kv'" "kv_ok kv" "old kv e"
    and version: "ra_ResourceVersion snapshot = versionString r" "r \<le> kv_rev kv"
  shows "kv_ok kv' \<and> old kv e' \<and> (kv' = kv \<or> kv_rev kv < kv_rev kv' \<and> kv' \<noteq> None \<and> stored kv' = bits (big_SetBytes (ra_Data snapshot)))
    \<and> (e_last e' = e_last e \<and> e_alloc e' = e_alloc e \<or> kv' = kv \<and> cached e' = stored kv \<or> kv_rev kv < kv_rev kv')"
proof (cases "ee_Get env")
  case (Inl x)
  then have "e' = e" "tr = ([], None)" using run by (auto simp: etcd_CreateOrUpdate_def GuaranteedUpdate_def)
  then show ?thesis using assms(2-4) by (simp add: served_def)
next
  case (Inr kv0)
  obtain st where st: "getState True kv0 = Inr st" by (cases kv0) (auto simp: getState_def)
  obtain err0 reads t snapshot' lst' where
      g: "guaranteed_loop (\<lambda>_. snapshot_update) True 0 (ee_Txn env) st (snapshot, '''') = Some (err0, (reads, t), snapshot', lst')"
    using run Inr st
    by (cases "guaranteed_loop (\<lambda>_. snapshot_update) True 0 (ee_Txn env) st (snapshot, '''')")
      (auto simp: etcd_CreateOrUpdate_def GuaranteedUpdate_def)
  have tr: "tr = (kv0 # reads, t)" using run Inr st g
    by (auto simp: etcd_CreateOrUpdate_def GuaranteedUpdate_def split: option.splits prod.splits)
  have out: "kv' = kv \<and> (err0 = None \<longrightarrow> stored kv = bits (big_SetBytes (ra_Data snapshot))) \<or> applied kv (etcd_encode snapshot) kv'"
      "err0 = None \<longrightarrow> lst' = versionString r \<or> lst' = versionString 0"
    using snapshot_loop_outcome [OF g st assms(2) [unfolded tr]] version(1) by auto
  have "ra_Data (etcd_encode snapshot) = ra_Data snapshot" by (simp add: etcd_encode_def RangeAllocation.truncate_def)
  then have kv': "kv_ok kv'" "kv' = kv \<or> kv_rev kv < kv_rev kv' \<and> kv' \<noteq> None \<and> stored kv' = bits (big_SetBytes (ra_Data snapshot))"
    using out(1) assms(3) applied_stored [of kv "etcd_encode snapshot" kv'] by auto
  show ?thesis
  proof (cases "err0 = None \<and> (\<exists>a. bm_Restore (ra_Range snapshot) (ra_Data snapshot) (e_alloc e) = (None, a))")
    case True
    then obtain a where a: "bm_Restore (ra_Range snapshot) (ra_Data snapshot) (e_alloc e) = (None, a)" by blast
    then have e': "e' = e\<lparr>e_alloc := a, e_last := lst'\<rparr>" using run Inr st g True
      by (auto simp: etcd_CreateOrUpdate_def GuaranteedUpdate_def)
    have "\<exists>r' \<le> kv_rev kv. lst' = versionString r'" using out(2) True version(2) le0 by metis
    then have "old kv e'" using e' by (simp add: old_def)
    moreover have "kv' = kv \<and> cached e' = stored kv \<or> kv_rev kv < kv_rev kv'"
      using out(1) True e' bits_Restore [OF a] applied_stored [of kv "etcd_encode snapshot" kv'] by fastforce
    ultimately show ?thesis using kv' by blast
  next
    case False
    have "bm_Restore (ra_Range snapshot) (ra_Data snapshot) (e_alloc e) = (Some x, a) \<Longrightarrow> a = e_alloc e" for x a
      by (auto simp: bm_Restore_def split: if_splits)
    then have "e_last e' = e_last e \<and> e_alloc e' = e_alloc e" using run Inr st g False
      by (auto simp: etcd_CreateOrUpdate_def GuaranteedUpdate_def split: option.splits prod.splits)
    then show ?thesis using kv' assms(4) by (simp add: old_def)
  qed
qed

subsection \<open>The servers\<close>

text \<open>
  The key, the allocators of the servers, and the offsets that are held: those that a call handed
  out and whose holder has not asked to release them, whether or not the release succeeded.
\<close>

record servers =
  sv_kv :: kv
  sv_servers :: "nat \<Rightarrow> Etcd"
  sv_held :: "nat set"

inductive servers_step :: "servers \<Rightarrow> servers \<Rightarrow> bool" where
  allocate: "etcd_Allocate env offset (sv_servers s i) = Some ((ok, err), tr, e') \<Longrightarrow> served (sv_kv s) tr kv' \<Longrightarrow>
    servers_step s (s\<lparr>sv_kv := kv', sv_servers := (sv_servers s)(i := e'),
      sv_held := if ok \<and> err = None then insert (nat offset) (sv_held s) else sv_held s\<rparr>)"
| allocate_next: "etcd_AllocateNext env (sv_servers s i) = Some ((offset, ok, err), tr, e') \<Longrightarrow> served (sv_kv s) tr kv' \<Longrightarrow>
    servers_step s (s\<lparr>sv_kv := kv', sv_servers := (sv_servers s)(i := e'),
      sv_held := if ok \<and> err = None then insert (nat offset) (sv_held s) else sv_held s\<rparr>)"
| release: "nat item \<in> sv_held s \<Longrightarrow> etcd_Release env item (sv_servers s i) = Some (err, tr, e') \<Longrightarrow> served (sv_kv s) tr kv' \<Longrightarrow>
    servers_step s (s\<lparr>sv_kv := kv', sv_servers := (sv_servers s)(i := e'), sv_held := sv_held s - {nat item}\<rparr>)"
| repair: "etcd_CreateOrUpdate env snapshot (sv_servers s i) = Some (err, tr, e') \<Longrightarrow> served (sv_kv s) tr kv' \<Longrightarrow>
    ra_ResourceVersion snapshot = versionString r \<Longrightarrow> r \<le> kv_rev (sv_kv s) \<Longrightarrow>
    sv_held s \<subseteq> bits (big_SetBytes (ra_Data snapshot)) \<Longrightarrow>
    servers_step s (s\<lparr>sv_kv := kv', sv_servers := (sv_servers s)(i := e')\<rparr>)"
| restart: "servers_step s (s\<lparr>sv_servers := (sv_servers s)(i := NewEtcd alloc)\<rparr>)"

inductive servers_reachable :: "servers \<Rightarrow> bool" where
  start: "kv_ok kv \<Longrightarrow> held \<subseteq> stored kv \<Longrightarrow>
    servers_reachable \<lparr>sv_kv = kv, sv_servers = (\<lambda>i. NewEtcd (allocs i)), sv_held = held\<rparr>"
| step: "servers_reachable s \<Longrightarrow> servers_step s s' \<Longrightarrow> servers_reachable s'"

text \<open>
  Every held offset is stored, and set in every bitmap that is taken for the stored one; an offset
  that is stored is missing in at most one of those, that of the server whose release failed.
\<close>

definition servers_inv :: "kv \<Rightarrow> (nat \<Rightarrow> Etcd) \<Rightarrow> nat set \<Rightarrow> bool" where
  "servers_inv kv E H \<longleftrightarrow> kv_ok kv \<and> H \<subseteq> stored kv \<and> (\<forall>i. old kv (E i)) \<and> (\<forall>i. fresh kv (E i) \<longrightarrow> H \<subseteq> cached (E i))
     \<and> (\<forall>i j. i \<noteq> j \<longrightarrow> fresh kv (E i) \<longrightarrow> fresh kv (E j) \<longrightarrow> stored kv \<subseteq> cached (E i) \<union> cached (E j))"

lemma servers_inv_written:
  assumes "servers_inv kv E H" "old kv e'" "kv_rev kv < kv_rev kv'" "kv_ok kv'" "H' \<subseteq> stored kv'"
  shows "servers_inv kv' (E(i := e')) H'"
proof -
  have "\<not> fresh kv' ((E(i := e')) j) \<and> old kv' ((E(i := e')) j)" for j
    using fresh_not_old [OF _ assms(3)] assms(1,2) by (cases "j = i") (auto simp: servers_inv_def)
  then show ?thesis using assms(4,5) unfolding servers_inv_def by blast
qed

lemma servers_inv_kept:
  assumes I: "servers_inv kv E H" and e': "old kv e'" and H': "H' \<subseteq> stored kv" "fresh kv e' \<Longrightarrow> H' \<subseteq> cached e'"
    and others: "\<And>j. j \<noteq> i \<Longrightarrow> fresh kv (E j) \<Longrightarrow> H' \<subseteq> cached (E j) \<and> (fresh kv e' \<longrightarrow> stored kv \<subseteq> cached e' \<union> cached (E j))"
  shows "servers_inv kv (E(i := e')) H'"
proof -
  have "stored kv \<subseteq> cached ((E(i := e')) j) \<union> cached ((E(i := e')) k)"
    if jk: "j \<noteq> k" "fresh kv ((E(i := e')) j)" "fresh kv ((E(i := e')) k)" for j k
  proof -
    consider "j = i" | "k = i" | "j \<noteq> i" "k \<noteq> i" by blast
    then show ?thesis
    proof cases
      assume "j = i"
      then show ?thesis using jk others [of k] by simp
    next
      assume "k = i"
      then show ?thesis using jk others [of j] by auto
    next
      assume "j \<noteq> i" "k \<noteq> i"
      then show ?thesis using jk I by (simp add: servers_inv_def)
    qed
  qed
  moreover have "H' \<subseteq> cached ((E(i := e')) j)" if "fresh kv ((E(i := e')) j)" for j
    using that H'(2) others [of j] by (cases "j = i") simp_all
  moreover have "kv_ok kv" "\<forall>j. old kv ((E(i := e')) j)" using I e' by (simp_all add: servers_inv_def)
  ultimately show ?thesis using H'(1) unfolding servers_inv_def by blast
qed

lemma servers_inv_stale:
  assumes I: "servers_inv kv E H" and "old kv e'" "\<not> fresh kv e'" "H' \<subseteq> H"
  shows "servers_inv kv (E(i := e')) H'"
proof (rule servers_inv_kept [OF I assms(2)])
  show "H' \<subseteq> stored kv" using I assms(4) by (auto simp: servers_inv_def)
  show "H' \<subseteq> cached (E j) \<and> (fresh kv e' \<longrightarrow> stored kv \<subseteq> cached e' \<union> cached (E j))" if "fresh kv (E j)" for j
    using that I assms(3,4) unfolding servers_inv_def by (meson order_trans)
qed (use assms(3) in simp)

definition takes :: "nat set \<Rightarrow> int \<Rightarrow> nat set \<Rightarrow> bool" where
  "takes A offset B \<longleftrightarrow> nat offset \<notin> A \<and> B = insert (nat offset) A"

lemma takes_inv:
  assumes I: "servers_inv kv E H" and out: "update_outcome takes (cached (E i)) kv (E i) err e' offset kv'"
  shows "servers_inv kv' (E(i := e')) (if err = None then insert (nat offset) H else H)
    \<and> (err = None \<longrightarrow> nat offset \<notin> H \<and> insert (nat offset) H \<subseteq> stored kv')"
proof (cases "fresh kv e'")
  case False
  then have "old kv e'" "err \<noteq> None" "kv' = kv" using out by (auto simp: update_outcome_def)
  then show ?thesis using servers_inv_stale [OF I _ False] by auto
next
  case True
  then have o: "old kv e'" "kv_ok kv'" "takes (stored kv) offset (cached e') \<or> fresh kv (E i) \<and> takes (cached (E i)) offset (cached e')"
      "kv' = kv \<and> (err = None \<longrightarrow> cached e' = stored kv) \<or> kv_rev kv < kv_rev kv' \<and> kv' \<noteq> None \<and> stored kv' = cached e'"
    using out by (auto simp: update_outcome_def)
  have H: "H \<subseteq> stored kv" "fresh kv (E i) \<Longrightarrow> H \<subseteq> cached (E i)"
      "\<And>j. j \<noteq> i \<Longrightarrow> fresh kv (E i) \<Longrightarrow> fresh kv (E j) \<Longrightarrow> stored kv \<subseteq> cached (E i) \<union> cached (E j)"
      "\<And>j. fresh kv (E j) \<Longrightarrow> H \<subseteq> cached (E j)"
    using I by (auto simp: servers_inv_def)
  have new: "nat offset \<notin> H" "insert (nat offset) H \<subseteq> cached e'" using o(3) H(1,2) by (auto simp: takes_def)
  show ?thesis
    using o(4)
  proof
    assume "kv_rev kv < kv_rev kv' \<and> kv' \<noteq> None \<and> stored kv' = cached e'"
    then show ?thesis using servers_inv_written [OF I o(1) _ o(2)] new by auto
  next
    assume same: "kv' = kv \<and> (err = None \<longrightarrow> cached e' = stored kv)"
    have cover: "stored kv \<subseteq> cached e' \<union> cached (E j)" if "j \<noteq> i" "fresh kv (E j)" for j
      using o(3) H(3) [OF that(1) _ that(2)] by (auto simp: takes_def)
    have "insert (nat offset) H \<subseteq> cached (E j)" if "err = None" "j \<noteq> i" "fresh kv (E j)" for j
    proof -
      have "fresh kv (E i)" "nat offset \<notin> cached (E i)" "nat offset \<in> stored kv" using o(3) same that(1) by (auto simp: takes_def)
      then show ?thesis using H(3) [OF that(2) _ that(3)] H(4) [OF that(3)] by blast
    qed
    then have "servers_inv kv (E(i := e')) (if err = None then insert (nat offset) H else H)"
      using new same H cover by (intro servers_inv_kept [OF I o(1)]) auto
    then show ?thesis using new same by auto
  qed
qed

lemma drops_inv:
  assumes I: "servers_inv kv E H" and item: "nat item \<in> H"
    and out: "update_outcome (\<lambda>A off B. off = item \<and> B = A - {nat item}) (cached (E i)) kv (E i) err e' offset kv'"
  shows "servers_inv kv' (E(i := e')) (H - {nat item})"
proof (cases "fresh kv e'")
  case False
  then have "old kv e'" "kv' = kv" using out by (auto simp: update_outcome_def)
  then show ?thesis using servers_inv_stale [OF I _ False, of "H - {nat item}"] by auto
next
  case True
  then have o: "old kv e'" "kv_ok kv'" "cached e' = stored kv - {nat item} \<or> fresh kv (E i) \<and> cached e' = cached (E i) - {nat item}"
      "kv' = kv \<or> kv_rev kv < kv_rev kv' \<and> stored kv' = cached e'"
    using out by (auto simp: update_outcome_def)
  have H: "H \<subseteq> stored kv" "fresh kv (E i) \<Longrightarrow> H \<subseteq> cached (E i)"
      "\<And>j. j \<noteq> i \<Longrightarrow> fresh kv (E i) \<Longrightarrow> fresh kv (E j) \<Longrightarrow> stored kv \<subseteq> cached (E i) \<union> cached (E j)"
      "\<And>j. fresh kv (E j) \<Longrightarrow> H \<subseteq> cached (E j)"
    using I by (auto simp: servers_inv_def)
  have sub: "H - {nat item} \<subseteq> cached e'" using o(3) H(1,2) by auto
  show ?thesis
    using o(4)
  proof
    assume "kv_rev kv < kv_rev kv' \<and> stored kv' = cached e'"
    then show ?thesis using servers_inv_written [OF I o(1) _ o(2)] sub by auto
  next
    assume same: "kv' = kv"
    have "stored kv \<subseteq> cached e' \<union> cached (E j)" if "j \<noteq> i" "fresh kv (E j)" for j
      using o(3) H(3) [OF that(1) _ that(2)] H(4) [OF that(2)] item by auto
    moreover have "H - {nat item} \<subseteq> cached (E j)" if "fresh kv (E j)" for j using H(4) [OF that] by blast
    ultimately have "servers_inv kv (E(i := e')) (H - {nat item})"
      using sub H(1) by (intro servers_inv_kept [OF I o(1)]) auto
    then show ?thesis using same by simp
  qed
qed
subsection \<open>The calls\<close>

lemma bm_Allocate_takes:
  assumes "bm_Allocate offset a = Some (ok, a')"
  shows "0 \<le> offset \<and> (if ok then takes (offsets a) offset (offsets a') else a' = a \<and> nat offset \<in> offsets a)"
  using assms by (auto simp: bm_Allocate_def takes_def offsets_def bits_def bit_set_bit_iff split: if_splits)

lemma bm_AllocateNext_takes:
  assumes "bm_AllocateNext seed a = (n, ok, a')"
  shows "if ok then takes (offsets a) (int n) (offsets a') else a' = a"
proof -
  have "\<not> bit (bm_allocated a) k" if "(case bm_strategy a of
      RandomScan \<Rightarrow> randomScanStrategy seed (bm_allocated a) (bm_max a) (bm_count a)
    | ContiguousScan \<Rightarrow> contiguousScanStrategy (bm_allocated a) (bm_max a) (bm_count a)) = Some k" for k
    using that
    by (auto simp: randomScanStrategy_def contiguousScanStrategy_def find_Some_iff split: allocateStrategy.splits if_splits)
  then show ?thesis
    using assms
    by (auto simp: bm_AllocateNext_def takes_def offsets_def bits_def bit_set_bit_iff split: option.splits)
qed

lemma bm_Release_drops: "bm_Release item a = Some a' \<Longrightarrow> offsets a' = offsets a - {nat item}"
  by (auto simp: bm_Release_def offsets_def bits_def bit_unset_bit_iff split: if_splits)

lemma fresh_alloc [simp]: "fresh kv (e\<lparr>e_alloc := a\<rparr>) = fresh kv e" "old kv (e\<lparr>e_alloc := a\<rparr>) = old kv e"
  by (simp_all add: fresh_def old_def)

lemma update_outcome_alloc [simp]: "update_outcome R L kv (e\<lparr>e_alloc := a\<rparr>) = update_outcome R L kv e"
  by (simp add: update_outcome_def fun_eq_iff)

lemma tryUpdate_offset:
  assumes run: "etcd_tryUpdate env fn (e, off) = Some (err, tr, e', off')"
    and fn: "\<And>i a off x a' off'. fn i (a, off) = Some (x, a', off') \<Longrightarrow> off' = off"
  shows "off' = off"
proof -
  have u: "updateState st (refresh_update (fn i)) (e, off) = Some (res, e', off') \<Longrightarrow> off' = off" for st i e off res e' off'
    using fn by (auto simp: updateState_def refresh_update_def split: option.splits if_splits sum.splits prod.splits)
  have "guaranteed_loop (\<lambda>i. refresh_update (fn i)) True i answers st (e, off) = Some (err, (reads, t), e', off') \<Longrightarrow> off' = off"
    for i answers st e off err reads t e' off'
  proof (induction answers arbitrary: i st e off reads rule: measure_induct_rule [where f = length])
    case (less answers i st e off reads)
    from less.prems show ?case
    proof (cases rule: guaranteed_loop_cases)
      case (again ret s1 kv1 st' answers' reads')
      obtain e1 off1 where s1: "s1 = (e1, off1)" by fastforce
      then show ?thesis using less.IH [of answers' "i + 1" st' e1 off1 reads'] again u by auto
    qed (auto dest: u)
  qed
  then show ?thesis using run
    by (auto simp: etcd_tryUpdate_def GuaranteedUpdate_def split: sum.splits)
qed

lemma etcd_Allocate_outcome:
  assumes run: "etcd_Allocate env offset e = Some ((ok, err), tr, e')" and sv: "served kv tr kv'" "kv_ok kv" "old kv e"
  shows "\<not> ok \<and> err = None \<and> e' = e \<and> kv' = kv \<and> nat offset \<in> cached e
    \<or> (\<exists>terr. update_outcome takes (cached e) kv e terr e' offset kv' \<and> (ok \<and> err = None \<longleftrightarrow> terr = None))"
proof -
  obtain got a where a: "bm_Allocate offset (e_alloc e) = Some (got, a)" using run by (auto simp: etcd_Allocate_def split: option.splits)
  show ?thesis
  proof (cases got)
    case False
    then show ?thesis using run a sv(1) bm_Allocate_takes [OF a] by (auto simp: etcd_Allocate_def served_def)
  next
    case True
    obtain terr off' where t: "etcd_tryUpdate env (\<lambda>_. allocate_again) (e\<lparr>e_alloc := a\<rparr>, offset) = Some (terr, tr, e', off')"
        and ok: "ok \<and> err = None \<longleftrightarrow> terr = None"
      using run a True
      by (cases "etcd_tryUpdate env (\<lambda>_. allocate_again) (e\<lparr>e_alloc := a\<rparr>, offset)")
        (auto simp: etcd_Allocate_def split: option.splits etcd_error.splits)
    have "update_outcome (\<lambda>A off B. takes A off B) (cached e) kv (e\<lparr>e_alloc := a\<rparr>) terr e' off' kv'"
      using bm_Allocate_takes [OF a] True sv(3)
      by (intro tryUpdate_outcome [OF t sv(1,2)])
        (auto simp: allocate_again_def dest: bm_Allocate_takes split: if_splits)
    moreover have "off' = offset"
      by (rule tryUpdate_offset [OF t]) (auto simp: allocate_again_def)
    ultimately show ?thesis using ok by auto
  qed
qed
lemma etcd_AllocateNext_outcome:
  assumes run: "etcd_AllocateNext env e = Some ((offset, ok, err), tr, e')" and sv: "served kv tr kv'" "kv_ok kv" "old kv e"
  shows "\<not> ok \<and> e' = e \<and> kv' = kv \<or> ok \<and> update_outcome takes (cached e) kv e err e' offset kv'"
proof -
  obtain n got a where a: "bm_AllocateNext (ee_rnd env 0) (e_alloc e) = (n, got, a)" using prod_cases3 by blast
  show ?thesis
  proof (cases got)
    case False
    then show ?thesis using run a sv(1) bm_AllocateNext_takes [OF a] by (auto simp: etcd_AllocateNext_def served_def)
  next
    case True
    have t: "etcd_tryUpdate env (\<lambda>i. allocate_next_again (ee_rnd env (i + 1))) (e\<lparr>e_alloc := a\<rparr>, int n) = Some (err, tr, e', offset)"
        and ok: "ok"
      using run a True by (auto simp: etcd_AllocateNext_def)
    have "takes (offsets b) off' (offsets b')" if "allocate_next_again seed (b, off) = Some (None, b', off')" for seed b off b' off'
      using that
      by (auto simp: allocate_next_again_def dest!: bm_Allocate_takes bm_AllocateNext_takes split: option.splits bool.splits prod.splits if_splits)
    then have "update_outcome (\<lambda>A off B. takes A off B) (cached e) kv (e\<lparr>e_alloc := a\<rparr>) err e' offset kv'"
      using bm_AllocateNext_takes [OF a] True sv(3) by (intro tryUpdate_outcome [OF t sv(1,2)]) simp_all
    then show ?thesis using ok by simp
  qed
qed

lemma etcd_Release_outcome:
  assumes run: "etcd_Release env item e = Some (err, tr, e')" and sv: "served kv tr kv'" "kv_ok kv" "old kv e"
  shows "update_outcome (\<lambda>A off B. off = item \<and> B = A - {nat item}) (cached e) kv e err e' item kv'"
proof -
  obtain a off' where a: "bm_Release item (e_alloc e) = Some a"
      and t: "etcd_tryUpdate env (\<lambda>_. release_again) (e\<lparr>e_alloc := a\<rparr>, item) = Some (err, tr, e', off')"
    using run by (auto simp: etcd_Release_def split: option.splits)
  have "off' = item" by (rule tryUpdate_offset [OF t]) (auto simp: release_again_def)
  moreover have "update_outcome (\<lambda>A off B. B = A - {nat off}) (cached e) kv (e\<lparr>e_alloc := a\<rparr>) err e' off' kv'"
    using bm_Release_drops [OF a] sv(3)
    by (intro tryUpdate_outcome [OF t sv(1,2)]) (auto simp: release_again_def dest: bm_Release_drops)
  ultimately show ?thesis by (simp add: update_outcome_def)
qed

lemma servers_step_inv:
  assumes "servers_step s s'" "servers_inv (sv_kv s) (sv_servers s) (sv_held s)"
  shows "servers_inv (sv_kv s') (sv_servers s') (sv_held s')"
  using assms
proof (induction rule: servers_step.induct)
  case (allocate env offset s i ok err tr e' kv')
  have o: "kv_ok (sv_kv s)" "old (sv_kv s) (sv_servers s i)" using allocate.prems by (simp_all add: servers_inv_def)
  show ?case
    using etcd_Allocate_outcome [OF allocate.hyps o]
  proof (elim disjE exE)
    assume "\<not> ok \<and> err = None \<and> e' = sv_servers s i \<and> kv' = sv_kv s \<and> nat offset \<in> cached (sv_servers s i)"
    then show ?thesis using allocate.prems by simp
  next
    fix terr
    assume "update_outcome takes (cached (sv_servers s i)) (sv_kv s) (sv_servers s i) terr e' offset kv' \<and> (ok \<and> err = None \<longleftrightarrow> terr = None)"
    then show ?thesis using takes_inv [OF allocate.prems, of i terr e' offset kv'] by (cases terr) (auto simp: fun_upd_def)
  qed
next
  case (allocate_next env s i offset ok err tr e' kv')
  have o: "kv_ok (sv_kv s)" "old (sv_kv s) (sv_servers s i)" using allocate_next.prems by (simp_all add: servers_inv_def)
  show ?case
    using etcd_AllocateNext_outcome [OF allocate_next.hyps o]
  proof
    assume "\<not> ok \<and> e' = sv_servers s i \<and> kv' = sv_kv s"
    then show ?thesis using allocate_next.prems by simp
  next
    assume "ok \<and> update_outcome takes (cached (sv_servers s i)) (sv_kv s) (sv_servers s i) err e' offset kv'"
    then show ?thesis using takes_inv [OF allocate_next.prems, of i err e' offset kv'] by (cases err) (simp_all add: fun_upd_def)
  qed
next
  case (release item s env i err tr e' kv')
  have o: "kv_ok (sv_kv s)" "old (sv_kv s) (sv_servers s i)" using release.prems by (simp_all add: servers_inv_def)
  show ?case using drops_inv [OF release.prems release.hyps(1) etcd_Release_outcome [OF release.hyps(2,3) o]] by (simp add: fun_upd_def)
next
  case (repair env snapshot s i err tr e' kv' r)
  let ?kv = "sv_kv s" and ?E = "sv_servers s" and ?H = "sv_held s"
  have o: "kv_ok ?kv" "old ?kv (?E i)" using repair.prems by (simp_all add: servers_inv_def)
  have c: "kv_ok kv'" "old ?kv e'"
      "kv' = ?kv \<or> kv_rev ?kv < kv_rev kv' \<and> kv' \<noteq> None \<and> stored kv' = bits (big_SetBytes (ra_Data snapshot))"
      "e_last e' = e_last (?E i) \<and> e_alloc e' = e_alloc (?E i) \<or> kv' = ?kv \<and> cached e' = stored ?kv \<or> kv_rev ?kv < kv_rev kv'"
    using CreateOrUpdate_outcome [OF repair.hyps(1,2) o repair.hyps(3,4)] by blast+
  show ?case
  proof (cases "kv_rev ?kv < kv_rev kv'")
    case True
    then show ?thesis using servers_inv_written [OF repair.prems c(2) True c(1), of ?H i] c(3) repair.hyps(5) by (auto simp: fun_upd_def)
  next
    case False
    then have same: "kv' = ?kv" using c(3) by blast
    have H: "?H \<subseteq> stored ?kv" "\<And>j. fresh ?kv (?E j) \<Longrightarrow> ?H \<subseteq> cached (?E j)"
        "\<And>j. j \<noteq> i \<Longrightarrow> fresh ?kv (?E i) \<Longrightarrow> fresh ?kv (?E j) \<Longrightarrow> stored ?kv \<subseteq> cached (?E i) \<union> cached (?E j)"
      using repair.prems by (auto simp: servers_inv_def)
    have "fresh ?kv e' \<longrightarrow> cached e' = stored ?kv \<or> fresh ?kv (?E i) \<and> cached e' = cached (?E i)"
      using c(4) False by (auto simp: fresh_def)
    then have "servers_inv ?kv (?E(i := e')) ?H" using H by (intro servers_inv_kept [OF repair.prems c(2)]) blast+
    then show ?thesis using same by (simp add: fun_upd_def)
  qed
next
  case (restart s i alloc)
  have "old kv (NewEtcd alloc)" "kv_ok kv \<Longrightarrow> \<not> fresh kv (NewEtcd alloc)" for kv
    by (auto simp: old_def fresh_def NewEtcd_def kv_ok_def kv_rev_def intro: exI [of _ 0] dest: sym)
  then show ?case using servers_inv_stale [OF restart.prems, of "NewEtcd alloc" _ i] restart.prems by (auto simp: fun_upd_def servers_inv_def)
qed

lemma servers_reachable_inv: "servers_reachable s \<Longrightarrow> servers_inv (sv_kv s) (sv_servers s) (sv_held s)"
proof (induction rule: servers_reachable.induct)
  case (start kv held allocs)
  have "old kv (NewEtcd a)" "\<not> fresh kv (NewEtcd a)" for a
    using start(1) by (auto simp: old_def fresh_def NewEtcd_def kv_ok_def kv_rev_def intro: exI [of _ 0] dest: sym)
  then show ?case using start by (simp add: servers_inv_def)
qed (rule servers_step_inv)

subsection \<open>A call that is not disturbed\<close>

lemma bm_Allocate_free:
  assumes "0 \<le> off" "nat off \<notin> offsets a"
  shows "\<exists>a'. bm_Allocate off a = Some (True, a') \<and> offsets a' = insert (nat off) (offsets a) \<and> bm_rangeSpec a' = bm_rangeSpec a"
  using assms by (auto simp: bm_Allocate_def offsets_def bits_def bit_set_bit_iff)

lemma refresh_succeeds:
  assumes kv: "kv = Some (r, v)" "kv_ok kv" "getState True kv = Inr st" and spec: "bm_rangeSpec (e_alloc e) = ra_Range v"
    and off: "0 \<le> off" "nat off \<in> cached e" "nat off \<notin> stored kv"
  shows "\<exists>ret e1. updateState st (refresh_update allocate_again) (e, off) = Some (Inr ret, e1, off) \<and> fresh kv e1
    \<and> bm_rangeSpec (e_alloc e1) = ra_Range v \<and> cached e1 = (if fresh kv e then cached e else insert (nat off) (stored kv))
    \<and> bits (big_SetBytes (ra_Data (etcd_encode ret))) = cached e1"
proof -
  have r: "0 < r" "r < 2 ^ 63" using kv(1,2) by (simp_all add: kv_ok_def)
  have obj: "ra_ResourceVersion (os_obj st) = versionString r" "ra_Data (os_obj st) = ra_Data v" "ra_Range (os_obj st) = ra_Range v"
    using kv(1,3) by (auto simp: getState_def etcd_decode_def UpdateObject_def RangeAllocation.extend_def)
  define a1 where "a1 = (e_alloc e)\<lparr>bm_allocated := big_SetBytes (ra_Data v), bm_count := int (countBits (big_SetBytes (ra_Data v)))\<rparr>"
  have restore: "bm_Restore (ra_Range v) (ra_Data v) (e_alloc e) = (None, a1)" using spec by (simp add: bm_Restore_def a1_def)
  have a1: "offsets a1 = stored kv" "bm_rangeSpec a1 = ra_Range v" using bits_Restore [OF restore] kv(1) spec by (simp_all add: stored_def a1_def)
  obtain a2 where a2: "bm_Allocate off a1 = Some (True, a2)" "offsets a2 = insert (nat off) (stored kv)" "bm_rangeSpec a2 = ra_Range v"
    using bm_Allocate_free [of off a1] off(1,3) a1 by auto
  define a where "a = (if e_last e = versionString r then e_alloc e else a2)"
  obtain rs data where sn: "bm_Snapshot a = (rs, data)" by fastforce
  have fr: "fresh kv e \<longleftrightarrow> e_last e = versionString r" using kv(1) by (simp add: fresh_def kv_rev_def)
  let ?ret = "(os_obj st)\<lparr>ra_Range := rs, ra_Data := data\<rparr>" and ?e1 = "e\<lparr>e_alloc := a, e_last := versionString r\<rparr>"
  have "refresh_update allocate_again (os_obj st) (e, off) = Some (Inr ?ret, ?e1, off)"
    using obj r(1) restore a2(1) sn by (auto simp: refresh_update_def allocate_again_def a_def)
  moreover have "ObjectResourceVersion ?ret = Some r" using obj(1) r ParseUint64_versionString by (simp add: ObjectResourceVersion_def)
  ultimately have "updateState st (refresh_update allocate_again) (e, off) = Some (Inr (UpdateObject 0 ?ret), ?e1, off)"
    using r(1) by (simp add: updateState_def)
  moreover have "fresh kv ?e1" using kv(1) by (simp add: fresh_def kv_rev_def)
  moreover have "bm_rangeSpec a = ra_Range v" using a2(3) spec by (simp add: a_def)
  moreover have "offsets a = (if fresh kv e then cached e else insert (nat off) (stored kv))" using a2(2) fr by (simp add: a_def)
  moreover have "bits (big_SetBytes (ra_Data (etcd_encode (UpdateObject 0 ?ret)))) = offsets a"
    using bits_Snapshot [OF sn] by (simp add: etcd_encode_def UpdateObject_def RangeAllocation.truncate_def)
  ultimately show ?thesis by (intro exI conjI) (assumption | simp)+
qed

text \<open>The answer to the transaction of an undisturbed call decides its result.\<close>

lemma allocate_undisturbed:
  assumes kv: "kv = Some (r, v)" "kv_ok kv" and spec: "bm_rangeSpec (e_alloc e) = ra_Range v"
    and off: "0 \<le> off" "nat off \<notin> cached e" "nat off \<notin> stored kv"
    and env: "ee_Get env = Inr kv" "ee_Txn env = [ans]" "case ans of Compared _ \<Rightarrow> False | _ \<Rightarrow> True"
  shows "\<exists>data e1. etcd_Allocate env off e
      = Some ((case ans of TxnError x \<Rightarrow> (False, Some (ClientError x)) | _ \<Rightarrow> (True, None)), ([kv], Some (data, ans)), e1)
    \<and> fresh kv e1 \<and> bm_rangeSpec (e_alloc e1) = ra_Range v \<and> bits (big_SetBytes (ra_Data data)) = cached e1
    \<and> cached e1 = insert (nat off) (if fresh kv e then cached e else stored kv)"
proof -
  obtain a where a: "bm_Allocate off (e_alloc e) = Some (True, a)" "offsets a = insert (nat off) (cached e)" "bm_rangeSpec a = ra_Range v"
    using bm_Allocate_free [OF off(1,2)] spec by auto
  obtain st where st: "getState True kv = Inr st" "os_data st = Some v" using kv(1) by (simp add: getState_def)
  obtain ret e1 where u: "updateState st (refresh_update allocate_again) (e\<lparr>e_alloc := a\<rparr>, off) = Some (Inr ret, e1, off)" "fresh kv e1"
      "bm_rangeSpec (e_alloc e1) = ra_Range v" "cached e1 = (if fresh kv e then offsets a else insert (nat off) (stored kv))"
      "bits (big_SetBytes (ra_Data (etcd_encode ret))) = cached e1"
    using refresh_succeeds [OF kv st(1), of "e\<lparr>e_alloc := a\<rparr>" off] a off(1,3) by auto
  have "nat off \<in> cached e1" using u(4) a(2) by (simp split: if_splits)
  then have "v \<noteq> etcd_encode ret" using u(5) off(3) kv(1) by (auto simp: stored_def)
  then have "guaranteed_loop (\<lambda>i. refresh_update allocate_again) True 0 [ans] st (e\<lparr>e_alloc := a\<rparr>, off)
      = Some (case ans of TxnError x \<Rightarrow> Some (ClientError x) | _ \<Rightarrow> None, ([], Some (etcd_encode ret, ans)), e1, off)"
    using u(1) st(2) env(3) by (subst guaranteed_loop.simps) (cases ans; simp add: Let_def)
  then have "etcd_Allocate env off e
      = Some ((case ans of TxnError x \<Rightarrow> (False, Some (ClientError x)) | _ \<Rightarrow> (True, None)), ([kv], Some (etcd_encode ret, ans)), e1)"
    using a(1) env st(1) by (cases ans) (simp_all add: etcd_Allocate_def etcd_tryUpdate_def GuaranteedUpdate_def InterpretUpdateError_def)
  moreover have "cached e1 = insert (nat off) (if fresh kv e then cached e else stored kv)" using u(4) a(2) by simp
  ultimately show ?thesis using u(2,3,5) by blast
qed

subsection \<open>Properties\<close>


definition example_kv :: "nat \<Rightarrow> byte list \<Rightarrow> kv" where
  "example_kv r data = Some (r, \<lparr>ra_Range = ''0-2'', ra_Data = data\<rparr>)"

definition example_answers :: "kv \<Rightarrow> txn_answer list \<Rightarrow> etcd_env" where
  "example_answers kv answers = \<lparr>ee_Get = Inr kv, ee_Txn = answers, ee_rnd = id\<rparr>"

definition example_server :: Etcd where
  "example_server = NewEtcd (NewAllocationMap 3 ''0-2'')"

text \<open>
  The first server takes 2; the second, which read the key before, loses its transaction for 2
  against it and is refused.
\<close>

lemma example_first:
  "etcd_Allocate (example_answers (example_kv 1 []) [Succeeded 2]) 2 example_server
     = Some ((True, None), ([example_kv 1 []], Some (\<lparr>ra_Range = ''0-2'', ra_Data = [4]\<rparr>, Succeeded 2)),
         \<lparr>e_alloc = \<lparr>bm_strategy = RandomScan, bm_max = 3, bm_rangeSpec = ''0-2'', bm_count = 1, bm_allocated = 4\<rparr>, e_last = ''1''\<rparr>)"
  by code_simp

lemma example_second:
  "map_option (\<lambda>(r, t, e). r) (etcd_Allocate (example_answers (example_kv 1 []) [Compared (example_kv 2 [4])]) 2 example_server) = Some (False, None)"
  by code_simp

lemma example_third:
  "etcd_AllocateNext (example_answers (example_kv 1 []) [Compared (example_kv 2 [4]), Succeeded 3]) example_server
     = Some ((0, True, None), ([example_kv 1 [], example_kv 2 [4]], Some (\<lparr>ra_Range = ''0-2'', ra_Data = [5]\<rparr>, Succeeded 3)),
         \<lparr>e_alloc = \<lparr>bm_strategy = RandomScan, bm_max = 3, bm_rangeSpec = ''0-2'', bm_count = 2, bm_allocated = 5\<rparr>, e_last = ''2''\<rparr>)"
  by code_simp

text \<open>
  C40. An allocation that failed can be stored nevertheless: when the transaction of a server that
  allocates \<open>p\<close> fails and was not applied, the caller gets the error, but the bitmap of the server
  keeps \<open>p\<close> and counts as the stored one. The next allocation of the server, of another offset
  \<open>q\<close>, writes both: \<open>p\<close> is allocated for every server and held by nobody.
\<close>

theorem failed_allocation_is_stored:
  assumes "kv = Some (r, v)" "kv_ok kv" "bm_rangeSpec (e_alloc e) = ra_Range v" "0 \<le> p" "0 \<le> q" "p \<noteq> q"
    "{nat p, nat q} \<inter> (cached e \<union> stored kv) = {}"
    "ee_Get env = Inr kv" "ee_Txn env = [TxnError x]" "ee_Get env' = Inr kv" "ee_Txn env' = [Succeeded r']"
  shows "\<exists>tr e1 data e2. etcd_Allocate env p e = Some ((False, Some (ClientError x)), tr, e1) \<and> served kv tr kv
    \<and> etcd_Allocate env' q e1 = Some ((True, None), ([kv], Some (data, Succeeded r')), e2)
    \<and> {nat p, nat q} \<subseteq> stored (Some (r', data))"
proof -
  obtain data e1 where 1: "etcd_Allocate env p e = Some ((False, Some (ClientError x)), ([kv], Some (data, TxnError x)), e1)" "fresh kv e1"
      "bm_rangeSpec (e_alloc e1) = ra_Range v" "cached e1 = insert (nat p) (if fresh kv e then cached e else stored kv)"
    using allocate_undisturbed [OF assms(1-4) _ _ assms(8,9)] assms(7) by auto
  have q: "nat q \<notin> cached e1" "nat q \<notin> stored kv" using assms(4-7) 1(4) by (auto simp: nat_eq_iff)
  obtain data' e2 where 2: "etcd_Allocate env' q e1 = Some ((True, None), ([kv], Some (data', Succeeded r')), e2)"
      "bits (big_SetBytes (ra_Data data')) = cached e2" "cached e2 = insert (nat q) (cached e1)"
    using allocate_undisturbed [OF assms(1,2) 1(3) assms(5) q assms(10,11)] 1(2) by auto
  have "served kv ([kv], Some (data, TxnError x)) kv" using assms(2) by (simp add: served_def)
  moreover have "{nat p, nat q} \<subseteq> stored (Some (r', data'))" using 2(2,3) 1(4) by (simp add: stored_def)
  ultimately show ?thesis using 1(1) 2(1) by blast
qed

theorem failed_allocation_is_stored_witness:
  "\<exists>tr e1 data e2. etcd_Allocate (example_answers (example_kv 1 []) [TxnError ''timeout'']) 1 example_server
      = Some ((False, Some (ClientError ''timeout'')), tr, e1) \<and> served (example_kv 1 []) tr (example_kv 1 [])
    \<and> etcd_Allocate (example_answers (example_kv 1 []) [Succeeded 2]) 2 e1 = Some ((True, None), ([example_kv 1 []], Some (data, Succeeded 2)), e2)
    \<and> {nat 1, nat 2} \<subseteq> stored (Some (2, data))"
proof (rule failed_allocation_is_stored)
  show "example_kv 1 [] = Some (1, \<lparr>ra_Range = ''0-2'', ra_Data = []\<rparr>)" by (simp add: example_kv_def)
  show "{nat 1, nat 2} \<inter> (cached example_server \<union> stored (example_kv 1 [])) = {}"
    by (simp add: example_server_def NewEtcd_def NewAllocationMap_def offsets_def stored_def example_kv_def big_SetBytes_def)
qed (simp_all add: example_kv_def kv_ok_def example_server_def NewEtcd_def NewAllocationMap_def example_answers_def)
end
