(* ===== verification/Spec2Isabelle.thy ===== *)
theory Spec2Isabelle
  imports DelayingQueue Informer LabelSyntax Scheduling IPRepair EtcdReplicas
begin

text \<open>
  A verification of core machinery of Kubernetes: the queues and caches that every controller is
  built from, the selectors they filter with, the cache of the scheduler, and the allocation of
  the cluster IPs and node ports of services by API servers that share etcd.

  \<^bold>\<open>The parts and how they interact.\<close> A controller watches the cluster through an informer: a
  reflector writes lists and watch events into a \<^verbatim>\<open>DeltaFIFO\<close>, the controller loop pops the deltas
  of one object at a time, and the handler applies them to an indexed store and notifies the
  listeners, which put keys into a work queue. Workers take keys from the queue and put them back
  with a delay that a rate limiter computes. The scheduler keeps the pods and nodes that its
  informers report in a cache and asks predicates on a snapshot of it whether a pod fits a node.
  The API server stores services; a creation allocates a cluster IP and node ports from bitmaps,
  inside a transaction that is undone when the creation fails. The bitmap of each server is backed
  by one key of etcd, and repair controllers rebuild it from the stored services.

  \<^bold>\<open>Conventions.\<close> A method that holds a lock is one step: a function from the state of its record
  to the state it leaves, with its results. Goroutines are interleaved as sequences of such steps.
  A Go map is a HOL map, and a range over it takes the order it visits the keys in as an argument.
  A panic is \<open>None\<close>, or a constructor of the result type where the code has other early returns. An
  error is a value of a datatype of the component. Clocks and random numbers are arguments. Code
  outside these parts (API registries, validation of whole objects, etcd, object accessors) is an
  argument of the definitions, with what the theorems rely on as their hypotheses.

  \<^bold>\<open>The theories.\<close>

  \<^item> \<open>Go_Prelude\<close>: Go maps and their iteration orders, the wrap-around of machine integers, binary
    search, string splitting, and the lemma collections of the development.
  \<^item> \<open>WorkQueue\<close> models \<^verbatim>\<open>pkg/util/workqueue/queue.go\<close> and \<^verbatim>\<open>metrics.go\<close>: \<open>queue_Add\<close>, \<open>queue_Get\<close>,
    \<open>queue_Done\<close>, \<open>queue_ShutDown\<close> on a record of the queue and its dirty and processing sets. In every
    reachable state the queue holds exactly the dirty items that are not processed; items are handed
    out in order, to one worker at a time, and none is lost; the queue refines a machine on sets.
  \<^item> \<open>RateLimiters\<close> models \<^verbatim>\<open>default_rate_limiters.go\<close> and the token bucket of
    \<^verbatim>\<open>vendor/github.com/juju/ratelimit\<close>: the backoff doubles up to its cap, and the bucket grants
    tokens at no more than its rate, one burst and its capacity.
  \<^item> \<open>DelayingQueue\<close> models \<^verbatim>\<open>delaying_queue.go\<close> and \<^verbatim>\<open>rate_limitting_queue.go\<close>: the waiting loop and
    its channel as a step relation; no delayed item is lost and none comes early.
  \<^item> \<open>ThreadSafeStore\<close> and \<open>Store\<close> model \<^verbatim>\<open>pkg/client/cache/thread_safe_store.go\<close>, \<^verbatim>\<open>index.go\<close>,
    \<^verbatim>\<open>store.go\<close> and \<^verbatim>\<open>undelta_store.go\<close>: every method keeps each index equal to the keys filed under
    each value, a cache behaves like a map, and a key splits back into namespace and name.
  \<^item> \<open>FIFO\<close> and \<open>DeltaFIFO\<close> model \<^verbatim>\<open>fifo.go\<close> and \<^verbatim>\<open>delta_fifo.go\<close>: the queue and the items agree in
    every reachable state, and the outcome of a re-list is characterised, with its two exceptions.
  \<^item> \<open>Informer\<close> models \<^verbatim>\<open>shared_informer.go\<close>, \<^verbatim>\<open>controller.go\<close> and \<^verbatim>\<open>reflector.go\<close>: under every
    interleaving the indexer with the pending deltas is the state the server sent, and the
    notifications of a handler replay to the contents of the indexer.
  \<^item> \<open>Validation\<close>, \<open>Labels\<close> and \<open>LabelSyntax\<close> model \<^verbatim>\<open>pkg/util/validation\<close> and \<^verbatim>\<open>pkg/labels\<close>: regular
    expressions with a verified matcher, label selectors, their lexer and parser. The parser is
    total, and what \<^verbatim>\<open>String\<close> prints parses back.
  \<^item> \<open>NodeInfo\<close>, \<open>SchedulerCache\<close> and \<open>Scheduling\<close> model \<^verbatim>\<open>plugin/pkg/scheduler/schedulercache\<close> and
    the resource predicate of \<^verbatim>\<open>algorithm/predicates/predicates.go\<close>: the pods are accounted on the
    nodes exactly, amounts being 64 bit words and the sums of a node objects behind pointers, and a pod
    that the predicate accepts does not overcommit its node.
  \<^item> \<open>Bitmap\<close>, \<open>PortAllocator\<close>, \<open>IPs\<close> and \<open>IPAllocator\<close> model \<^verbatim>\<open>pkg/registry/core/service/allocator\<close>,
    \<^verbatim>\<open>portallocator\<close>, \<^verbatim>\<open>ipallocator\<close>, \<^verbatim>\<open>pkg/util/net/port_range.go\<close> and what they use of the standard
    packages \<^verbatim>\<open>math/big\<close> and \<^verbatim>\<open>net\<close>: the bitmap is a set, the allocators hand out each port or
    address of their range to one caller, and a transaction is all or nothing.
  \<^item> \<open>ServiceREST\<close> and \<open>ServiceAllocation\<close> model \<^verbatim>\<open>pkg/registry/core/service/rest.go\<close>: Create, Update
    and Delete with their deferred calls. A creation allocates all or nothing, a deletion gives back
    what the creation took, and what an update really does to the ports is characterised.
  \<^item> \<open>PortRepair\<close> and \<open>IPRepair\<close> model the two \<^verbatim>\<open>controller/repair.go\<close> with \<^verbatim>\<open>pkg/client/retry/util.go\<close>:
    what a run writes, and when a leaked port is freed.
  \<^item> \<open>EtcdAllocator\<close> and \<open>EtcdReplicas\<close> model \<^verbatim>\<open>allocator/etcd/etcd.go\<close> over \<^verbatim>\<open>GuaranteedUpdate\<close> of
    \<^verbatim>\<open>pkg/storage/etcd3/store.go\<close>: servers that share one key never hand out an offset that is held.

  \<^bold>\<open>Interfaces.\<close> The locales \<open>work_queue_interface\<close>, \<open>rate_limiter_interface\<close>, \<open>store_interface\<close>,
  \<open>delta_kept\<close> and \<open>port_interface\<close> state what the clients of a component rely on; each is interpreted
  on the definitions of the model, and the client lemmas are used through these interpretations.

  \<^bold>\<open>Bounds.\<close> The loop that parses an IPv6 address has a counter of 8, as many rounds as an address
  of 16 bytes has groups; the loop of the source stops there as well. A retry on conflict makes at most the 4
  calls of \<^verbatim>\<open>DefaultBackoff\<close>. The update loop of the etcd store recurses over the answers that etcd
  gives: a call without a further answer has not returned. All other loops end by structural
  recursion or a proved measure. The theorems on IP ranges are about IPv4 networks not below
  1.0.0.0, those on etcd about revisions below \<open>2 ^ 63\<close>, the range of \<^verbatim>\<open>int64\<close>.

  \<^bold>\<open>Not modelled.\<close> Starting and stopping goroutines, polling and timers; logging and events; the
  HTTP layer, the codecs and generated code; the validation of whole API objects and the generic
  registry, which are parameters of the service storage; \<^verbatim>\<open>ResourceLocation\<close> and the methods of the
  service storage that only delegate; the other predicates and the priorities of the scheduler; the
  watch cache and the other operations of the etcd store; the controllers, the node agent, the
  proxy, volumes, cloud providers, the command line and the federation, which are clients of the
  parts above or mostly calls of the operating system and of remote services.
\<close>

end
